(* ===== verification/Prelude.thy ===== *)
theory Prelude
  imports Main "HOL-Library.Word"
begin

text \<open>
  Shared vocabulary of the development.

  \<^item> The Rust machine integers as words, and the faults a Rust function of the kernel can
    end in: a failed \<open>assert!\<close>, an index out of bounds, an arithmetic overflow (the kernel
    is built and run in Cargo's dev profile, where overflow checks are on), an \<open>expect\<close>
    or \<open>unwrap\<close> on a missing value, an explicit \<open>panic!\<close>, an access that leaves the
    object a raw pointer was derived from, a reference made from a misaligned pointer
    (checked in the dev profile), and a loop that never ends.
  \<^item> The result type \<open>'a res\<close>, its sequencing operator \<open>bind_res\<close> and the loop
    \<open>fold_res\<close>, with the \<open>res_simps\<close> collection.
  \<^item> \<open>usize\<close> arithmetic as the dev profile compiles it, and the pieces of \<open>core\<close> the
    sources call (\<open>next_multiple_of\<close>, \<open>div_ceil\<close>, \<open>windows\<close>, \<open>position\<close>).
  \<^item> Byte memory: little-endian encodings and their round trips, reads and writes of byte
    ranges, and the frame rules for disjoint ranges (collection \<open>mem_simps\<close>).

  A \<open>usize\<close> that is a size, an index or an address is a \<open>nat\<close> with its overflow checks
  written out; where the code works on the bits of the value it is a \<open>64 word\<close>.
\<close>

unbundle bit_operations_syntax

named_theorems res_simps \<open>equations that step through the result type\<close>
named_theorems mem_simps \<open>reads over writes of byte memory\<close>

section \<open>Integers and results\<close>

type_synonym u8 = "8 word"
type_synonym u16 = "16 word"
type_synonym u32 = "32 word"
type_synonym u64 = "64 word"

datatype fault =
    AssertFailed
  | IndexOutOfBounds
  | ArithOverflow
  | UnwrapNone
  | ExplicitPanic "u8 list"
  | OutOfObject
  | Misaligned
  | Diverges

type_synonym 'a res = "fault + 'a"

definition bind_res :: "'a res \<Rightarrow> ('a \<Rightarrow> 'b res) \<Rightarrow> 'b res" where
  "bind_res r f = (case r of Inl e \<Rightarrow> Inl e | Inr x \<Rightarrow> f x)"

lemma bind_res_simps [simp, res_simps]:
  "bind_res (Inl e) f = Inl e"
  "bind_res (Inr x) f = f x"
  by (simp_all add: bind_res_def)

lemma bind_res_Inr_iff:
  "bind_res r f = Inr y \<longleftrightarrow> (\<exists>x. r = Inr x \<and> f x = Inr y)"
  by (cases r) auto

lemma bind_res_assoc: "bind_res (bind_res r f) g = bind_res r (\<lambda>x. bind_res (f x) g)"
  by (cases r) auto

lemma bind_res_cong [fundef_cong]:
  "r = r' \<Longrightarrow> (\<And>x. r' = Inr x \<Longrightarrow> f x = g x) \<Longrightarrow> bind_res r f = bind_res r' g"
  by (cases r') auto

definition assert_res :: "bool \<Rightarrow> unit res" where
  "assert_res b = (if b then Inr () else Inl AssertFailed)"

lemma assert_res_Inr [simp]: "assert_res b = Inr u \<longleftrightarrow> b"
  by (simp add: assert_res_def)

lemma assert_res_True [simp, res_simps]: "assert_res True = Inr ()"
  and assert_res_False [simp, res_simps]: "assert_res False = Inl AssertFailed"
  by (simp_all add: assert_res_def)

lemma bind_assert_iff: "bind_res (assert_res b) f = Inr y \<longleftrightarrow> b \<and> f () = Inr y"
  by (cases b) auto

text \<open>A \<open>for\<close> loop over a known sequence: the body may fault.\<close>

fun fold_res :: "('a \<Rightarrow> 's \<Rightarrow> 's res) \<Rightarrow> 'a list \<Rightarrow> 's \<Rightarrow> 's res" where
  "fold_res f [] s = Inr s"
| "fold_res f (x # xs) s = bind_res (f x s) (fold_res f xs)"

lemma fold_res_append:
  "fold_res f (xs @ ys) s = bind_res (fold_res f xs s) (fold_res f ys)"
proof (induction xs arbitrary: s)
  case Nil
  show ?case by simp
next
  case (Cons x xs)
  show ?case
    by (cases "f x s") (simp_all add: Cons.IH)
qed

text \<open>A total-correctness rule for such loops: the invariant is indexed by the iterations done.\<close>

lemma fold_res_invariant:
  assumes start: "I 0 s"
    and step: "\<And>k t. k < length xs \<Longrightarrow> I k t \<Longrightarrow> \<exists>t'. f (xs ! k) t = Inr t' \<and> I (Suc k) t'"
  shows "\<exists>t. fold_res f xs s = Inr t \<and> I (length xs) t"
  using assms
proof (induction xs arbitrary: s I)
  case Nil
  then show ?case by simp
next
  case (Cons x xs)
  from Cons.prems(2) [of 0 s] Cons.prems(1) obtain s1 where
    s1: "f x s = Inr s1" "I (Suc 0) s1" by auto
  have "\<exists>t. fold_res f xs s1 = Inr t \<and> I (Suc (length xs)) t"
  proof (rule Cons.IH [where I = "\<lambda>k. I (Suc k)"])
    show "I (Suc 0) s1" by (rule s1(2))
    show "\<exists>t'. f (xs ! k) t = Inr t' \<and> I (Suc (Suc k)) t'"
      if "k < length xs" "I (Suc k) t" for k t
      using Cons.prems(2) [of "Suc k" t] that by simp
  qed
  with s1(1) show ?case by simp
qed

section \<open>Arithmetic of the dev profile and pieces of core\<close>

definition usize_add :: "nat \<Rightarrow> nat \<Rightarrow> nat res" where
  "usize_add a b = (if a + b < 2 ^ 64 then Inr (a + b) else Inl ArithOverflow)"

definition usize_sub :: "nat \<Rightarrow> nat \<Rightarrow> nat res" where
  "usize_sub a b = (if b \<le> a then Inr (a - b) else Inl ArithOverflow)"

definition usize_mul :: "nat \<Rightarrow> nat \<Rightarrow> nat res" where
  "usize_mul a b = (if a * b < 2 ^ 64 then Inr (a * b) else Inl ArithOverflow)"

lemma usize_ok [simp, res_simps]:
  "a + b < 2 ^ 64 \<Longrightarrow> usize_add a b = Inr (a + b)"
  "b \<le> a \<Longrightarrow> usize_sub a b = Inr (a - b)"
  "a * b < 2 ^ 64 \<Longrightarrow> usize_mul a b = Inr (a * b)"
  by (simp_all add: usize_add_def usize_sub_def usize_mul_def)

lemma usize_Inr_iff:
  "usize_add a b = Inr c \<longleftrightarrow> a + b < 2 ^ 64 \<and> c = a + b"
  "usize_sub a b = Inr c \<longleftrightarrow> b \<le> a \<and> c = a - b"
  "usize_mul a b = Inr c \<longleftrightarrow> a * b < 2 ^ 64 \<and> c = a * b"
  by (auto simp: usize_add_def usize_sub_def usize_mul_def)

text \<open>\<open>usize::next_multiple_of\<close>: the smallest multiple of \<open>b\<close> that is at least \<open>a\<close>.\<close>

definition next_multiple :: "nat \<Rightarrow> nat \<Rightarrow> nat" where
  "next_multiple a b = (if a mod b = 0 then a else a + (b - a mod b))"

definition usize_next_multiple_of :: "nat \<Rightarrow> nat \<Rightarrow> nat res" where
  "usize_next_multiple_of a b =
     (if next_multiple a b < 2 ^ 64 then Inr (next_multiple a b) else Inl ArithOverflow)"

lemma next_multiple_ge: "a \<le> next_multiple a b"
  by (simp add: next_multiple_def)

lemma next_multiple_dvd: "0 < b \<Longrightarrow> b dvd next_multiple a b"
proof -
  assume b: "0 < b"
  have "a mod b \<le> b" using mod_less_divisor [OF b, of a] by simp
  then have "a + (b - a mod b) = a div b * b + b"
    using div_mult_mod_eq [of a b] by linarith
  then show ?thesis
    by (auto simp: next_multiple_def)
qed

lemma next_multiple_lt: "0 < b \<Longrightarrow> next_multiple a b < a + b"
  by (auto simp: next_multiple_def)

lemma next_multiple_id: "b dvd a \<Longrightarrow> next_multiple a b = a"
  by (simp add: next_multiple_def)

lemma next_multiple_least:
  assumes "0 < b" "b dvd c" "a \<le> c"
  shows "next_multiple a b \<le> c"
proof (rule ccontr)
  assume "\<not> next_multiple a b \<le> c"
  then have lt: "c < next_multiple a b" by simp
  from assms(1) have dvd: "b dvd next_multiple a b" by (rule next_multiple_dvd)
  from assms(2) dvd lt have "b dvd next_multiple a b - c" by (auto intro: dvd_diff_nat)
  with lt have ge: "b \<le> next_multiple a b - c" by (auto dest: dvd_imp_le)
  from assms(1) have "next_multiple a b < a + b" by (rule next_multiple_lt)
  with ge lt assms(1,3) show False by linarith
qed

definition div_ceil :: "nat \<Rightarrow> nat \<Rightarrow> nat" where
  "div_ceil a b = (if a mod b = 0 then a div b else a div b + 1)"

text \<open>\<open>slice::windows\<close> and \<open>Iterator::position\<close>.\<close>

definition windows :: "nat \<Rightarrow> 'a list \<Rightarrow> 'a list list" where
  "windows n xs = map (\<lambda>i. take n (drop i xs)) [0..<length xs + 1 - n]"

fun position :: "('a \<Rightarrow> bool) \<Rightarrow> 'a list \<Rightarrow> nat option" where
  "position P [] = None"
| "position P (x # xs) = (if P x then Some 0 else map_option Suc (position P xs))"

lemma position_Some:
  "position P xs = Some i \<longleftrightarrow> i < length xs \<and> P (xs ! i) \<and> (\<forall>j < i. \<not> P (xs ! j))"
proof (induction xs arbitrary: i)
  case Nil
  then show ?case by simp
next
  case (Cons x xs)
  show ?case
  proof (cases i)
    case 0
    then show ?thesis by auto
  next
    case (Suc k)
    have "(\<forall>j < Suc k. \<not> P ((x # xs) ! j)) \<longleftrightarrow> \<not> P x \<and> (\<forall>j < k. \<not> P (xs ! j))"
      by (auto simp: less_Suc_eq_0_disj)
    with Suc Cons.IH [of k] show ?thesis by auto
  qed
qed

lemma position_None: "position P xs = None \<longleftrightarrow> (\<forall>x \<in> set xs. \<not> P x)"
  by (induction xs) auto

lemma length_windows [simp]: "length (windows n xs) = length xs + 1 - n"
  by (simp add: windows_def)

lemma nth_windows: "i < length xs + 1 - n \<Longrightarrow> windows n xs ! i = take n (drop i xs)"
  by (simp add: windows_def)

lemma list_all_window:
  "i + n \<le> length xs \<Longrightarrow> list_all P (take n (drop i xs)) \<longleftrightarrow> (\<forall>k < n. P (xs ! (i + k)))"
  by (auto simp: list_all_length)

section \<open>Little-endian encodings\<close>

fun le_val :: "u8 list \<Rightarrow> nat" where
  "le_val [] = 0"
| "le_val (b # bs) = unat b + 256 * le_val bs"

fun le_bytes :: "nat \<Rightarrow> nat \<Rightarrow> u8 list" where
  "le_bytes 0 v = []"
| "le_bytes (Suc n) v = of_nat (v mod 256) # le_bytes n (v div 256)"

lemma length_le_bytes [simp]: "length (le_bytes n v) = n"
  by (induction n arbitrary: v) auto

lemma unat_u8_bound: "unat (b :: u8) < 256"
  using unsigned_less [of b, where ?'a = nat] by simp

lemma unat_u8_mod: "unat (of_nat (v mod 256) :: u8) = v mod 256"
  by (simp add: unat_of_nat)

lemma le_val_le_bytes: "le_val (le_bytes n v) = v mod 256 ^ n"
proof (induction n arbitrary: v)
  case 0
  then show ?case by simp
next
  case (Suc n)
  have "le_val (le_bytes (Suc n) v) = v mod 256 + 256 * (v div 256 mod 256 ^ n)"
    by (simp add: Suc.IH unat_u8_mod)
  also have "\<dots> = v mod (256 * 256 ^ n)"
    by (simp add: mod_mult2_eq)
  finally show ?case by simp
qed

lemma le_val_bound: "le_val bs < 256 ^ length bs"
proof (induction bs)
  case Nil
  then show ?case by simp
next
  case (Cons b bs)
  have "unat b < 256" by (rule unat_u8_bound)
  with Cons show ?case by simp
qed

lemma le_bytes_le_val: "le_bytes (length bs) (le_val bs) = bs"
proof (induction bs)
  case Nil
  then show ?case by simp
next
  case (Cons b bs)
  have b: "unat b < 256" by (rule unat_u8_bound)
  then have "(unat b + 256 * le_val bs) mod 256 = unat b"
    and "(unat b + 256 * le_val bs) div 256 = le_val bs"
    by auto
  with Cons.IH show ?case by simp
qed

lemma le_bytes_zero: "le_bytes n 0 = replicate n 0"
  by (induction n) auto

lemma le_val_replicate_zero [simp]: "le_val (replicate n 0) = 0"
  by (induction n) auto

section \<open>Byte memory\<close>

type_synonym memory = "nat \<Rightarrow> u8"

definition rd_bytes :: "memory \<Rightarrow> nat \<Rightarrow> nat \<Rightarrow> u8 list" where
  "rd_bytes m a n = map (\<lambda>i. m (a + i)) [0..<n]"

definition wr_bytes :: "memory \<Rightarrow> nat \<Rightarrow> u8 list \<Rightarrow> memory" where
  "wr_bytes m a bs = (\<lambda>x. if a \<le> x \<and> x < a + length bs then bs ! (x - a) else m x)"

definition fill_bytes :: "memory \<Rightarrow> nat \<Rightarrow> nat \<Rightarrow> u8 \<Rightarrow> memory" where
  "fill_bytes m a n b = (\<lambda>x. if a \<le> x \<and> x < a + n then b else m x)"

lemma length_rd_bytes [simp]: "length (rd_bytes m a n) = n"
  by (simp add: rd_bytes_def)

lemma nth_rd_bytes [simp]: "i < n \<Longrightarrow> rd_bytes m a n ! i = m (a + i)"
  by (simp add: rd_bytes_def)

lemma wr_bytes_in: "i < length bs \<Longrightarrow> wr_bytes m a bs (a + i) = bs ! i"
  by (simp add: wr_bytes_def)

lemma wr_bytes_out: "x < a \<or> a + length bs \<le> x \<Longrightarrow> wr_bytes m a bs x = m x"
  by (auto simp: wr_bytes_def)

lemma fill_bytes_in: "a \<le> x \<Longrightarrow> x < a + n \<Longrightarrow> fill_bytes m a n b x = b"
  by (simp add: fill_bytes_def)

lemma fill_bytes_out: "x < a \<or> a + n \<le> x \<Longrightarrow> fill_bytes m a n b x = m x"
  by (auto simp: fill_bytes_def)

lemma fill_bytes_wr: "fill_bytes m a n b = wr_bytes m a (replicate n b)"
  by (rule ext) (auto simp: fill_bytes_def wr_bytes_def)

lemma rd_bytes_cong:
  "(\<And>x. a \<le> x \<Longrightarrow> x < a + n \<Longrightarrow> m x = m' x) \<Longrightarrow> rd_bytes m a n = rd_bytes m' a n"
  by (simp add: rd_bytes_def)

lemma rd_wr_same [mem_simps]:
  "n = length bs \<Longrightarrow> rd_bytes (wr_bytes m a bs) a n = bs"
  by (rule nth_equalityI) (simp_all add: wr_bytes_in)

lemma rd_wr_disjoint [mem_simps]:
  "a + length bs \<le> b \<or> b + n \<le> a \<Longrightarrow> rd_bytes (wr_bytes m a bs) b n = rd_bytes m b n"
  by (rule rd_bytes_cong) (auto simp: wr_bytes_def)

lemma rd_fill_in [mem_simps]:
  "a \<le> b \<Longrightarrow> b + k \<le> a + n \<Longrightarrow> rd_bytes (fill_bytes m a n v) b k = replicate k v"
  by (rule nth_equalityI) (auto simp: fill_bytes_def)

lemma rd_fill_disjoint [mem_simps]:
  "a + n \<le> b \<or> b + k \<le> a \<Longrightarrow> rd_bytes (fill_bytes m a n v) b k = rd_bytes m b k"
  by (rule rd_bytes_cong) (auto simp: fill_bytes_def)

lemma wr_bytes_rd [mem_simps]: "wr_bytes m a (rd_bytes m a n) = m"
  by (rule ext) (auto simp: wr_bytes_def)

lemma wr_wr_same [mem_simps]:
  "length bs = length cs \<Longrightarrow> wr_bytes (wr_bytes m a bs) a cs = wr_bytes m a cs"
  by (rule ext) (auto simp: wr_bytes_def)

text \<open>Typed accesses.\<close>

definition ld16 :: "memory \<Rightarrow> nat \<Rightarrow> u16" where
  "ld16 m a = of_nat (le_val (rd_bytes m a 2))"

definition ld32 :: "memory \<Rightarrow> nat \<Rightarrow> u32" where
  "ld32 m a = of_nat (le_val (rd_bytes m a 4))"

definition ld64 :: "memory \<Rightarrow> nat \<Rightarrow> u64" where
  "ld64 m a = of_nat (le_val (rd_bytes m a 8))"

definition st16 :: "memory \<Rightarrow> nat \<Rightarrow> u16 \<Rightarrow> memory" where
  "st16 m a v = wr_bytes m a (le_bytes 2 (unat v))"

definition st32 :: "memory \<Rightarrow> nat \<Rightarrow> u32 \<Rightarrow> memory" where
  "st32 m a v = wr_bytes m a (le_bytes 4 (unat v))"

definition st64 :: "memory \<Rightarrow> nat \<Rightarrow> u64 \<Rightarrow> memory" where
  "st64 m a v = wr_bytes m a (le_bytes 8 (unat v))"

lemmas ld_defs = ld16_def ld32_def ld64_def
lemmas st_defs = st16_def st32_def st64_def

lemma ld_st_same [simp, mem_simps]:
  "ld16 (st16 m a h) a = h" "ld32 (st32 m a w) a = w" "ld64 (st64 m a d) a = d"
  using unsigned_less [of h, where ?'a = nat] unsigned_less [of w, where ?'a = nat]
    unsigned_less [of d, where ?'a = nat]
  by (simp_all add: ld_defs st_defs rd_wr_same le_val_le_bytes)

lemma ld64_st64_disjoint [mem_simps]:
  "a + 8 \<le> b \<or> b + 8 \<le> a \<Longrightarrow> ld64 (st64 m a v) b = ld64 m b"
  by (simp add: ld64_def st64_def rd_wr_disjoint)

lemma ld64_fill_zero [mem_simps]:
  "a \<le> b \<Longrightarrow> b + 8 \<le> a + n \<Longrightarrow> ld64 (fill_bytes m a n 0) b = 0"
  by (simp add: ld64_def rd_fill_in)

lemma ld64_cong:
  "(\<And>x. a \<le> x \<Longrightarrow> x < a + 8 \<Longrightarrow> m x = m' x) \<Longrightarrow> ld64 m a = ld64 m' a"
  by (simp add: ld64_def cong: rd_bytes_cong)

lemma st64_out: "x < a \<or> a + 8 \<le> x \<Longrightarrow> st64 m a v x = m x"
  by (simp add: st64_def wr_bytes_out)

lemma st_out:
  "x < a \<or> a + 2 \<le> x \<Longrightarrow> st16 m a h x = m x" "x < a \<or> a + 4 \<le> x \<Longrightarrow> st32 m a w x = m x"
  by (simp_all add: st_defs wr_bytes_out)

lemma ld_st_disjoint [mem_simps]:
  "a + 2 \<le> b \<or> b + 2 \<le> a \<Longrightarrow> ld16 (st16 m a h) b = ld16 m b"
  "a + 4 \<le> b \<or> b + 2 \<le> a \<Longrightarrow> ld16 (st32 m a w) b = ld16 m b"
  "a + 8 \<le> b \<or> b + 2 \<le> a \<Longrightarrow> ld16 (st64 m a d) b = ld16 m b"
  "a + 2 \<le> b \<or> b + 4 \<le> a \<Longrightarrow> ld32 (st16 m a h) b = ld32 m b"
  "a + 4 \<le> b \<or> b + 4 \<le> a \<Longrightarrow> ld32 (st32 m a w) b = ld32 m b"
  "a + 8 \<le> b \<or> b + 4 \<le> a \<Longrightarrow> ld32 (st64 m a d) b = ld32 m b"
  "a + 2 \<le> b \<or> b + 8 \<le> a \<Longrightarrow> ld64 (st16 m a h) b = ld64 m b"
  "a + 4 \<le> b \<or> b + 8 \<le> a \<Longrightarrow> ld64 (st32 m a w) b = ld64 m b"
  by (simp_all add: ld_defs st_defs rd_wr_disjoint)

lemma ld_wr_disjoint [mem_simps]:
  "a + length bs \<le> b \<or> b + 2 \<le> a \<Longrightarrow> ld16 (wr_bytes m a bs) b = ld16 m b"
  "a + length bs \<le> b \<or> b + 4 \<le> a \<Longrightarrow> ld32 (wr_bytes m a bs) b = ld32 m b"
  "a + length bs \<le> b \<or> b + 8 \<le> a \<Longrightarrow> ld64 (wr_bytes m a bs) b = ld64 m b"
  by (simp_all add: ld_defs rd_wr_disjoint)

text \<open>Memories that agree on a range agree on every access inside it.\<close>

definition agree :: "memory \<Rightarrow> memory \<Rightarrow> nat \<Rightarrow> nat \<Rightarrow> bool" where
  "agree m m' a n \<longleftrightarrow> (\<forall>x. a \<le> x \<and> x < a + n \<longrightarrow> m x = m' x)"

lemma agreeI: "(\<And>x. a \<le> x \<Longrightarrow> x < a + n \<Longrightarrow> m x = m' x) \<Longrightarrow> agree m m' a n"
  by (simp add: agree_def)

lemma agree_rd: "agree m m' a n \<Longrightarrow> a \<le> b \<Longrightarrow> b + k \<le> a + n \<Longrightarrow> rd_bytes m b k = rd_bytes m' b k"
  by (rule rd_bytes_cong) (auto simp: agree_def)

lemma agree_ld:
  "agree m m' a n \<Longrightarrow> a \<le> b \<Longrightarrow> b + 2 \<le> a + n \<Longrightarrow> ld16 m b = ld16 m' b"
  "agree m m' a n \<Longrightarrow> a \<le> b \<Longrightarrow> b + 4 \<le> a + n \<Longrightarrow> ld32 m b = ld32 m' b"
  "agree m m' a n \<Longrightarrow> a \<le> b \<Longrightarrow> b + 8 \<le> a + n \<Longrightarrow> ld64 m b = ld64 m' b"
  using agree_rd [of m m' a n b] by (simp_all add: ld_defs)

text \<open>Fields of a \<open>repr(C)\<close> structure inside a byte buffer.\<close>

definition le_u16 :: "u8 list \<Rightarrow> nat \<Rightarrow> u16" where
  "le_u16 bs off = of_nat (le_val (take 2 (drop off bs)))"

definition le_u32 :: "u8 list \<Rightarrow> nat \<Rightarrow> u32" where
  "le_u32 bs off = of_nat (le_val (take 4 (drop off bs)))"

definition le_u64 :: "u8 list \<Rightarrow> nat \<Rightarrow> u64" where
  "le_u64 bs off = of_nat (le_val (take 8 (drop off bs)))"

lemma le_word_append [simp]:
  "off + 2 \<le> length xs \<Longrightarrow> le_u16 (xs @ ys) off = le_u16 xs off"
  "off + 4 \<le> length xs \<Longrightarrow> le_u32 (xs @ ys) off = le_u32 xs off"
  "off + 8 \<le> length xs \<Longrightarrow> le_u64 (xs @ ys) off = le_u64 xs off"
  by (simp_all add: le_u16_def le_u32_def le_u64_def)

lemma le_word_skip:
  "length xs \<le> off \<Longrightarrow> le_u16 (xs @ ys) off = le_u16 ys (off - length xs)"
  "length xs \<le> off \<Longrightarrow> le_u32 (xs @ ys) off = le_u32 ys (off - length xs)"
  "length xs \<le> off \<Longrightarrow> le_u64 (xs @ ys) off = le_u64 ys (off - length xs)"
  by (simp_all add: le_u16_def le_u32_def le_u64_def)

lemma le_word_Cons:
  "0 < off \<Longrightarrow> le_u16 (x # ys) off = le_u16 ys (off - 1)"
  "0 < off \<Longrightarrow> le_u32 (x # ys) off = le_u32 ys (off - 1)"
  "0 < off \<Longrightarrow> le_u64 (x # ys) off = le_u64 ys (off - 1)"
  by (simp_all add: le_u16_def le_u32_def le_u64_def drop_Cons')

lemma le_word_bytes [simp]:
  "le_u16 (le_bytes 2 (unat h)) 0 = h" "le_u32 (le_bytes 4 (unat w)) 0 = w"
  "le_u64 (le_bytes 8 (unat d)) 0 = d"
  using unsigned_less [of h, where ?'a = nat] unsigned_less [of w, where ?'a = nat]
    unsigned_less [of d, where ?'a = nat]
  by (simp_all add: le_u16_def le_u32_def le_u64_def le_val_le_bytes)

text \<open>Clearing the low bits of an address rounds it down.\<close>

lemma unat_and_not_mask: "unat (a AND NOT (mask n) :: u64) = unat a div 2 ^ n * 2 ^ n"
proof -
  have "unat a div 2 ^ n * 2 ^ n = push_bit n (drop_bit n (unat a))"
    by (simp add: push_bit_eq_mult drop_bit_eq_div)
  moreover have "unat (a AND NOT (mask n)) = push_bit n (drop_bit n (unat a))"
    by (rule bit_eqI) (auto simp: bit_simps dest: bit_imp_le_length)
  ultimately show ?thesis by simp
qed

end
