(* ===== verification/Linker.thy ===== *)
theory Linker
  imports Prelude
begin

text \<open>
  The linker's symbols (\<open>src/linker/mod.rs\<close>, \<open>src/lds/virt.lds\<close>).

  The kernel reads the addresses of symbols that the linker places. Their values are fixed
  when the kernel is linked, so they are a parameter of the model: a record with one field
  per accessor function of \<open>linker/mod.rs\<close>. \<open>lds_ok\<close> is what the linker script promises
  about them: the order of the sections, the page alignment of \<open>.rodata\<close> and \<open>.data\<close>,
  and where the stack, the heap and the end of RAM lie.
\<close>

record linker =
  text_start :: nat
  text_end :: nat
  rodata_start :: nat
  rodata_end :: nat
  data_start :: nat
  data_end :: nat
  bss_start :: nat
  bss_end :: nat
  stack_start :: nat
  stack_end :: nat
  heap_start :: nat
  heap_size :: nat
  memory_end :: nat

definition ram_origin :: nat where
  "ram_origin = 0x80000000"

definition ram_length :: nat where
  "ram_length = 128 * 1024 * 1024"

definition lds_ok :: "linker \<Rightarrow> bool" where
  "lds_ok L \<longleftrightarrow>
     ram_origin \<le> text_start L \<and> text_start L \<le> text_end L \<and>
     text_end L \<le> rodata_start L \<and> rodata_start L mod 4096 = 0 \<and>
     rodata_start L \<le> rodata_end L \<and>
     rodata_end L \<le> data_start L \<and> data_start L mod 4096 = 0 \<and>
     data_start L \<le> data_end L \<and>
     data_end L \<le> bss_start L \<and> bss_start L \<le> bss_end L \<and>
     stack_start L = bss_end L \<and> stack_end L = stack_start L + 0x80000 \<and>
     memory_end L = ram_origin + ram_length \<and>
     heap_start L = stack_end L \<and>
     heap_start L \<le> memory_end L \<and> heap_size L = memory_end L - heap_start L"

text \<open>A linked kernel with small sections, used where a concrete layout is needed.\<close>

definition demo_layout :: linker where
  "demo_layout =
     \<lparr>text_start = 0x80000000, text_end = 0x80012345,
      rodata_start = 0x80013000, rodata_end = 0x80015678,
      data_start = 0x80016000, data_end = 0x80016100,
      bss_start = 0x80016100, bss_end = 0x80019000,
      stack_start = 0x80019000, stack_end = 0x80099000,
      heap_start = 0x80099000, heap_size = 0x88000000 - 0x80099000,
      memory_end = 0x88000000\<rparr>"

lemma demo_layout_ok: "lds_ok demo_layout"
  by (simp add: lds_ok_def demo_layout_def ram_origin_def ram_length_def)

lemma lds_ok_heap:
  assumes "lds_ok L"
  shows "ram_origin + 0x80000 \<le> heap_start L"
    and "heap_start L + heap_size L = memory_end L"
    and "memory_end L = 0x88000000"
    and "heap_size L < 0x8000000"
  using assms by (auto simp: lds_ok_def ram_origin_def ram_length_def)

end
