(* ===== verification/PageFrame.thy ===== *)
theory PageFrame
  imports Linker
begin

text \<open>
  The first-fit page-frame allocator (\<open>src/mm/alloc/page_frame.rs\<close>).

  State: \<open>kmem\<close>, the physical memory as bytes and the static \<open>ALLOC_START\<close>. The
  descriptor table is not a field of its own: as in the code, it is the first
  \<open>heap_size / PAGE_SIZE\<close> bytes of the heap, read and written through \<open>descriptors\<close>
  and \<open>set_descriptors\<close>. Operations: \<open>init\<close>, \<open>allocate\<close>, \<open>zallocate\<close>,
  \<open>deallocate\<close>. The state is an extensible record, so that the components that own more
  state call the same operations.

  The specification the operations refine is the set \<open>held\<close> of runs that are handed out,
  as (address, pages) pairs; \<open>frames_inv\<close> is the invariant of the table. The contract the
  clients use is the locale \<open>frame_allocator\<close>, interpreted here on these operations.
\<close>

section \<open>Page descriptors\<close>

definition PAGE_ORDER :: nat where "PAGE_ORDER = 12"

definition PAGE_SIZE :: nat where "PAGE_SIZE = 2 ^ PAGE_ORDER"

lemma PAGE_SIZE_eq [simp]: "PAGE_SIZE = 4096"
  by (simp add: PAGE_SIZE_def PAGE_ORDER_def)

definition TAKEN :: u8 where "TAKEN = push_bit 0 1"

definition LAST :: u8 where "LAST = push_bit 1 1"

definition is_taken :: "u8 \<Rightarrow> bool" where "is_taken d \<longleftrightarrow> d AND TAKEN \<noteq> 0"

definition is_last :: "u8 \<Rightarrow> bool" where "is_last d \<longleftrightarrow> d AND LAST \<noteq> 0"

definition clear :: "u8 \<Rightarrow> u8" where "clear d = 0"

definition mark_taken :: "u8 \<Rightarrow> u8" where "mark_taken d = d OR TAKEN"

definition mark_last :: "u8 \<Rightarrow> u8" where "mark_last d = d OR LAST"

lemmas desc_defs = TAKEN_def LAST_def is_taken_def is_last_def clear_def mark_taken_def mark_last_def

text \<open>The three values a descriptor takes: free, inside a run, last of a run.\<close>

lemma desc_simps [simp]:
  "\<not> is_taken 0" "is_taken 1" "is_taken 3"
  "\<not> is_last 0" "\<not> is_last 1" "is_last 3"
  "clear d = 0" "mark_taken 0 = 1" "mark_last 1 = 3"
  by (simp_all add: desc_defs)

lemma map_clear: "map clear ds = replicate (length ds) 0"
  by (induction ds) auto

section \<open>State and operations\<close>

record kmem =
  mem :: memory
  ALLOC_START :: nat

abbreviation npages :: "linker \<Rightarrow> nat" where
  "npages L \<equiv> heap_size L div PAGE_SIZE"

abbreviation heap_end :: "linker \<Rightarrow> nat" where
  "heap_end L \<equiv> heap_start L + heap_size L"

definition descriptors :: "linker \<Rightarrow> 'z kmem_scheme \<Rightarrow> u8 list" where
  "descriptors L s = rd_bytes (mem s) (heap_start L) (heap_size L div PAGE_SIZE)"

definition set_descriptors :: "linker \<Rightarrow> u8 list \<Rightarrow> 'z kmem_scheme \<Rightarrow> 'z kmem_scheme" where
  "set_descriptors L ds s = s\<lparr>mem := wr_bytes (mem s) (heap_start L) ds\<rparr>"

definition init :: "linker \<Rightarrow> 'z kmem_scheme \<Rightarrow> 'z kmem_scheme res" where
  "init L s =
     (let table = descriptors L s;
          s1 = set_descriptors L (map clear table) s
      in bind_res (usize_add (heap_start L) (length table)) (\<lambda>a.
         bind_res (usize_next_multiple_of a PAGE_SIZE) (\<lambda>start.
         Inr (s1\<lparr>ALLOC_START := start\<rparr>))))"

text \<open>\<open>NonNull::new\<close>\<close>

definition nonnull :: "nat \<Rightarrow> nat option" where
  "nonnull p = (if p = 0 then None else Some p)"

text \<open>The marking of \<open>table[start_idx..start_idx + pages]\<close>.\<close>

definition mark_run :: "u8 list \<Rightarrow> nat \<Rightarrow> nat \<Rightarrow> u8 list" where
  "mark_run table start_idx pages =
     (let marked = take start_idx table
                   @ map mark_taken (take pages (drop start_idx table))
                   @ drop (start_idx + pages) table;
          l = start_idx + (pages - 1)
      in marked[l := mark_last (marked ! l)])"

definition allocate :: "linker \<Rightarrow> nat \<Rightarrow> 'z kmem_scheme \<Rightarrow> (nat option \<times> 'z kmem_scheme) res"
where
  "allocate L pages s =
     bind_res (assert_res (0 < pages)) (\<lambda>_.
     let table = descriptors L s in
     case position (list_all (\<lambda>p. \<not> is_taken p)) (windows pages table) of
       None \<Rightarrow> Inr (None, s)
     | Some start_idx \<Rightarrow>
         let s1 = set_descriptors L (mark_run table start_idx pages) s in
         bind_res (usize_mul start_idx PAGE_SIZE) (\<lambda>off.
         bind_res (usize_add (ALLOC_START s1) off) (\<lambda>ptr.
         Inr (nonnull ptr, s1))))"

definition zallocate :: "linker \<Rightarrow> nat \<Rightarrow> 'z kmem_scheme \<Rightarrow> (nat option \<times> 'z kmem_scheme) res"
where
  "zallocate L pages s =
     bind_res (allocate L pages s) (\<lambda>(r, s1).
     case r of
       None \<Rightarrow> Inr (None, s1)
     | Some p \<Rightarrow>
         bind_res (usize_mul PAGE_SIZE pages) (\<lambda>bytes.
         let words = bytes div 8
         in Inr (Some p, s1\<lparr>mem := fill_bytes (mem s1) p (words * 8) 0\<rparr>)))"

text \<open>The \<open>while\<close> loop of \<open>deallocate\<close>, its final assertion and the last \<open>clear\<close>.\<close>

function dealloc_run :: "u8 list \<Rightarrow> nat \<Rightarrow> u8 list res" where
  "dealloc_run table i =
     (if length table \<le> i then Inl IndexOutOfBounds
      else if is_taken (table ! i) \<and> \<not> is_last (table ! i)
           then dealloc_run (table[i := clear (table ! i)]) (i + 1)
      else if is_taken (table ! i) \<and> is_last (table ! i)
           then Inr (table[i := clear (table ! i)])
      else Inl AssertFailed)"
  by pat_completeness auto
termination
  by (relation "measure (\<lambda>(table, i). length table - i)") auto

declare dealloc_run.simps [simp del]

definition deallocate :: "linker \<Rightarrow> nat \<Rightarrow> 'z kmem_scheme \<Rightarrow> 'z kmem_scheme res" where
  "deallocate L addr s =
     (let start = ALLOC_START s in
      bind_res (usize_add (heap_start L) (heap_size L)) (\<lambda>heap_end.
      bind_res (assert_res (start \<le> addr \<and> addr < heap_end)) (\<lambda>_.
      bind_res (dealloc_run (descriptors L s) ((addr - start) div PAGE_SIZE)) (\<lambda>table.
      Inr (set_descriptors L table s)))))"

section \<open>Runs of the descriptor table\<close>

definition table_wf :: "u8 list \<Rightarrow> bool" where
  "table_wf ds \<longleftrightarrow>
     (\<forall>j < length ds. ds ! j = 0 \<or> ds ! j = 1 \<or> ds ! j = 3) \<and>
     (\<forall>j < length ds. ds ! j = 1 \<longrightarrow> Suc j < length ds \<and> ds ! Suc j \<noteq> 0)"

definition run_at :: "u8 list \<Rightarrow> nat \<Rightarrow> nat \<Rightarrow> bool" where
  "run_at ds i n \<longleftrightarrow>
     0 < n \<and> i + n \<le> length ds \<and>
     (\<forall>j. i \<le> j \<and> j < i + n - 1 \<longrightarrow> ds ! j = 1) \<and> ds ! (i + n - 1) = 3 \<and>
     (i = 0 \<or> ds ! (i - 1) \<noteq> 1)"

definition window_free :: "u8 list \<Rightarrow> nat \<Rightarrow> nat \<Rightarrow> bool" where
  "window_free ds i n \<longleftrightarrow> i + n \<le> length ds \<and> (\<forall>k < n. \<not> is_taken (ds ! (i + k)))"

definition clear_run :: "u8 list \<Rightarrow> nat \<Rightarrow> nat \<Rightarrow> u8 list" where
  "clear_run ds i n = map (\<lambda>j. if i \<le> j \<and> j < i + n then 0 else ds ! j) [0..<length ds]"

definition free_count :: "u8 list \<Rightarrow> nat" where
  "free_count ds = length (filter (\<lambda>d. \<not> is_taken d) ds)"

lemma window_free_zero:
  "table_wf ds \<Longrightarrow> window_free ds i n \<Longrightarrow> i \<le> j \<Longrightarrow> j < i + n \<Longrightarrow> ds ! j = 0"
proof -
  assume a: "table_wf ds" "window_free ds i n" "i \<le> j" "j < i + n"
  then have "\<not> is_taken (ds ! j)"
    by (metis add_diff_inverse_nat less_diff_conv2 add.commute not_le window_free_def)
  moreover have "j < length ds" using a by (auto simp: window_free_def)
  ultimately show "ds ! j = 0" using a(1) by (auto simp: table_wf_def)
qed

lemma position_first_fit:
  assumes "0 < n"
  shows "position (list_all (\<lambda>p. \<not> is_taken p)) (windows n ds) = Some i \<longleftrightarrow>
           window_free ds i n \<and> (\<forall>j < i. \<not> window_free ds j n)"
    and "position (list_all (\<lambda>p. \<not> is_taken p)) (windows n ds) = None \<longleftrightarrow>
           (\<forall>i. \<not> window_free ds i n)"
proof -
  have w: "list_all (\<lambda>p. \<not> is_taken p) (windows n ds ! j) \<longleftrightarrow> window_free ds j n"
    if "j < length ds + 1 - n" for j
    using that by (auto simp: nth_windows list_all_window window_free_def)
  have out: "\<not> window_free ds j n" if "\<not> j < length ds + 1 - n" for j
    using that by (auto simp: window_free_def)
  show "position (list_all (\<lambda>p. \<not> is_taken p)) (windows n ds) = Some i \<longleftrightarrow>
           window_free ds i n \<and> (\<forall>j < i. \<not> window_free ds j n)"
  proof (cases "i < length ds + 1 - n")
    case True
    then have "\<And>j. j < i \<Longrightarrow> j < length ds + 1 - n" by simp
    with True w show ?thesis by (auto simp: position_Some)
  next
    case False
    with out show ?thesis by (auto simp: position_Some)
  qed
  show "position (list_all (\<lambda>p. \<not> is_taken p)) (windows n ds) = None \<longleftrightarrow>
           (\<forall>i. \<not> window_free ds i n)"
    using w out by (auto simp: position_None set_conv_nth Ball_def)
qed

lemma length_mark_run [simp]: "i + n \<le> length ds \<Longrightarrow> length (mark_run ds i n) = length ds"
  by (simp add: mark_run_def Let_def)

lemma nth_mark_run_raw:
  assumes "0 < n" "i + n \<le> length ds" "j < length ds"
  shows "mark_run ds i n ! j =
           (if j = i + n - 1 then mark_last (mark_taken (ds ! j))
            else if i \<le> j \<and> j < i + n then mark_taken (ds ! j) else ds ! j)"
proof -
  let ?m = "take i ds @ map mark_taken (take n (drop i ds)) @ drop (i + n) ds"
  have m: "?m ! k = (if i \<le> k \<and> k < i + n then mark_taken (ds ! k) else ds ! k)"
    if "k < length ds" for k
    using that assms by (auto simp: nth_append min_def)
  have l: "i + (n - 1) = i + n - 1" "i + n - 1 < length ds" using assms by auto
  show ?thesis
    using assms l m [OF assms(3)] m [OF l(2)]
    by (auto simp: mark_run_def Let_def nth_list_update)
qed

lemma nth_mark_run:
  assumes "table_wf ds" "window_free ds i n" "0 < n" "j < length ds"
  shows "mark_run ds i n ! j =
           (if j = i + n - 1 then 3 else if i \<le> j \<and> j < i + n then 1 else ds ! j)"
  using assms window_free_zero [OF assms(1,2), of j]
  by (auto simp: nth_mark_run_raw window_free_def)

lemma length_clear_run [simp]: "length (clear_run ds i n) = length ds"
  by (simp add: clear_run_def)

lemma nth_clear_run [simp]:
  "j < length ds \<Longrightarrow> clear_run ds i n ! j = (if i \<le> j \<and> j < i + n then 0 else ds ! j)"
  by (simp add: clear_run_def)

text \<open>Marking a free window adds exactly one run.\<close>

lemma table_wf_before_free:
  "table_wf ds \<Longrightarrow> j < length ds \<Longrightarrow> ds ! j = 0 \<Longrightarrow> 0 < j \<Longrightarrow> ds ! (j - 1) \<noteq> 1"
  by (cases j) (auto simp: table_wf_def)

lemma table_wf_mark_run:
  assumes "table_wf ds" "window_free ds i n" "0 < n"
  shows "table_wf (mark_run ds i n)"
proof -
  have len: "i + n \<le> length ds" using assms(2) by (simp add: window_free_def)
  show ?thesis
    unfolding table_wf_def
  proof (intro conjI allI impI)
    fix j assume j: "j < length (mark_run ds i n)"
    show "mark_run ds i n ! j = 0 \<or> mark_run ds i n ! j = 1 \<or> mark_run ds i n ! j = 3"
      using j assms len by (auto simp: nth_mark_run table_wf_def)
    assume one: "mark_run ds i n ! j = 1"
    have "Suc j < length ds \<and> mark_run ds i n ! Suc j \<noteq> 0"
    proof (cases "i \<le> j \<and> j < i + n")
      case True
      with one j assms len have "j \<noteq> i + n - 1" by (auto simp: nth_mark_run)
      with True assms len show ?thesis by (auto simp: nth_mark_run split: if_splits)
    next
      case False
      with one j assms len have "ds ! j = 1" by (auto simp: nth_mark_run split: if_splits)
      with j assms len have "Suc j < length ds" "ds ! Suc j \<noteq> 0" by (auto simp: table_wf_def)
      with assms len show ?thesis by (auto simp: nth_mark_run split: if_splits)
    qed
    with len show "Suc j < length (mark_run ds i n)" "mark_run ds i n ! Suc j \<noteq> 0" by auto
  qed
qed

lemma run_at_unique_length:
  assumes "run_at ds i n" "run_at ds i k"
  shows "n = k"
proof -
  have False if "run_at ds i a" "run_at ds i b" "a < b" for a b
  proof -
    have "ds ! (i + a - 1) = 3" using that(1) by (simp add: run_at_def)
    moreover have "i \<le> i + a - 1 \<and> i + a - 1 < i + b - 1" using that by (auto simp: run_at_def)
    then have "ds ! (i + a - 1) = 1" using that(2) unfolding run_at_def by blast
    ultimately show False by simp
  qed
  with assms show ?thesis by (meson linorder_neqE_nat)
qed

lemma run_at_disjoint:
  assumes "run_at ds i n" "run_at ds j k"
  shows "i = j \<and> n = k \<or> i + n \<le> j \<or> j + k \<le> i"
proof -
  have sep: "a + x \<le> b" if "run_at ds a x" "run_at ds b y" "a < b" for a b x y
  proof (rule ccontr)
    assume "\<not> a + x \<le> b"
    with that(3) have "a \<le> b - 1 \<and> b - 1 < a + x - 1" by auto
    then have "ds ! (b - 1) = 1" using that(1) unfolding run_at_def by blast
    with that show False by (auto simp: run_at_def)
  qed
  show ?thesis
    using sep [OF assms] sep [OF assms(2,1)] run_at_unique_length [of ds i n k] assms
    by (cases i j rule: linorder_cases) auto
qed

lemma run_at_nonzero: "run_at ds i n \<Longrightarrow> i \<le> j \<Longrightarrow> j < i + n \<Longrightarrow> ds ! j \<noteq> 0"
  by (cases "j = i + n - 1") (auto simp: run_at_def)

lemma no_run_in_fresh: "\<not> run_at (replicate k 0) i n"
  by (auto simp: run_at_def)

lemma run_at_mark_run_old:
  assumes wf: "table_wf ds" "window_free ds i n" "0 < n" and r: "run_at ds j k"
  shows "run_at (mark_run ds i n) j k"
proof -
  have len: "i + n \<le> length ds" using wf(2) by (simp add: window_free_def)
  have out: "\<not> (i \<le> p \<and> p < i + n)" if "j \<le> p" "p < j + k" for p
    using run_at_nonzero [OF r that] window_free_zero [OF wf(1,2), of p] by auto
  have same: "mark_run ds i n ! p = ds ! p" if "j \<le> p" "p < j + k" for p
    using that r wf len out [OF that] by (auto simp: nth_mark_run run_at_def)
  have pred: "j = 0 \<or> mark_run ds i n ! (j - 1) \<noteq> 1"
    using r wf len out [of j] by (auto simp: nth_mark_run run_at_def split: if_splits)
  show ?thesis
    using r len pred same by (auto simp: run_at_def)
qed

lemma run_at_mark_run_new:
  assumes wf: "table_wf ds" "window_free ds i n" "0 < n"
  shows "run_at (mark_run ds i n) i n"
proof -
  have len: "i + n \<le> length ds" using wf(2) by (simp add: window_free_def)
  have "i = 0 \<or> ds ! (i - 1) \<noteq> 1"
    using table_wf_before_free [OF wf(1), of i] window_free_zero [OF wf(1,2), of i] wf(3) len
    by auto
  with wf len show ?thesis by (auto simp: run_at_def nth_mark_run)
qed

lemma run_at_mark_run_inv:
  assumes wf: "table_wf ds" "window_free ds i n" "0 < n"
    and r: "run_at (mark_run ds i n) j k"
  shows "j = i \<and> k = n \<or> run_at ds j k"
proof -
  have len: "i + n \<le> length ds" using wf(2) by (simp add: window_free_def)
  from run_at_disjoint [OF r run_at_mark_run_new [OF wf]]
  consider "j = i \<and> k = n" | "j + k \<le> i \<or> i + n \<le> j" by blast
  then show ?thesis
  proof cases
    case 2
    have same: "mark_run ds i n ! p = ds ! p" if "j \<le> p" "p < j + k" for p
      using that 2 r wf len by (auto simp: nth_mark_run run_at_def)
    have pred: "j = 0 \<or> ds ! (j - 1) \<noteq> 1"
    proof (cases "j = i + n")
      case True
      with wf len window_free_zero [OF wf(1,2), of "j - 1"] show ?thesis by auto
    next
      case False
      then have "\<not> (i \<le> j - 1 \<and> j - 1 < i + n) \<or> j = 0" using 2 r by (auto simp: run_at_def)
      with r wf len show ?thesis by (auto simp: run_at_def nth_mark_run split: if_splits)
    qed
    show ?thesis using r len pred same by (auto simp: run_at_def)
  qed simp
qed

lemma run_at_mark_run:
  assumes "table_wf ds" "window_free ds i n" "0 < n"
  shows "run_at (mark_run ds i n) j k \<longleftrightarrow> j = i \<and> k = n \<or> run_at ds j k"
  using assms run_at_mark_run_old run_at_mark_run_new run_at_mark_run_inv by blast

text \<open>Clearing a run is the inverse of marking it.\<close>

lemma window_free_clear_run:
  "i + n \<le> length ds \<Longrightarrow> window_free (clear_run ds i n) i n"
  by (auto simp: window_free_def)

lemma table_wf_clear_run:
  assumes "table_wf ds" "run_at ds i n"
  shows "table_wf (clear_run ds i n)"
  unfolding table_wf_def
proof (intro conjI allI impI)
  fix j assume j: "j < length (clear_run ds i n)"
  show "clear_run ds i n ! j = 0 \<or> clear_run ds i n ! j = 1 \<or> clear_run ds i n ! j = 3"
    using j assms(1) by (auto simp: table_wf_def)
  assume "clear_run ds i n ! j = 1"
  with j have out: "\<not> (i \<le> j \<and> j < i + n)" "ds ! j = 1" by (auto split: if_splits)
  with j assms(1) have next_ok: "Suc j < length ds" "ds ! Suc j \<noteq> 0" by (auto simp: table_wf_def)
  have "Suc j \<noteq> i" using out assms(2) by (auto simp: run_at_def)
  with out next_ok show "Suc j < length (clear_run ds i n)" "clear_run ds i n ! Suc j \<noteq> 0" by auto
qed

lemma mark_clear_run:
  assumes "table_wf ds" "run_at ds i n"
  shows "mark_run (clear_run ds i n) i n = ds"
proof -
  have r: "0 < n" "i + n \<le> length ds" "window_free (clear_run ds i n) i n"
    using assms(2) by (auto simp: run_at_def window_free_def)
  show ?thesis
  proof (rule nth_equalityI)
    show "length (mark_run (clear_run ds i n) i n) = length ds" using r by simp
    fix j assume "j < length (mark_run (clear_run ds i n) i n)"
    then have "j < length ds" using r by simp
    with r assms table_wf_clear_run [OF assms] show "mark_run (clear_run ds i n) i n ! j = ds ! j"
      by (auto simp: nth_mark_run run_at_def)
  qed
qed

lemma clear_mark_run:
  assumes "table_wf ds" "window_free ds i n" "0 < n"
  shows "clear_run (mark_run ds i n) i n = ds"
proof -
  have len: "i + n \<le> length ds" using assms(2) by (simp add: window_free_def)
  show ?thesis
    by (rule nth_equalityI) (use assms len in \<open>auto simp: nth_mark_run window_free_zero [OF assms(1,2)]\<close>)
qed

lemma run_at_clear_run:
  assumes "table_wf ds" "run_at ds i n"
  shows "run_at (clear_run ds i n) j k \<longleftrightarrow> run_at ds j k \<and> \<not> (j = i \<and> k = n)"
proof -
  have n: "0 < n" "i + n \<le> length ds" using assms(2) by (auto simp: run_at_def)
  have wf: "table_wf (clear_run ds i n)" "window_free (clear_run ds i n) i n"
    using table_wf_clear_run [OF assms] window_free_clear_run n by auto
  have "run_at ds j k \<longleftrightarrow> j = i \<and> k = n \<or> run_at (clear_run ds i n) j k"
    using run_at_mark_run [OF wf n(1), of j k] by (simp add: mark_clear_run [OF assms])
  moreover have "\<not> run_at (clear_run ds i n) i n"
    using n run_at_nonzero [of "clear_run ds i n" i n i] by auto
  ultimately show ?thesis by auto
qed

lemma dealloc_run_run_at:
  assumes "0 < n" "i + n \<le> length ds"
    "\<forall>j. i \<le> j \<and> j < i + n - 1 \<longrightarrow> ds ! j = 1" "ds ! (i + n - 1) = 3"
  shows "dealloc_run ds i = Inr (clear_run ds i n)"
  using assms
proof (induction n arbitrary: ds i)
  case 0
  then show ?case by simp
next
  case (Suc n)
  show ?case
  proof (cases "n = 0")
    case True
    with Suc.prems have "dealloc_run ds i = Inr (ds[i := 0])"
      by (simp add: dealloc_run.simps [of ds i])
    moreover have "ds[i := 0] = clear_run ds i (Suc n)"
      by (rule nth_equalityI) (use True in \<open>auto simp: nth_list_update\<close>)
    ultimately show ?thesis by simp
  next
    case False
    with Suc.prems have one: "ds ! i = 1" "i < length ds" by auto
    then have "dealloc_run ds i = dealloc_run (ds[i := 0]) (i + 1)"
      by (simp add: dealloc_run.simps [of ds i])
    also have "\<dots> = Inr (clear_run (ds[i := 0]) (i + 1) n)"
      by (rule Suc.IH) (use False Suc.prems in \<open>auto simp: nth_list_update\<close>)
    also have "clear_run (ds[i := 0]) (i + 1) n = clear_run ds i (Suc n)"
      by (rule nth_equalityI) (auto simp: nth_list_update)
    finally show ?thesis .
  qed
qed

lemma dealloc_run_free:
  "i < length ds \<Longrightarrow> ds ! i = 0 \<Longrightarrow> dealloc_run ds i = Inl AssertFailed"
  by (simp add: dealloc_run.simps [of ds i])

section \<open>The allocator's invariant and the runs it has handed out\<close>

definition frames_inv :: "linker \<Rightarrow> 'z kmem_scheme \<Rightarrow> bool" where
  "frames_inv L s \<longleftrightarrow>
     table_wf (descriptors L s) \<and>
     0 < ALLOC_START s \<and> ALLOC_START s mod PAGE_SIZE = 0 \<and>
     heap_start L + npages L \<le> ALLOC_START s \<and>
     ALLOC_START s + npages L * PAGE_SIZE \<le> 2 ^ 56 \<and> heap_end L < 2 ^ 64"

definition held :: "linker \<Rightarrow> 'z kmem_scheme \<Rightarrow> (nat \<times> nat) set" where
  "held L s = {(p, n). \<exists>i. p = ALLOC_START s + i * PAGE_SIZE \<and> run_at (descriptors L s) i n}"

definition desc_region :: "linker \<Rightarrow> nat set" where
  "desc_region L = {heap_start L ..< heap_start L + npages L}"

lemma length_descriptors [simp]: "length (descriptors L s) = npages L"
  by (simp add: descriptors_def)

lemma descriptors_set_descriptors [simp]:
  "length ds = npages L \<Longrightarrow> descriptors L (set_descriptors L ds s) = ds"
  by (simp add: descriptors_def set_descriptors_def rd_wr_same)

lemma set_descriptors_sel [simp]:
  "ALLOC_START (set_descriptors L ds s) = ALLOC_START s"
  "kmem.more (set_descriptors L ds s) = kmem.more s"
  by (simp_all add: set_descriptors_def)

lemma mem_set_descriptors_out:
  "length ds = npages L \<Longrightarrow> a \<notin> desc_region L \<Longrightarrow> mem (set_descriptors L ds s) a = mem s a"
  by (auto simp: set_descriptors_def desc_region_def intro: wr_bytes_out)

lemma set_set_descriptors [simp]:
  "length ds = npages L \<Longrightarrow> length ds' = npages L \<Longrightarrow>
   set_descriptors L ds (set_descriptors L ds' s) = set_descriptors L ds s"
  by (simp add: set_descriptors_def wr_wr_same)

lemma set_descriptors_self [simp]: "set_descriptors L (descriptors L s) s = s"
  by (simp add: set_descriptors_def descriptors_def wr_bytes_rd)

text \<open>Writes that stay off the descriptor table do not concern the allocator.\<close>

lemma descriptors_frame:
  assumes "\<And>a. a \<in> desc_region L \<Longrightarrow> mem s' a = mem s a"
  shows "descriptors L s' = descriptors L s"
  using assms unfolding descriptors_def desc_region_def by (intro rd_bytes_cong) auto

lemma frames_frame:
  assumes "\<And>a. a \<in> desc_region L \<Longrightarrow> mem s' a = mem s a" "ALLOC_START s' = ALLOC_START s"
  shows "frames_inv L s' = frames_inv L s" and "held L s' = held L s"
  using assms(2) descriptors_frame [OF assms(1)] by (simp_all add: frames_inv_def held_def)

lemma heldI: "run_at (descriptors L s) i n \<Longrightarrow> (ALLOC_START s + i * PAGE_SIZE, n) \<in> held L s"
  by (auto simp: held_def)

lemma heldE:
  assumes "(p, n) \<in> held L s"
  obtains i where "p = ALLOC_START s + i * PAGE_SIZE" "run_at (descriptors L s) i n"
  using assms by (auto simp: held_def)

lemma held_disjoint:
  assumes "(p, n) \<in> held L s" "(q, k) \<in> held L s"
  shows "p = q \<and> n = k \<or> p + n * PAGE_SIZE \<le> q \<or> q + k * PAGE_SIZE \<le> p"
proof -
  obtain i where i: "p = ALLOC_START s + i * PAGE_SIZE" "run_at (descriptors L s) i n"
    using assms(1) by (rule heldE)
  obtain j where j: "q = ALLOC_START s + j * PAGE_SIZE" "run_at (descriptors L s) j k"
    using assms(2) by (rule heldE)
  from run_at_disjoint [OF i(2) j(2)] i(1) j(1) show ?thesis by auto
qed

lemma held_bounds:
  assumes "frames_inv L s" "(p, n) \<in> held L s"
  shows "0 < n" "p mod PAGE_SIZE = 0" "ALLOC_START s \<le> p"
    "p + n * PAGE_SIZE \<le> ALLOC_START s + npages L * PAGE_SIZE"
proof -
  obtain i where i: "p = ALLOC_START s + i * PAGE_SIZE" "run_at (descriptors L s) i n"
    using assms(2) by (rule heldE)
  then have "0 < n" "i + n \<le> npages L" by (auto simp: run_at_def)
  moreover have "p mod PAGE_SIZE = 0"
    using assms(1) i(1) by (auto simp: frames_inv_def mod_add_eq [symmetric])
  ultimately show "0 < n" "p mod PAGE_SIZE = 0" "ALLOC_START s \<le> p"
    "p + n * PAGE_SIZE \<le> ALLOC_START s + npages L * PAGE_SIZE"
    using i(1) by auto
qed

lemma held_off_table:
  assumes "frames_inv L s" "(p, n) \<in> held L s"
  shows "{p ..< p + n * PAGE_SIZE} \<inter> desc_region L = {}"
  using held_bounds(3) [OF assms] assms(1) by (auto simp: frames_inv_def desc_region_def)

lemma held_table_cases:
  assumes "frames_inv L s" "(p, n) \<in> held L s" "a \<in> desc_region L"
  shows "a < p \<or> p + n * PAGE_SIZE \<le> a"
  using held_off_table [OF assms(1,2)] assms(3) by (metis IntI atLeastLessThan_iff empty_iff not_le)

section \<open>Behaviour of the operations\<close>

lemma init_spec:
  assumes "0 < npages L" "heap_start L + 2 * heap_size L + PAGE_SIZE \<le> 2 ^ 56"
  shows "\<exists>s'. init L s = Inr s' \<and> frames_inv L s' \<and> held L s' = {} \<and>
           descriptors L s' = replicate (npages L) 0 \<and>
           ALLOC_START s' = next_multiple (heap_start L + npages L) PAGE_SIZE"
proof -
  let ?st = "next_multiple (heap_start L + npages L) PAGE_SIZE"
  let ?s = "(set_descriptors L (map clear (descriptors L s)) s)\<lparr>ALLOC_START := ?st\<rparr>"
  have st: "heap_start L + npages L \<le> ?st" "?st < heap_start L + npages L + PAGE_SIZE"
    "?st mod PAGE_SIZE = 0"
    using next_multiple_ge next_multiple_lt [of PAGE_SIZE] next_multiple_dvd [of PAGE_SIZE]
    by (auto simp: mod_eq_0_iff_dvd)
  have np: "npages L * PAGE_SIZE \<le> heap_size L" by simp
  have bound: "?st + npages L * PAGE_SIZE \<le> 2 ^ 56"
    using st(2) np assms(2) by simp
  have "heap_start L + npages L < 2 ^ 64" "?st < 2 ^ 64"
    using st(2) np assms(2) by simp_all
  then have eq: "init L s = Inr ?s"
    by (simp add: init_def usize_next_multiple_of_def Let_def)
  have ds: "descriptors L ?s = replicate (npages L) 0"
    using descriptors_frame [of L ?s "set_descriptors L (map clear (descriptors L s)) s"]
    by (simp add: map_clear)
  have "table_wf (replicate (npages L) 0)" by (simp add: table_wf_def)
  then have "frames_inv L ?s"
    using ds st bound assms by (simp add: frames_inv_def)
  moreover have "held L ?s = {}"
    unfolding held_def ds by (simp add: no_run_in_fresh)
  ultimately show ?thesis using eq ds by auto
qed

lemma alloc_address_ok:
  assumes "frames_inv L s" "window_free (descriptors L s) i n" "0 < n"
  shows "usize_mul i PAGE_SIZE = Inr (i * PAGE_SIZE)"
    "usize_add (ALLOC_START s) (i * PAGE_SIZE) = Inr (ALLOC_START s + i * PAGE_SIZE)"
proof -
  have "i + n \<le> npages L" using assms(2) by (simp add: window_free_def)
  then have "i * PAGE_SIZE \<le> npages L * PAGE_SIZE" using assms(3) by simp
  then have "ALLOC_START s + i * PAGE_SIZE \<le> 2 ^ 56"
    using assms(1) by (simp add: frames_inv_def)
  then show "usize_mul i PAGE_SIZE = Inr (i * PAGE_SIZE)"
    "usize_add (ALLOC_START s) (i * PAGE_SIZE) = Inr (ALLOC_START s + i * PAGE_SIZE)"
    by (simp_all add: usize_mul_def usize_add_def)
qed

lemma allocate_fits:
  assumes "frames_inv L s" "0 < n" "window_free (descriptors L s) i n"
    "\<forall>j < i. \<not> window_free (descriptors L s) j n"
  shows "allocate L n s =
           Inr (Some (ALLOC_START s + i * PAGE_SIZE),
                set_descriptors L (mark_run (descriptors L s) i n) s)"
proof -
  have "position (list_all (\<lambda>p. \<not> is_taken p)) (windows n (descriptors L s)) = Some i"
    using assms by (simp add: position_first_fit)
  with assms alloc_address_ok [OF assms(1,3,2)] show ?thesis
    by (simp add: allocate_def nonnull_def frames_inv_def Let_def)
qed

lemma allocate_full:
  assumes "0 < n" "\<forall>i. \<not> window_free (descriptors L s) i n"
  shows "allocate L n s = Inr (None, s)"
proof -
  have "position (list_all (\<lambda>p. \<not> is_taken p)) (windows n (descriptors L s)) = None"
    using assms by (simp add: position_first_fit)
  with assms(1) show ?thesis by (simp add: allocate_def)
qed

lemma allocate_cases:
  assumes "frames_inv L s" "0 < n"
  obtains (fits) i where "window_free (descriptors L s) i n"
      "\<forall>j < i. \<not> window_free (descriptors L s) j n"
      "allocate L n s = Inr (Some (ALLOC_START s + i * PAGE_SIZE),
                             set_descriptors L (mark_run (descriptors L s) i n) s)"
    | (full) "\<forall>i. \<not> window_free (descriptors L s) i n" "allocate L n s = Inr (None, s)"
proof (cases "\<exists>i. window_free (descriptors L s) i n")
  case True
  define i where "i = (LEAST i. window_free (descriptors L s) i n)"
  have "window_free (descriptors L s) i n" "\<forall>j < i. \<not> window_free (descriptors L s) j n"
    using True not_less_Least unfolding i_def by (auto intro: LeastI_ex)
  with fits allocate_fits [OF assms] show ?thesis by blast
next
  case False
  with full allocate_full [OF assms(2)] show ?thesis by blast
qed

text \<open>Allocation against the specification.\<close>

lemma held_mark:
  assumes "frames_inv L s" "window_free (descriptors L s) i n" "0 < n"
  shows "held L (set_descriptors L (mark_run (descriptors L s) i n) s) =
           insert (ALLOC_START s + i * PAGE_SIZE, n) (held L s)"
proof -
  have wf: "table_wf (descriptors L s)" using assms(1) by (simp add: frames_inv_def)
  have "length (mark_run (descriptors L s) i n) = npages L"
    using assms(2) by (simp add: window_free_def)
  then show ?thesis
    by (auto simp: held_def run_at_mark_run [OF wf assms(2,3)])
qed

lemma allocate_Some:
  assumes inv: "frames_inv L s" and al: "allocate L n s = Inr (Some p, s')"
  shows "frames_inv L s'" "held L s' = insert (p, n) (held L s)" "(p, n) \<notin> held L s" "0 < n"
    "ALLOC_START s' = ALLOC_START s" "kmem.more s' = kmem.more s"
    "\<And>a. a \<notin> desc_region L \<Longrightarrow> mem s' a = mem s a"
proof -
  show n: "0 < n" using al by (auto simp: allocate_def bind_res_Inr_iff)
  have wf: "table_wf (descriptors L s)" using inv by (simp add: frames_inv_def)
  obtain i where i: "window_free (descriptors L s) i n" "p = ALLOC_START s + i * PAGE_SIZE"
    "s' = set_descriptors L (mark_run (descriptors L s) i n) s"
    using allocate_cases [OF inv n] al by (metis Inr_inject Pair_inject option.distinct(1) option.inject)
  have len: "length (mark_run (descriptors L s) i n) = npages L"
    using i(1) by (simp add: window_free_def)
  show "frames_inv L s'"
    using inv len table_wf_mark_run [OF wf i(1) n] by (simp add: frames_inv_def i(3))
  show "held L s' = insert (p, n) (held L s)"
    using held_mark [OF inv i(1) n] by (simp add: i)
  show "(p, n) \<notin> held L s"
  proof
    assume "(p, n) \<in> held L s"
    then have "run_at (descriptors L s) i n" by (auto simp: held_def i(2))
    with n show False
      using run_at_nonzero [of "descriptors L s" i n i] window_free_zero [OF wf i(1), of i] by simp
  qed
  show "ALLOC_START s' = ALLOC_START s" "kmem.more s' = kmem.more s" by (simp_all add: i(3))
  show "mem s' a = mem s a" if "a \<notin> desc_region L" for a
    using mem_set_descriptors_out [OF len that] by (simp add: i(3))
qed

lemma allocate_None:
  assumes "frames_inv L s" "allocate L n s = Inr (None, s')"
  shows "s' = s" "\<forall>i. \<not> window_free (descriptors L s) i n"
proof -
  have n: "0 < n" using assms(2) by (auto simp: allocate_def bind_res_Inr_iff)
  show "s' = s" "\<forall>i. \<not> window_free (descriptors L s) i n"
    using allocate_cases [OF assms(1) n] assms(2)
    by (metis Inr_inject Pair_inject option.distinct(1))+
qed

lemma allocate_total:
  "frames_inv L s \<Longrightarrow> 0 < n \<Longrightarrow> \<exists>r s'. allocate L n s = Inr (r, s')"
  by (rule allocate_cases) auto

lemma held_fresh_disjoint:
  assumes "frames_inv L s" "allocate L n s = Inr (Some p, s')" "(q, k) \<in> held L s"
  shows "p + n * PAGE_SIZE \<le> q \<or> q + k * PAGE_SIZE \<le> p"
proof -
  have "(p, n) \<in> held L s'" "(q, k) \<in> held L s'" "(p, n) \<noteq> (q, k)"
    using allocate_Some(2,3) [OF assms(1,2)] assms(3) by auto
  with held_disjoint [of p n L s' q k] show ?thesis by auto
qed

text \<open>\<open>zallocate\<close> is \<open>allocate\<close> followed by zeroing the run.\<close>

lemma zallocate_Some_iff:
  assumes inv: "frames_inv L s"
  shows "zallocate L n s = Inr (Some p, s') \<longleftrightarrow>
           (\<exists>s1. allocate L n s = Inr (Some p, s1) \<and>
                 s' = s1\<lparr>mem := fill_bytes (mem s1) p (n * PAGE_SIZE) 0\<rparr>)"
proof -
  have words: "usize_mul PAGE_SIZE n = Inr (PAGE_SIZE * n)"
    if "allocate L n s = Inr (Some p, s1)" for s1
  proof -
    have "n * PAGE_SIZE \<le> ALLOC_START s1 + npages L * PAGE_SIZE"
      using held_bounds(4) [of L s1 p n] allocate_Some(1,2) [OF inv that] by auto
    also have "\<dots> \<le> 2 ^ 56" using allocate_Some(1) [OF inv that] by (simp add: frames_inv_def)
    finally have "PAGE_SIZE * n < 2 ^ 64" by simp
    then show ?thesis by simp
  qed
  have eq: "zallocate L n s = Inr (Some p, s1\<lparr>mem := fill_bytes (mem s1) p (n * PAGE_SIZE) 0\<rparr>)"
    if "allocate L n s = Inr (Some p, s1)" for s1
    using that words [OF that] by (simp add: zallocate_def mult.commute)
  have ex: "\<exists>s1. allocate L n s = Inr (Some p, s1)" if "zallocate L n s = Inr (Some p, s')"
    using that by (auto simp: zallocate_def bind_res_Inr_iff Let_def split: option.splits)
  show ?thesis using eq ex by (metis Inr_inject Pair_inject)
qed

lemma zallocate_Some:
  assumes inv: "frames_inv L s" and al: "zallocate L n s = Inr (Some p, s')"
  shows "frames_inv L s'" "held L s' = insert (p, n) (held L s)" "(p, n) \<notin> held L s" "0 < n"
    "ALLOC_START s' = ALLOC_START s" "kmem.more s' = kmem.more s"
    "\<And>a. p \<le> a \<Longrightarrow> a < p + n * PAGE_SIZE \<Longrightarrow> mem s' a = 0"
    "\<And>a. a \<notin> desc_region L \<Longrightarrow> a < p \<or> p + n * PAGE_SIZE \<le> a \<Longrightarrow> mem s' a = mem s a"
proof -
  obtain s1 where s1: "allocate L n s = Inr (Some p, s1)"
    "s' = s1\<lparr>mem := fill_bytes (mem s1) p (n * PAGE_SIZE) 0\<rparr>"
    using al zallocate_Some_iff [OF inv] by blast
  note a = allocate_Some [OF inv s1(1)]
  have same: "mem s' x = mem s1 x" if "x \<in> desc_region L" for x
    using held_table_cases [OF a(1) _ that, of p n] a(2) by (simp add: s1(2) fill_bytes_out)
  have st: "ALLOC_START s' = ALLOC_START s1" by (simp add: s1(2))
  show "frames_inv L s'" "held L s' = insert (p, n) (held L s)" "(p, n) \<notin> held L s" "0 < n"
    "ALLOC_START s' = ALLOC_START s" "kmem.more s' = kmem.more s"
    using a frames_frame [OF same st] by (simp_all add: s1(2))
  show "mem s' x = 0" if "p \<le> x" "x < p + n * PAGE_SIZE" for x
    using that by (simp add: s1(2) fill_bytes_in)
  show "mem s' x = mem s x" if "x \<notin> desc_region L" "x < p \<or> p + n * PAGE_SIZE \<le> x" for x
    using that a(7) [OF that(1)] by (simp add: s1(2) fill_bytes_out)
qed

lemma zallocate_None:
  assumes "frames_inv L s" "zallocate L n s = Inr (None, s')"
  shows "s' = s" "\<forall>i. \<not> window_free (descriptors L s) i n"
proof -
  have "allocate L n s = Inr (None, s')"
    using assms(2)
    by (auto simp: zallocate_def bind_res_Inr_iff Let_def split: option.splits prod.splits)
  from allocate_None [OF assms(1) this]
  show "s' = s" "\<forall>i. \<not> window_free (descriptors L s) i n" .
qed

lemma zallocate_total:
  assumes "frames_inv L s" "0 < n"
  shows "\<exists>r s'. zallocate L n s = Inr (r, s')"
proof -
  obtain r s1 where a: "allocate L n s = Inr (r, s1)" using allocate_total [OF assms] by blast
  show ?thesis
  proof (cases r)
    case None
    with a show ?thesis by (simp add: zallocate_def)
  next
    case (Some p)
    with a zallocate_Some_iff [OF assms(1)] show ?thesis by blast
  qed
qed

text \<open>Freeing a held run below the end of the heap.\<close>

lemma deallocate_held_eq:
  assumes inv: "frames_inv L s" and h: "run_at (descriptors L s) i n"
    and lim: "ALLOC_START s + i * PAGE_SIZE < heap_end L"
  shows "deallocate L (ALLOC_START s + i * PAGE_SIZE) s =
           Inr (set_descriptors L (clear_run (descriptors L s) i n) s)"
proof -
  have "dealloc_run (descriptors L s) i = Inr (clear_run (descriptors L s) i n)"
    using h by (intro dealloc_run_run_at) (auto simp: run_at_def)
  with inv lim show ?thesis
    by (simp add: deallocate_def frames_inv_def)
qed

lemma deallocate_bounds:
  assumes "frames_inv L s" "deallocate L p s = Inr s'"
  shows "p < heap_end L"
proof -
  have "heap_start L + heap_size L < 2 ^ 64" using assms(1) by (simp add: frames_inv_def)
  with assms(2) show ?thesis by (simp add: deallocate_def Let_def bind_assert_iff)
qed

lemma deallocate_held:
  assumes inv: "frames_inv L s" and h: "(p, n) \<in> held L s" and lim: "p < heap_end L"
  shows "\<exists>s'. deallocate L p s = Inr s' \<and> frames_inv L s' \<and> held L s' = held L s - {(p, n)} \<and>
           ALLOC_START s' = ALLOC_START s \<and> kmem.more s' = kmem.more s \<and>
           (\<forall>a. a \<notin> desc_region L \<longrightarrow> mem s' a = mem s a)"
proof -
  obtain i where i: "p = ALLOC_START s + i * PAGE_SIZE" "run_at (descriptors L s) i n"
    using h by (rule heldE)
  let ?ds = "clear_run (descriptors L s) i n"
  let ?s = "set_descriptors L ?ds s"
  have wf: "table_wf (descriptors L s)" using inv by (simp add: frames_inv_def)
  have "frames_inv L ?s"
    using inv table_wf_clear_run [OF wf i(2)] by (simp add: frames_inv_def)
  moreover have "held L ?s = held L s - {(p, n)}"
    by (auto simp: held_def run_at_clear_run [OF wf i(2)] i(1))
  ultimately show ?thesis
    using deallocate_held_eq [OF inv i(2)] lim mem_set_descriptors_out [of ?ds L _ s] by (auto simp: i(1))
qed

text \<open>Accounting: every allocation takes its pages from the free ones.\<close>

lemma free_count_card: "free_count ds = card {j. j < length ds \<and> \<not> is_taken (ds ! j)}"
  by (simp add: free_count_def length_filter_conv_card)

lemma free_count_mark_run:
  assumes "table_wf ds" "window_free ds i n" "0 < n"
  shows "free_count ds = free_count (mark_run ds i n) + n"
proof -
  have len: "i + n \<le> length ds" using assms(2) by (simp add: window_free_def)
  let ?F = "\<lambda>xs. {j. j < length xs \<and> \<not> is_taken (xs ! j)}"
  have "?F ds = ?F (mark_run ds i n) \<union> {i ..< i + n}"
    using assms len by (auto simp: nth_mark_run window_free_zero [OF assms(1,2)] split: if_splits)
  moreover have "?F (mark_run ds i n) \<inter> {i ..< i + n} = {}"
    using assms len by (auto simp: nth_mark_run split: if_splits)
  ultimately show ?thesis
    by (simp add: free_count_card card_Un_disjoint)
qed

lemma allocate_free_count:
  assumes "frames_inv L s" "allocate L n s = Inr (Some p, s')"
  shows "free_count (descriptors L s) = free_count (descriptors L s') + n"
proof -
  have n: "0 < n" using assms by (rule allocate_Some(4))
  obtain i where i: "window_free (descriptors L s) i n"
    "s' = set_descriptors L (mark_run (descriptors L s) i n) s"
    using allocate_cases [OF assms(1) n] assms(2)
    by (metis Inr_inject Pair_inject option.distinct(1))
  have "length (mark_run (descriptors L s) i n) = npages L"
    using i(1) by (simp add: window_free_def)
  with free_count_mark_run [OF _ i(1) n] assms(1) show ?thesis
    by (simp add: i(2) frames_inv_def)
qed

lemma zallocate_free_count:
  assumes inv: "frames_inv L s" and al: "zallocate L n s = Inr (Some p, s')"
  shows "free_count (descriptors L s) = free_count (descriptors L s') + n"
proof -
  obtain s1 where s1: "allocate L n s = Inr (Some p, s1)"
    "s' = s1\<lparr>mem := fill_bytes (mem s1) p (n * PAGE_SIZE) 0\<rparr>"
    using al zallocate_Some_iff [OF inv] by blast
  have "(p, n) \<in> held L s1" using allocate_Some(2) [OF inv s1(1)] by simp
  note off = held_table_cases [OF allocate_Some(1) [OF inv s1(1)] this]
  have "descriptors L s' = descriptors L s1"
    by (rule descriptors_frame) (use off in \<open>simp add: s1(2) fill_bytes_out\<close>)
  with allocate_free_count [OF inv s1(1)] show ?thesis by simp
qed

lemma allocate_page_succeeds:
  assumes "frames_inv L s" "0 < free_count (descriptors L s)"
  shows "\<exists>p s'. allocate L 1 s = Inr (Some p, s')"
proof -
  from assms(2) obtain j where "j < npages L" "\<not> is_taken (descriptors L s ! j)"
    by (auto simp: free_count_card card_gt_0_iff)
  then have "window_free (descriptors L s) j 1" by (simp add: window_free_def)
  then show ?thesis
    by (rule_tac allocate_cases [OF assms(1), of 1]) auto
qed

lemma zallocate_page_succeeds:
  assumes "frames_inv L s" "0 < free_count (descriptors L s)"
  shows "\<exists>p s'. zallocate L 1 s = Inr (Some p, s')"
  using allocate_page_succeeds [OF assms] zallocate_Some_iff [OF assms(1)] by blast

text \<open>
  Free pages that \<open>deallocate\<close> will take back: those below the end of the heap. First fit
  serves a single page from them as long as there is one.
\<close>

definition low_free :: "linker \<Rightarrow> 'z kmem_scheme \<Rightarrow> nat" where
  "low_free L s =
     card {j. j < npages L \<and> \<not> is_taken (descriptors L s ! j) \<and> ALLOC_START s + j * PAGE_SIZE < heap_end L}"

lemma low_freeI:
  assumes "j < npages L" "\<not> is_taken (descriptors L s ! j)" "ALLOC_START s + j * PAGE_SIZE < heap_end L"
  shows "0 < low_free L s"
proof -
  let ?P = "{j. j < npages L \<and> \<not> is_taken (descriptors L s ! j) \<and> ALLOC_START s + j * PAGE_SIZE < heap_end L}"
  have "j \<in> ?P" "finite ?P" using assms by simp_all
  then have "0 < card ?P" unfolding card_gt_0_iff by blast
  then show ?thesis by (simp only: low_free_def)
qed

lemma low_free_cong:
  "descriptors L s' = descriptors L s \<Longrightarrow> ALLOC_START s' = ALLOC_START s \<Longrightarrow> low_free L s' = low_free L s"
  by (simp add: low_free_def)

lemma low_page:
  assumes inv: "frames_inv L s" and low: "0 < low_free L s"
  obtains i where "allocate L 1 s = Inr (Some (ALLOC_START s + i * PAGE_SIZE),
                      set_descriptors L (mark_run (descriptors L s) i 1) s)"
    "window_free (descriptors L s) i 1" "ALLOC_START s + i * PAGE_SIZE < heap_end L"
proof -
  let ?P = "{j. j < npages L \<and> \<not> is_taken (descriptors L s ! j) \<and> ALLOC_START s + j * PAGE_SIZE < heap_end L}"
  obtain j where j: "j \<in> ?P" using low unfolding low_free_def by (auto simp: card_gt_0_iff)
  then have w: "window_free (descriptors L s) j 1" by (simp add: window_free_def)
  show ?thesis
  proof (rule allocate_cases [OF inv, of 1])
    fix i assume i: "window_free (descriptors L s) i 1" "\<forall>k < i. \<not> window_free (descriptors L s) k 1"
      and al: "allocate L 1 s = Inr (Some (ALLOC_START s + i * PAGE_SIZE),
                 set_descriptors L (mark_run (descriptors L s) i 1) s)"
    have "i \<le> j" using w i(2) not_le by blast
    then have "ALLOC_START s + i * PAGE_SIZE < heap_end L" using j by auto
    with that al i(1) show ?thesis by blast
  qed (use w in auto)
qed

lemma low_free_mark:
  assumes inv: "frames_inv L s" and w: "window_free (descriptors L s) i 1"
    and low: "ALLOC_START s + i * PAGE_SIZE < heap_end L"
    and s': "descriptors L s' = mark_run (descriptors L s) i 1" "ALLOC_START s' = ALLOC_START s"
  shows "Suc (low_free L s') = low_free L s"
proof -
  let ?P = "\<lambda>s. {j. j < npages L \<and> \<not> is_taken (descriptors L s ! j) \<and> ALLOC_START s + j * PAGE_SIZE < heap_end L}"
  have wf: "table_wf (descriptors L s)" using inv by (simp add: frames_inv_def)
  have i: "i < npages L" "\<not> is_taken (descriptors L s ! i)" using w by (auto simp: window_free_def)
  have nth: "mark_run (descriptors L s) i 1 ! j = (if j = i then 3 else descriptors L s ! j)" if "j < npages L" for j
    using nth_mark_run [OF wf w _ , of j] that by auto
  have "is_taken (descriptors L s' ! j) \<longleftrightarrow> j = i \<or> is_taken (descriptors L s ! j)" if "j < npages L" for j
    unfolding s' nth [OF that] by (simp add: is_taken_def TAKEN_def)
  then have "?P s' = ?P s - {i}" using s'(2) by auto
  moreover have "i \<in> ?P s" using i low by simp
  moreover have "finite (?P s)" by simp
  ultimately show ?thesis unfolding low_free_def using card_Suc_Diff1 [of "?P s" i] by (simp only:)
qed

section \<open>The contract of the allocator\<close>

text \<open>
  What the clients of the allocator rely on: the paging code, the scratch buffers of the
  filesystem, the requests of the block driver and the stacks. \<open>held\<close> are the runs in use,
  \<open>table\<close> the addresses of the allocator's own metadata, \<open>limit\<close> the address up to which
  \<open>free\<close> accepts a run.
\<close>

locale frame_allocator =
  fixes inv :: "'s \<Rightarrow> bool"
    and held :: "'s \<Rightarrow> (nat \<times> nat) set"
    and contents :: "'s \<Rightarrow> memory"
    and set_contents :: "memory \<Rightarrow> 's \<Rightarrow> 's"
    and alloc :: "nat \<Rightarrow> 's \<Rightarrow> (nat option \<times> 's) res"
    and free :: "nat \<Rightarrow> 's \<Rightarrow> 's res"
    and table :: "nat set"
    and limit :: nat
  assumes alloc_returns: "inv s \<Longrightarrow> 0 < n \<Longrightarrow> \<exists>r s'. alloc n s = Inr (r, s')"
    and alloc_fails: "inv s \<Longrightarrow> alloc n s = Inr (None, s') \<Longrightarrow> s' = s"
    and alloc_inv: "inv s \<Longrightarrow> alloc n s = Inr (Some p, s') \<Longrightarrow> inv s'"
    and alloc_held: "inv s \<Longrightarrow> alloc n s = Inr (Some p, s') \<Longrightarrow> held s' = insert (p, n) (held s)"
    and alloc_new: "inv s \<Longrightarrow> alloc n s = Inr (Some p, s') \<Longrightarrow> (p, n) \<notin> held s"
    and alloc_contents:
      "inv s \<Longrightarrow> alloc n s = Inr (Some p, s') \<Longrightarrow> a \<notin> table \<Longrightarrow> contents s' a = contents s a"
    and runs_disjoint:
      "inv s \<Longrightarrow> (p, n) \<in> held s \<Longrightarrow> (q, k) \<in> held s \<Longrightarrow>
       p = q \<and> n = k \<or> p + n * PAGE_SIZE \<le> q \<or> q + k * PAGE_SIZE \<le> p"
    and runs_off_table: "inv s \<Longrightarrow> (p, n) \<in> held s \<Longrightarrow> {p ..< p + n * PAGE_SIZE} \<inter> table = {}"
    and free_run:
      "inv s \<Longrightarrow> (p, n) \<in> held s \<Longrightarrow> p < limit \<Longrightarrow>
       \<exists>s'. free p s = Inr s' \<and> inv s' \<and> held s' = held s - {(p, n)} \<and>
            (\<forall>a. a \<notin> table \<longrightarrow> contents s' a = contents s a)"
    and contents_set: "contents (set_contents m s) = m"
    and set_contents_keeps:
      "inv s \<Longrightarrow> (\<And>a. a \<in> table \<Longrightarrow> m a = contents s a) \<Longrightarrow>
       inv (set_contents m s) \<and> held (set_contents m s) = held s"
begin

lemma fresh_run_disjoint:
  assumes "inv s" "alloc n s = Inr (Some p, s')" "(q, k) \<in> held s"
  shows "p + n * PAGE_SIZE \<le> q \<or> q + k * PAGE_SIZE \<le> p"
  using runs_disjoint [OF alloc_inv [OF assms(1,2)], of p n q k]
    alloc_held [OF assms(1,2)] alloc_new [OF assms(1,2)] assms(3) by auto

text \<open>
  A run that is allocated, written only inside and freed again leaves no trace: the same
  runs are held and every other byte is as before.
\<close>

lemma scratch_run:
  assumes "inv s" "alloc n s = Inr (Some p, s1)" "p < limit"
    and only: "\<And>a. a < p \<or> p + n * PAGE_SIZE \<le> a \<Longrightarrow> m a = contents s1 a"
  shows "\<exists>s2. free p (set_contents m s1) = Inr s2 \<and> inv s2 \<and> held s2 = held s \<and>
           (\<forall>a. a \<notin> table \<longrightarrow> a < p \<or> p + n * PAGE_SIZE \<le> a \<longrightarrow> contents s2 a = contents s a)"
proof -
  have i1: "inv s1" using assms(1,2) by (rule alloc_inv)
  have h1: "held s1 = insert (p, n) (held s)" using assms(1,2) by (rule alloc_held)
  have "m a = contents s1 a" if "a \<in> table" for a
    using runs_off_table [OF i1, of p n] h1 that
    by (intro only) (metis IntI atLeastLessThan_iff empty_iff insertI1 not_le)
  note keep = set_contents_keeps [OF i1 this]
  from free_run [of "set_contents m s1" p n] keep h1 assms(3)
  obtain s2 where s2: "free p (set_contents m s1) = Inr s2" "inv s2"
    "held s2 = insert (p, n) (held s) - {(p, n)}"
    "\<forall>a. a \<notin> table \<longrightarrow> contents s2 a = contents (set_contents m s1) a"
    by auto
  have "contents s2 a = contents s a" if "a \<notin> table" "a < p \<or> p + n * PAGE_SIZE \<le> a" for a
    using that s2(4) only [OF that(2)] alloc_contents [OF assms(1,2) that(1)]
    by (simp add: contents_set)
  with s2 alloc_new [OF assms(1,2)] show ?thesis by auto
qed

text \<open>The other runs keep their contents through the life of a scratch run.\<close>

lemma scratch_run_others:
  assumes "inv s" "alloc n s = Inr (Some p, s1)" "p < limit"
    and only: "\<And>a. a < p \<or> p + n * PAGE_SIZE \<le> a \<Longrightarrow> m a = contents s1 a"
    and fr: "free p (set_contents m s1) = Inr s2"
    and other: "(q, k) \<in> held s" "q \<le> a" "a < q + k * PAGE_SIZE"
  shows "contents s2 a = contents s a"
proof -
  have "a \<notin> table" using runs_off_table [OF assms(1) other(1)] other(2,3) by auto
  moreover have "a < p \<or> p + n * PAGE_SIZE \<le> a"
    using fresh_run_disjoint [OF assms(1,2) other(1)] other(2,3) by auto
  ultimately show ?thesis
    using scratch_run [OF assms(1-3) only] fr by auto
qed

end

interpretation pf: frame_allocator
  "frames_inv L" "held L" mem "\<lambda>m s. s\<lparr>mem := m\<rparr>" "allocate L" "deallocate L"
  "desc_region L" "heap_end L" for L
proof (unfold_locales, goal_cases)
  case (1 s n)
  then show ?case by (rule allocate_total)
next
  case (2 s n s')
  then show ?case by (rule allocate_None(1))
next
  case (3 s n p s')
  then show ?case by (rule allocate_Some(1))
next
  case (4 s n p s')
  then show ?case by (rule allocate_Some(2))
next
  case (5 s n p s')
  then show ?case by (rule allocate_Some(3))
next
  case (6 s n p s' a)
  then show ?case by (rule allocate_Some(7))
next
  case (7 s p n q k)
  from 7(2,3) show ?case by (rule held_disjoint)
next
  case (8 s p n)
  then show ?case by (rule held_off_table)
next
  case (9 s p n)
  from deallocate_held [OF 9] show ?case by blast
next
  case (10 m s)
  show ?case by simp
next
  case (11 s m)
  then show ?case using frames_frame [of L "s\<lparr>mem := m\<rparr>" s] by simp
qed

section \<open>Properties of the allocator\<close>

text \<open>A heap of four pages at \<open>0x1000\<close>, for the witnesses.\<close>

definition tiny_layout :: linker where
  "tiny_layout = demo_layout\<lparr>heap_start := 0x1000, heap_size := 0x4000\<rparr>"

definition tiny_heap :: kmem where
  "tiny_heap = \<lparr>mem = (\<lambda>_. 0), ALLOC_START = 0x2000\<rparr>"

lemma tiny_descriptors: "descriptors tiny_layout tiny_heap = replicate 4 0"
  by (rule nth_equalityI) (simp_all add: descriptors_def tiny_layout_def tiny_heap_def)

lemma tiny_frames_inv: "frames_inv tiny_layout tiny_heap"
proof -
  have "table_wf (replicate 4 0)" by (simp add: table_wf_def)
  then show ?thesis
    unfolding frames_inv_def tiny_descriptors by (simp add: tiny_layout_def tiny_heap_def)
qed

lemma tiny_window: "window_free (descriptors tiny_layout tiny_heap) 0 2"
  unfolding tiny_descriptors by (simp add: window_free_def)

lemma tiny_allocate:
  "allocate tiny_layout 2 tiny_heap =
     Inr (Some 0x2000, set_descriptors tiny_layout [1, 3, 0, 0] tiny_heap)"
proof -
  have "mark_run (replicate 4 0) 0 2 = [1, 3, 0, 0]"
    by (simp add: mark_run_def numeral_eq_Suc)
  moreover have "ALLOC_START tiny_heap = 0x2000" by (simp add: tiny_heap_def)
  ultimately show ?thesis
    using allocate_fits [OF tiny_frames_inv _ tiny_window] unfolding tiny_descriptors by simp
qed

text \<open>
  C9: \<open>allocate\<close> is first fit and exact. In every state that satisfies the invariant it
  returns, and either it takes the lowest window of \<open>n\<close> free pages, adds exactly that run
  to the runs in use and changes no byte outside the descriptor table, or no such window
  exists and it returns \<open>None\<close> with the state unchanged.
\<close>

theorem allocate_first_fit:
  assumes "frames_inv L s" "0 < n"
  shows "(\<exists>i s'. window_free (descriptors L s) i n \<and>
             (\<forall>j < i. \<not> window_free (descriptors L s) j n) \<and>
             allocate L n s = Inr (Some (ALLOC_START s + i * PAGE_SIZE), s') \<and>
             frames_inv L s' \<and>
             held L s' = insert (ALLOC_START s + i * PAGE_SIZE, n) (held L s) \<and>
             (\<forall>a. a \<notin> desc_region L \<longrightarrow> mem s' a = mem s a))
         \<or> (\<forall>i. \<not> window_free (descriptors L s) i n) \<and> allocate L n s = Inr (None, s)"
  using assms
proof (rule allocate_cases)
  fix i
  assume i: "window_free (descriptors L s) i n" "\<forall>j < i. \<not> window_free (descriptors L s) j n"
    and al: "allocate L n s = Inr (Some (ALLOC_START s + i * PAGE_SIZE),
                             set_descriptors L (mark_run (descriptors L s) i n) s)"
  then show ?thesis using allocate_Some(1,2,7) [OF assms(1) al] by blast
qed blast

theorem allocate_first_fit_witness:
  "frames_inv tiny_layout tiny_heap \<and> window_free (descriptors tiny_layout tiny_heap) 0 2 \<and>
   (\<exists>s'. allocate tiny_layout 2 tiny_heap = Inr (Some 0x2000, s') \<and>
         held tiny_layout s' = insert (0x2000, 2) (held tiny_layout tiny_heap))"
proof -
  have "0 < (2::nat)" by simp
  from allocate_first_fit [OF tiny_frames_inv this] show ?thesis
    using tiny_frames_inv tiny_allocate tiny_window by (metis Inr_inject Pair_inject option.inject option.distinct(1))
qed

text \<open>
  \<open>deallocate\<close> on the start of a run in use, below the end of the heap, returns,
  keeps the invariant, removes exactly that run from the runs in use, and changes no byte
  outside the descriptor table.
\<close>

theorem deallocate_exact:
  assumes "frames_inv L s" "(p, n) \<in> held L s" "p < heap_end L"
  shows "\<exists>s'. deallocate L p s = Inr s' \<and> frames_inv L s' \<and> held L s' = held L s - {(p, n)} \<and>
           (\<forall>a. a \<notin> desc_region L \<longrightarrow> mem s' a = mem s a)"
  using pf.free_run [OF assms] by blast

theorem deallocate_exact_witness:
  "\<exists>(s :: kmem) s'. frames_inv tiny_layout s \<and> (0x2000, 2) \<in> held tiny_layout s \<and>
          deallocate tiny_layout 0x2000 s = Inr s' \<and> (0x2000, 2) \<notin> held tiny_layout s'"
proof -
  let ?s = "set_descriptors tiny_layout [1, 3, 0, 0] tiny_heap"
  have s: "frames_inv tiny_layout ?s" "(0x2000, 2) \<in> held tiny_layout ?s"
    using allocate_Some(1,2) [OF tiny_frames_inv tiny_allocate] by auto
  have "0x2000 < heap_end tiny_layout" by (simp add: tiny_layout_def)
  from deallocate_exact [OF s this] obtain s' where
    "deallocate tiny_layout 0x2000 ?s = Inr s'" "(0x2000, 2) \<notin> held tiny_layout s'" by auto
  then show ?thesis by (intro exI conjI) (rule s)+
qed

text \<open>
  C10: Freeing what was just allocated restores the whole state, the descriptor table byte
  for byte.
\<close>

theorem allocate_deallocate_roundtrip:
  assumes "frames_inv L s" "allocate L n s = Inr (Some p, s')" "p < heap_end L"
  shows "deallocate L p s' = Inr s"
proof -
  have n: "0 < n" using assms(1,2) by (rule allocate_Some(4))
  have wf: "table_wf (descriptors L s)" using assms(1) by (simp add: frames_inv_def)
  obtain i where i: "window_free (descriptors L s) i n" "p = ALLOC_START s + i * PAGE_SIZE"
    "s' = set_descriptors L (mark_run (descriptors L s) i n) s"
    using allocate_cases [OF assms(1) n] assms(2)
    by (metis Inr_inject Pair_inject option.distinct(1) option.inject)
  have len: "length (mark_run (descriptors L s) i n) = npages L"
    using i(1) by (simp add: window_free_def)
  have "deallocate L p s' =
          Inr (set_descriptors L (clear_run (mark_run (descriptors L s) i n) i n) s')"
    using deallocate_held_eq [OF allocate_Some(1) [OF assms(1,2)], of i n]
      run_at_mark_run_new [OF wf i(1) n] assms(3) len by (simp add: i)
  also have "\<dots> = Inr s"
    using len by (simp add: clear_mark_run [OF wf i(1) n] i(3))
  finally show ?thesis .
qed

theorem allocate_deallocate_roundtrip_witness:
  "deallocate tiny_layout 0x2000 (set_descriptors tiny_layout [1, 3, 0, 0] tiny_heap) = Inr tiny_heap"
  using allocate_deallocate_roundtrip [OF tiny_frames_inv tiny_allocate]
  by (simp add: tiny_layout_def)

text \<open>
  A double free is caught: freeing a run twice in a row fails the assertion of
  \<open>deallocate\<close> instead of corrupting the table.
\<close>

theorem double_free_caught:
  assumes "frames_inv L s" "(p, n) \<in> held L s" "deallocate L p s = Inr s'"
  shows "deallocate L p s' = Inl AssertFailed"
proof -
  obtain i where i: "p = ALLOC_START s + i * PAGE_SIZE" "run_at (descriptors L s) i n"
    using assms(2) by (rule heldE)
  have lim: "heap_start L + heap_size L < 2 ^ 64" using assms(1) by (simp add: frames_inv_def)
  have "p < heap_end L" using assms(1,3) by (rule deallocate_bounds)
  note lim = lim this
  then have s': "s' = set_descriptors L (clear_run (descriptors L s) i n) s"
    using deallocate_held_eq [OF assms(1) i(2)] assms(3) i(1) by simp
  have "i < npages L" "0 < n" using i(2) by (auto simp: run_at_def)
  then have "dealloc_run (descriptors L s') i = Inl AssertFailed"
    by (simp add: s' dealloc_run_free)
  with lim show ?thesis by (simp add: deallocate_def s' i(1))
qed

theorem double_free_caught_witness:
  "\<exists>(s :: kmem) s'. frames_inv tiny_layout s \<and> deallocate tiny_layout 0x2000 s = Inr s' \<and>
          deallocate tiny_layout 0x2000 s' = Inl AssertFailed"
proof -
  let ?s = "set_descriptors tiny_layout [1, 3, 0, 0] tiny_heap"
  have s: "frames_inv tiny_layout ?s" "(0x2000, 2) \<in> held tiny_layout ?s"
    using allocate_Some(1,2) [OF tiny_frames_inv tiny_allocate] by auto
  have "0x2000 < heap_end tiny_layout" by (simp add: tiny_layout_def)
  from deallocate_held [OF s this] obtain s' where s': "deallocate tiny_layout 0x2000 ?s = Inr s'"
    by auto
  show ?thesis by (intro exI conjI) (rule s(1), rule s', rule double_free_caught [OF s s'])
qed



text \<open>
  The life of the heap, with a ledger kept by its clients: every run that a call of the
  allocator handed out and that has not been given back, as often as it was handed out. The
  steps are the initialisation, the operations, which only take back what is in the ledger, and
  writes of owners inside their runs.
\<close>

inductive heap_reach :: "linker \<Rightarrow> (nat \<times> nat) list \<Rightarrow> kmem \<Rightarrow> bool" for L where
  boot: "init L s0 = Inr s \<Longrightarrow> heap_reach L [] s"
| alloc: "heap_reach L H s \<Longrightarrow> allocate L n s = Inr (Some p, s') \<Longrightarrow> heap_reach L ((p, n) # H) s'"
| zalloc: "heap_reach L H s \<Longrightarrow> zallocate L n s = Inr (Some p, s') \<Longrightarrow> heap_reach L ((p, n) # H) s'"
| full: "heap_reach L H s \<Longrightarrow> allocate L n s = Inr (None, s') \<or> zallocate L n s = Inr (None, s') \<Longrightarrow> heap_reach L H s'"
| dealloc: "heap_reach L H s \<Longrightarrow> (p, n) \<in> set H \<Longrightarrow> deallocate L p s = Inr s' \<Longrightarrow> heap_reach L (remove1 (p, n) H) s'"
| owner_write: "heap_reach L H s \<Longrightarrow> (p, n) \<in> set H \<Longrightarrow> p \<le> a \<Longrightarrow> a < p + n * PAGE_SIZE \<Longrightarrow>
    heap_reach L H (s\<lparr>mem := (mem s)(a := v)\<rparr>)"

lemma lds_init_bounds:
  "lds_ok L \<Longrightarrow> heap_start L + 2 * heap_size L + PAGE_SIZE \<le> 2 ^ 56"
  using lds_ok_heap [of L] by simp

text \<open>The table accounts for exactly the runs of the ledger, each of them handed out once.\<close>

lemma heap_reach_inv:
  assumes "heap_reach L H s" "lds_ok L" "0 < npages L"
  shows "frames_inv L s \<and> held L s = set H \<and> distinct H"
  using assms(1)
proof (induction rule: heap_reach.induct)
  case (boot s0 s)
  with init_spec [OF assms(3) lds_init_bounds [OF assms(2)], of s0]
  have "frames_inv L s" "descriptors L s = replicate (npages L) 0" by auto
  then show ?case by (auto simp: held_def run_at_def is_taken_def)
next
  case (alloc H s n p s')
  then show ?case using allocate_Some(1-3) [of L s n p s'] by auto
next
  case (zalloc H s n p s')
  then show ?case using zallocate_Some(1-3) [of L s n p s'] by auto
next
  case (full H s n s')
  then have "s' = s" using allocate_None(1) [of L s n s'] zallocate_None(1) [of L s n s'] by auto
  with full.IH show ?case by simp
next
  case (dealloc H s p n s')
  then have inv: "frames_inv L s" and h: "(p, n) \<in> held L s" by auto
  from pf.free_run [OF inv h deallocate_bounds [OF inv dealloc.hyps(3)]] dealloc.hyps(3)
  have "frames_inv L s'" "held L s' = held L s - {(p, n)}" by auto
  with dealloc.IH show ?case by simp
next
  case (owner_write H s p n a v)
  then have "a \<notin> desc_region L" using held_off_table [of L s p n] by auto
  then have "frames_inv L (s\<lparr>mem := (mem s)(a := v)\<rparr>) = frames_inv L s" "held L (s\<lparr>mem := (mem s)(a := v)\<rparr>) = held L s"
    by (intro frames_frame; auto)+
  with owner_write.IH show ?case by simp
qed

text \<open>
  Single-page requests walk up the table: with the first \<open>k\<close> pages in use the next one is
  page \<open>k\<close>.
\<close>

abbreviation first_taken :: "linker \<Rightarrow> nat \<Rightarrow> 'z kmem_scheme \<Rightarrow> bool" where
  "first_taken L k s \<equiv> frames_inv L s \<and> descriptors L s = replicate k 3 @ replicate (npages L - k) 0"

lemma mark_next_page:
  assumes "k < n"
  shows "mark_run (replicate k 3 @ replicate (n - k) 0) k 1 = replicate (Suc k) 3 @ replicate (n - Suc k) 0"
    (is "mark_run ?ds k 1 = _")
proof (rule nth_equalityI)
  have len: "length ?ds = n" "k + 1 \<le> length ?ds" using assms by auto
  show "length (mark_run ?ds k 1) = length (replicate (Suc k) 3 @ replicate (n - Suc k) 0)"
    using assms len by simp
  fix j assume "j < length (mark_run ?ds k 1)"
  then have "j < length ?ds" using len by simp
  from nth_mark_run_raw [OF _ len(2) this] assms this len(1)
  show "mark_run ?ds k 1 ! j = (replicate (Suc k) 3 @ replicate (n - Suc k) 0) ! j"
    by (auto simp: nth_append nth_Cons')
qed

lemma allocate_next_page:
  assumes "first_taken L k s" "k < npages L"
  shows "\<exists>s'. allocate L 1 s = Inr (Some (ALLOC_START s + k * PAGE_SIZE), s') \<and>
           first_taken L (Suc k) s' \<and> ALLOC_START s' = ALLOC_START s"
proof -
  let ?ds = "replicate k 3 @ replicate (npages L - k) 0"
  have inv: "frames_inv L s" and ds: "descriptors L s = ?ds" using assms(1) by auto
  have w: "window_free ?ds k 1" "\<forall>j < k. \<not> window_free ?ds j 1"
    using assms(2) by (auto simp: window_free_def nth_append)
  let ?s = "set_descriptors L (mark_run ?ds k 1) s"
  have al: "allocate L 1 s = Inr (Some (ALLOC_START s + k * PAGE_SIZE), ?s)"
    using allocate_fits [OF inv, of 1 k] w unfolding ds by simp
  have len: "length (mark_run ?ds k 1) = npages L" using assms(2) by simp
  have "descriptors L ?s = replicate (Suc k) 3 @ replicate (npages L - Suc k) 0"
    using mark_next_page [OF assms(2)] len by (simp only: descriptors_set_descriptors)
  with allocate_Some(1,5) [OF inv al] al show ?thesis by blast
qed

lemma zallocate_descriptors:
  assumes "frames_inv L s" "allocate L n s = Inr (Some p, s1)"
    "s' = s1\<lparr>mem := fill_bytes (mem s1) p (n * PAGE_SIZE) 0\<rparr>"
  shows "descriptors L s' = descriptors L s1"
proof -
  have "(p, n) \<in> held L s1" using allocate_Some(2) [OF assms(1,2)] by simp
  note off = held_table_cases [OF allocate_Some(1) [OF assms(1,2)] this]
  show ?thesis by (rule descriptors_frame) (use off in \<open>simp add: assms(3) fill_bytes_out\<close>)
qed

lemma zallocate_next_page:
  assumes "first_taken L k s" "k < npages L"
  shows "\<exists>s'. zallocate L 1 s = Inr (Some (ALLOC_START s + k * PAGE_SIZE), s') \<and>
           first_taken L (Suc k) s' \<and> ALLOC_START s' = ALLOC_START s"
proof -
  have inv: "frames_inv L s" using assms(1) by simp
  obtain s1 where s1: "allocate L 1 s = Inr (Some (ALLOC_START s + k * PAGE_SIZE), s1)"
    "first_taken L (Suc k) s1" "ALLOC_START s1 = ALLOC_START s"
    using allocate_next_page [OF assms] by blast
  let ?s = "s1\<lparr>mem := fill_bytes (mem s1) (ALLOC_START s + k * PAGE_SIZE) (1 * PAGE_SIZE) 0\<rparr>"
  have z: "zallocate L 1 s = Inr (Some (ALLOC_START s + k * PAGE_SIZE), ?s)"
    using s1(1) zallocate_Some_iff [OF inv] by blast
  have "descriptors L ?s = descriptors L s1" by (rule zallocate_descriptors [OF inv s1(1) refl])
  with z s1(2) zallocate_Some(1,5) [OF inv z] show ?thesis by auto
qed

text \<open>
  C12: Memory safety of the heap over its whole life. In every state the kernel can reach by calls of
  the allocator and writes of owners into their own runs, the runs that were handed out and
  not given back are page aligned, not empty and pairwise disjoint, none overlaps the
  descriptor table, and the table accounts for exactly these runs: no page is ever given to two clients,
  and none is lost.
\<close>

theorem heap_runs_never_overlap:
  assumes "heap_reach L H s" "lds_ok L" "0 < npages L"
  shows "held L s = set H \<and>
         (\<forall>i < length H. \<forall>j < i. {fst (H ! i) ..< fst (H ! i) + snd (H ! i) * PAGE_SIZE} \<inter>
            {fst (H ! j) ..< fst (H ! j) + snd (H ! j) * PAGE_SIZE} = {}) \<and>
         (\<forall>(p, n) \<in> set H. 0 < n \<and> p mod PAGE_SIZE = 0 \<and> {p ..< p + n * PAGE_SIZE} \<inter> desc_region L = {})"
proof -
  have inv: "frames_inv L s" and H: "held L s = set H" "distinct H" using heap_reach_inv [OF assms] by simp_all
  have sep: "{p ..< p + n * PAGE_SIZE} \<inter> {q ..< q + k * PAGE_SIZE} = {}"
    if "H ! i = (p, n)" "H ! j = (q, k)" "i < length H" "j < i" for i j p n q k
  proof -
    have "(p, n) \<in> held L s" "(q, k) \<in> held L s" "(p, n) \<noteq> (q, k)"
      using that H nth_mem [of i H] nth_mem [of j H] nth_eq_iff_index_eq [OF H(2), of i j] by auto
    then show ?thesis using pf.runs_disjoint [OF inv, of p n q k] by auto
  qed
  have "{fst (H ! i) ..< fst (H ! i) + snd (H ! i) * PAGE_SIZE} \<inter>
      {fst (H ! j) ..< fst (H ! j) + snd (H ! j) * PAGE_SIZE} = {}" if "i < length H" "j < i" for i j
    by (rule sep [OF _ _ that]) simp_all
  moreover have "\<forall>(p, n) \<in> set H. 0 < n \<and> p mod PAGE_SIZE = 0 \<and> {p ..< p + n * PAGE_SIZE} \<inter> desc_region L = {}"
    using held_bounds(1,2) [OF inv] pf.runs_off_table [OF inv] unfolding H(1) by blast
  ultimately show ?thesis using H(1) by blast
qed

lemma demo_npages: "npages demo_layout = 0x7f67"
  by (simp add: demo_layout_def)

theorem heap_runs_never_overlap_witness:
  "\<exists>s p q. heap_reach demo_layout [(p, 1), (q, 1)] s \<and> {q ..< q + PAGE_SIZE} \<inter> {p ..< p + PAGE_SIZE} = {}"
proof -
  have np: "0 < npages demo_layout" "1 < npages demo_layout" by (simp_all only: demo_npages)
  from init_spec [OF np(1) lds_init_bounds [OF demo_layout_ok], of tiny_heap]
  obtain s where s: "init demo_layout tiny_heap = Inr s" "first_taken demo_layout 0 s" by auto
  obtain q s1 where s1: "allocate demo_layout 1 s = Inr (Some q, s1)" "first_taken demo_layout (Suc 0) s1"
    using allocate_next_page [OF s(2) np(1)] by blast
  obtain p s2 where s2: "allocate demo_layout 1 s1 = Inr (Some p, s2)"
    using allocate_next_page [OF s1(2)] np(2) by auto
  have r: "heap_reach demo_layout [(p, 1), (q, 1)] s2"
    by (rule heap_reach.alloc [OF heap_reach.alloc [OF heap_reach.boot [OF s(1)] s1(1)] s2])
  from heap_runs_never_overlap [OF r demo_layout_ok np(1), THEN conjunct2, THEN conjunct1, rule_format, of 1 0]
  have "{q ..< q + PAGE_SIZE} \<inter> {p ..< p + PAGE_SIZE} = {}" by simp
  with r show ?thesis by blast
qed

text \<open>
  C13: The allocator hands out memory beyond the end of RAM. The descriptor table has one
  entry per page of the whole heap, but the pages it describes start only after the table:
  on any kernel image that leaves a heap of at least 32 MiB, serving single-page requests
  from boot reaches a request that returns a page at or above \<open>memory_end\<close>, which
  \<open>deallocate\<close> then refuses with a failed assertion.
\<close>

theorem allocate_past_end_of_ram:
  assumes "lds_ok L" "0x2000000 \<le> heap_size L" "init L s0 = Inr s"
  shows "\<exists>s1 p s2.
           fold_res (\<lambda>_ t. bind_res (allocate L 1 t) (\<lambda>(r, t'). Inr t')) [0..<npages L - 1] s = Inr s1 \<and>
           allocate L 1 s1 = Inr (Some p, s2) \<and> memory_end L \<le> p \<and>
           deallocate L p s2 = Inl AssertFailed"
proof -
  let ?n = "npages L" and ?A = "ALLOC_START s"
  have n: "0x2000 \<le> ?n" using div_le_mono [OF assms(2), of 4096] by simp
  then have n0: "0 < ?n" by simp
  have s: "first_taken L 0 s" "?A = next_multiple (heap_start L + ?n) PAGE_SIZE"
    using init_spec [OF n0 lds_init_bounds [OF assms(1)], of s0] assms(3) by auto
  let ?f = "\<lambda>_ t. bind_res (allocate L 1 t) (\<lambda>(r, t'). Inr t')"
  have "\<exists>t. fold_res ?f [0..<?n - 1] s = Inr t \<and>
          (first_taken L (length [0..<?n - 1]) t \<and> ALLOC_START t = ?A)"
  proof (rule fold_res_invariant)
    show "first_taken L 0 s \<and> ?A = ?A" using s(1) by blast
    show "\<exists>t'. ?f ([0..<?n - 1] ! k) t = Inr t' \<and> first_taken L (Suc k) t' \<and> ALLOC_START t' = ?A"
      if "k < length [0..<?n - 1]" "first_taken L k t \<and> ALLOC_START t = ?A" for k t
    proof -
      from that have k: "first_taken L k t" "k < ?n" "ALLOC_START t = ?A" by auto
      from allocate_next_page [OF k(1,2)] obtain t' where
        "allocate L 1 t = Inr (Some (ALLOC_START t + k * PAGE_SIZE), t')"
        "first_taken L (Suc k) t'" "ALLOC_START t' = ?A"
        unfolding k(3) by blast
      then show ?thesis by (intro exI [of _ t']) simp
    qed
  qed
  then obtain s1 where s1: "fold_res ?f [0..<?n - 1] s = Inr s1"
    "first_taken L (?n - 1) s1" "ALLOC_START s1 = ?A"
    unfolding length_upt diff_zero by blast
  obtain s2 where s2: "allocate L 1 s1 = Inr (Some (?A + (?n - 1) * PAGE_SIZE), s2)"
    using allocate_next_page [OF s1(2)] n0 s1(3) by auto
  have "heap_start L + ?n \<le> ?A" using s(2) next_multiple_ge by simp
  moreover have "heap_size L < ?n * PAGE_SIZE + PAGE_SIZE"
    using div_mult_mod_eq [of "heap_size L" PAGE_SIZE] mod_less_divisor [of PAGE_SIZE "heap_size L"]
    by simp
  ultimately have past: "memory_end L \<le> ?A + (?n - 1) * PAGE_SIZE"
    using n lds_ok_heap(2) [OF assms(1)] by (simp add: diff_mult_distrib)
  have "frames_inv L s2" using allocate_Some(1) [OF _ s2] s1(2) by blast
  then have "heap_end L < 2 ^ 64" by (simp add: frames_inv_def)
  with past lds_ok_heap(2) [OF assms(1)]
  have "deallocate L (?A + (?n - 1) * PAGE_SIZE) s2 = Inl AssertFailed"
    by (simp add: deallocate_def)
  with s1(1) s2 past show ?thesis by blast
qed

theorem allocate_past_end_of_ram_witness:
  "\<exists>(s1 :: kmem) p s2. allocate demo_layout 1 s1 = Inr (Some p, s2) \<and> memory_end demo_layout \<le> p"
proof -
  have np: "0 < npages demo_layout" by (simp only: demo_npages)
  have big: "0x2000000 \<le> heap_size demo_layout" by (simp add: demo_layout_def)
  from init_spec [OF np lds_init_bounds [OF demo_layout_ok], of tiny_heap]
  obtain s where "init demo_layout tiny_heap = Inr s" by auto
  from allocate_past_end_of_ram [OF demo_layout_ok big this] show ?thesis by blast
qed

end
