(* ===== verification/Sv39.thy ===== *)
theory Sv39
  imports PageFrame
begin

text \<open>
  Sv39 page tables (\<open>src/mm/paging/sv39/types.rs\<close>, \<open>src/mm/paging/sv39/map.rs\<close>) and the
  \<open>satp\<close> encoding (\<open>src/arch/riscv64/paging.rs\<close>).

  A page table is what the code makes of it: a page of physical memory read as 512
  eight-byte entries. \<open>sv39_map\<close> is \<open>map\<close>, with the walk of its loop as \<open>map_walk\<close> and
  the on-demand table of one iteration as \<open>ensure_table\<close>; \<open>unmap\<close>, \<open>v2p\<close> and
  \<open>id_map_range\<close> keep their names. The tables come from \<open>zallocate\<close> of the page-frame
  allocator, so the operations work on its state.

  The specification side: \<open>tbl\<close> finds the table behind a path of indices, \<open>leaf_of\<close> the
  leaf entry that a walk over a full path ends in, and \<open>pt_inv\<close> says that the tables of a
  root form a tree of distinct pages held from the allocator.
\<close>

section \<open>Entries and flags\<close>

type_synonym pte = u64

definition Table_len :: nat where "Table_len = 512"

definition VALID :: pte where "VALID = push_bit 0 1"
definition READ :: pte where "READ = push_bit 1 1"
definition WRITE :: pte where "WRITE = push_bit 2 1"
definition EXECUTE :: pte where "EXECUTE = push_bit 3 1"
definition USER :: pte where "USER = push_bit 4 1"
definition GLOBAL :: pte where "GLOBAL = push_bit 5 1"
definition ACCESSED :: pte where "ACCESSED = push_bit 6 1"
definition DIRTY :: pte where "DIRTY = push_bit 7 1"
definition RWX :: pte where "RWX = 0xe"

definition get_entry :: "memory \<Rightarrow> nat \<Rightarrow> pte" where
  "get_entry m v = ld64 m v"

definition set_entry :: "nat \<Rightarrow> pte \<Rightarrow> 'z kmem_scheme \<Rightarrow> 'z kmem_scheme" where
  "set_entry v e s = s\<lparr>mem := st64 (mem s) v e\<rparr>"

definition is_valid :: "pte \<Rightarrow> bool" where "is_valid e \<longleftrightarrow> e AND VALID \<noteq> 0"
definition is_invalid :: "pte \<Rightarrow> bool" where "is_invalid e \<longleftrightarrow> \<not> is_valid e"
definition is_leaf :: "pte \<Rightarrow> bool" where "is_leaf e \<longleftrightarrow> e AND RWX \<noteq> 0"
definition is_branch :: "pte \<Rightarrow> bool" where "is_branch e \<longleftrightarrow> \<not> is_leaf e"

lemmas pte_flag_defs =
  VALID_def READ_def WRITE_def EXECUTE_def USER_def GLOBAL_def ACCESSED_def DIRTY_def RWX_def

section \<open>Operations\<close>

definition vpn :: "u64 \<Rightarrow> u64 list" where
  "vpn vaddr = [drop_bit 12 vaddr AND 0x1ff, drop_bit 21 vaddr AND 0x1ff, drop_bit 30 vaddr AND 0x1ff]"

definition ppn :: "u64 \<Rightarrow> u64 list" where
  "ppn paddr = [drop_bit 12 paddr AND 0x1ff, drop_bit 21 paddr AND 0x1ff, drop_bit 30 paddr AND 0x3ffffff]"

definition branch_pte :: "nat \<Rightarrow> pte" where
  "branch_pte page = signed_drop_bit 2 (of_nat page) OR VALID"

definition next_table :: "pte \<Rightarrow> nat" where
  "next_table e = unat (push_bit 2 (e AND NOT 0x3ff))"

definition leaf_pte :: "u64 \<Rightarrow> pte \<Rightarrow> pte" where
  "leaf_pte paddr bits =
     push_bit 28 (ppn paddr ! 2) OR push_bit 19 (ppn paddr ! 1) OR push_bit 10 (ppn paddr ! 0)
     OR bits OR VALID"

definition ensure_table :: "linker \<Rightarrow> nat \<Rightarrow> 'z kmem_scheme \<Rightarrow> 'z kmem_scheme res" where
  "ensure_table L v s =
     (if is_invalid (get_entry (mem s) v)
      then bind_res (zallocate L 1 s) (\<lambda>(page, s1).
             case page of
               None \<Rightarrow> Inl UnwrapNone
             | Some addr \<Rightarrow> Inr (set_entry v (branch_pte addr) s1))
      else Inr s)"

fun map_walk :: "linker \<Rightarrow> u64 list \<Rightarrow> nat list \<Rightarrow> nat \<Rightarrow> 'z kmem_scheme \<Rightarrow> (nat \<times> 'z kmem_scheme) res"
where
  "map_walk L vpns [] v s = Inr (v, s)"
| "map_walk L vpns (i # is) v s =
     bind_res (ensure_table L v s) (\<lambda>s1.
     let v1 = next_table (get_entry (mem s1) v) + 8 * unat (vpns ! i)
     in if v1 = 0 then Inl UnwrapNone else map_walk L vpns is v1 s1)"

definition sv39_map ::
  "linker \<Rightarrow> nat \<Rightarrow> u64 \<Rightarrow> u64 \<Rightarrow> pte \<Rightarrow> nat \<Rightarrow> 'z kmem_scheme \<Rightarrow> 'z kmem_scheme res"
where
  "sv39_map L root vaddr paddr bits level s =
     bind_res (assert_res (bits AND RWX \<noteq> 0)) (\<lambda>_.
     bind_res (map_walk L (vpn vaddr) (rev [level..<2]) (root + 8 * unat (vpn vaddr ! 2)) s) (\<lambda>(v, s1).
     Inr (set_entry v (leaf_pte paddr bits) s1)))"

text \<open>\<open>unmap\<close>: the body of the inner and of the outer loop, then the loop over the root.\<close>

definition deallocate_addr :: "linker \<Rightarrow> nat \<Rightarrow> 'z kmem_scheme \<Rightarrow> 'z kmem_scheme res" where
  "deallocate_addr L addr s =
     (case nonnull addr of None \<Rightarrow> Inl UnwrapNone | Some ptr \<Rightarrow> deallocate L ptr s)"

definition unmap_lv1 :: "linker \<Rightarrow> nat \<Rightarrow> nat \<Rightarrow> 'z kmem_scheme \<Rightarrow> 'z kmem_scheme res" where
  "unmap_lv1 L table_lv1 lv1 s =
     (let entry_lv1 = get_entry (mem s) (table_lv1 + 8 * lv1) in
      if \<not> is_valid entry_lv1 \<or> \<not> is_branch entry_lv1 then Inr s
      else bind_res (deallocate_addr L (next_table entry_lv1) s) (\<lambda>s1.
           Inr (set_entry (table_lv1 + 8 * lv1) 0 s1)))"

definition unmap_lv2 :: "linker \<Rightarrow> nat \<Rightarrow> nat \<Rightarrow> 'z kmem_scheme \<Rightarrow> 'z kmem_scheme res" where
  "unmap_lv2 L root lv2 s =
     (let entry_lv2 = get_entry (mem s) (root + 8 * lv2) in
      if \<not> is_valid entry_lv2 \<or> \<not> is_branch entry_lv2 then Inr s
      else let memaddr_lv1 = next_table entry_lv2 in
           bind_res (fold_res (unmap_lv1 L memaddr_lv1) [0..<Table_len] s) (\<lambda>s1.
           bind_res (deallocate_addr L memaddr_lv1 s1) (\<lambda>s2.
           Inr (set_entry (root + 8 * lv2) 0 s2))))"

definition unmap :: "linker \<Rightarrow> nat \<Rightarrow> 'z kmem_scheme \<Rightarrow> 'z kmem_scheme res" where
  "unmap L root s = fold_res (unmap_lv2 L root) [0..<Table_len] s"

text \<open>The loop of \<open>v2p\<close>, from level \<open>i\<close> down.\<close>

fun v2p_walk :: "memory \<Rightarrow> u64 \<Rightarrow> nat \<Rightarrow> nat \<Rightarrow> u64 option res" where
  "v2p_walk m vaddr i v =
     (let e = get_entry m v in
      if is_invalid e then Inr None
      else if is_leaf e then
        let off_mask = push_bit (12 + 9 * i) 1 - 1;
            vaddr_pgoff = vaddr AND off_mask;
            addr = push_bit 2 e AND NOT off_mask
        in Inr (Some (addr OR vaddr_pgoff))
      else if i = 0 then Inr None
      else let v1 = next_table e + 8 * unat (vpn vaddr ! (i - 1))
           in if v1 = 0 then Inl UnwrapNone else v2p_walk m vaddr (i - 1) v1)"

declare v2p_walk.simps [simp del]

definition v2p :: "memory \<Rightarrow> nat \<Rightarrow> u64 \<Rightarrow> u64 option res" where
  "v2p m root vaddr = v2p_walk m vaddr 2 (root + 8 * unat (vpn vaddr ! 2))"

text \<open>\<open>(start..end).step_by(PAGE_SIZE)\<close>\<close>

definition page_range :: "nat \<Rightarrow> nat \<Rightarrow> nat list" where
  "page_range start stop = map (\<lambda>k. start + k * PAGE_SIZE) [0..<div_ceil (stop - start) PAGE_SIZE]"

definition id_map_range ::
  "linker \<Rightarrow> nat \<Rightarrow> nat \<Rightarrow> nat \<Rightarrow> pte \<Rightarrow> 'z kmem_scheme \<Rightarrow> 'z kmem_scheme res"
where
  "id_map_range L root start stop bits s =
     bind_res (assert_res (start mod PAGE_SIZE = 0)) (\<lambda>_.
     bind_res (assert_res (stop mod PAGE_SIZE = 0)) (\<lambda>_.
     fold_res (\<lambda>addr. sv39_map L root (of_nat addr) (of_nat addr) bits 0) (page_range start stop) s))"

text \<open>\<open>make_satp_sv39\<close>\<close>

definition make_satp_sv39 :: "u64 \<Rightarrow> u64" where
  "make_satp_sv39 root_table_addr = push_bit 60 8 OR drop_bit 12 root_table_addr"

section \<open>Bits of entries\<close>

lemma zero_entry [simp]: "\<not> is_valid 0" "is_invalid 0"
  by (simp_all add: is_valid_def is_invalid_def)

lemma is_valid_bit: "is_valid e \<longleftrightarrow> bit e 0"
  by (simp add: is_valid_def VALID_def and_one_eq odd_iff_mod_2_eq_one [symmetric] bit_0)

lemma is_leaf_bit: "is_leaf e \<longleftrightarrow> bit e 1 \<or> bit e 2 \<or> bit e 3"
proof -
  have eq: "RWX = push_bit 1 1 OR push_bit 2 1 OR push_bit 3 1" by (simp add: RWX_def)
  have "bit (e AND RWX) n \<longleftrightarrow> bit e n \<and> (n = 1 \<or> n = 2 \<or> n = 3)" for n
    unfolding eq by (simp only: bit_and_iff bit_or_iff bit_push_bit_iff bit_1_iff) auto
  then show ?thesis
    unfolding is_leaf_def by (metis bit_0_eq bit_eqI bot_apply bot_bool_def)
qed

lemma vpn_lt: "i < 3 \<Longrightarrow> unat (vpn va ! i) < 512"
proof -
  have "unat (x AND 0x1ff) < 512" for x :: u64
    using word_and_le1 [of x "0x1ff"] by (simp add: word_le_nat_alt)
  moreover assume "i < 3"
  ultimately show ?thesis
    by (cases "i = 0"; cases "i = 1") (simp_all add: vpn_def nth_Cons')
qed

lemma page_word:
  fixes p :: nat
  assumes "p mod 4096 = 0" "p < 2 ^ 56"
  shows "unat (of_nat p :: u64) = p" "\<And>n. bit (of_nat p :: u64) n \<Longrightarrow> 12 \<le> n \<and> n < 56"
proof -
  show u: "unat (of_nat p :: u64) = p" using assms(2) by (simp add: unat_of_nat)
  fix n assume b: "bit (of_nat p :: u64) n"
  then have pb: "bit p n" by (simp add: bit_of_nat_iff)
  have "take_bit 12 p = 0" using assms(1) by (simp add: take_bit_eq_mod)
  then have "12 \<le> n" using pb by (metis bit_0_eq bit_take_bit_iff bot_apply bot_bool_def linorder_not_le)
  moreover have "take_bit 56 p = p" using assms(2) by (simp add: take_bit_nat_eq_self)
  then have "n < 56" using pb by (metis bit_take_bit_iff)
  ultimately show "12 \<le> n \<and> n < 56" by simp
qed

lemma branch_pte_bits:
  assumes "p mod 4096 = 0" "p < 2 ^ 56"
  shows "bit (branch_pte p) n \<longleftrightarrow> n = 0 \<or> bit (of_nat p :: u64) (n + 2)"
proof -
  have "bit (signed_drop_bit 2 (of_nat p :: u64)) n \<longleftrightarrow> bit (of_nat p :: u64) (n + 2)"
  proof (cases "62 \<le> n")
    case True
    then have "\<not> bit (of_nat p :: u64) (n + 2)" "\<not> bit (of_nat p :: u64) 63"
      using page_word(2) [OF assms, of "n + 2"] page_word(2) [OF assms, of 63] by auto
    moreover have "\<not> bit (of_nat p :: u64) (2 + n)" using calculation(1) by (simp add: add.commute)
    ultimately show ?thesis unfolding bit_signed_drop_bit_iff by (auto split: if_splits)
  next
    case False
    then show ?thesis unfolding bit_signed_drop_bit_iff by (simp add: add.commute)
  qed
  then show ?thesis
    by (auto simp: branch_pte_def VALID_def bit_or_iff bit_1_iff)
qed

lemma branch_pte_valid:
  assumes "p mod 4096 = 0" "p < 2 ^ 56"
  shows "is_valid (branch_pte p)" "is_branch (branch_pte p)"
proof -
  have "\<not> bit (branch_pte p) n" if "0 < n" "n < 10" for n
    using that page_word(2) [OF assms, of "n + 2"] branch_pte_bits [OF assms, of n] by auto
  then show "is_valid (branch_pte p)" "is_branch (branch_pte p)"
    using branch_pte_bits [OF assms, of 0] by (simp_all add: is_valid_bit is_branch_def is_leaf_bit)
qed

lemma low_mask_bits: "bit (0x3ff :: u64) n \<longleftrightarrow> n < 10"
proof -
  have "(0x3ff :: u64) = mask 10" by (simp add: mask_eq_exp_minus_1)
  then show ?thesis by (simp only: bit_mask_iff) auto
qed

lemma next_table_branch_pte:
  assumes "p mod 4096 = 0" "p < 2 ^ 56"
  shows "next_table (branch_pte p) = p"
proof -
  have "push_bit 2 (branch_pte p AND NOT 0x3ff) = (of_nat p :: u64)"
  proof (rule bit_word_eqI)
    fix n assume n: "n < LENGTH(64)"
    have np: "n \<ge> 12 \<and> n < 56" if "bit (of_nat p :: u64) n" using page_word(2) [OF assms that] .
    show "bit (push_bit 2 (branch_pte p AND NOT 0x3ff)) n = bit (of_nat p :: u64) n"
    proof (cases "12 \<le> n")
      case True
      then have "n - 2 + 2 = n" "\<not> n - 2 < 10" "n - 2 \<noteq> 0" by auto
      with n True show ?thesis
        by (simp only: bit_push_bit_iff bit_and_iff bit_not_iff low_mask_bits branch_pte_bits [OF assms]) auto
    next
      case False
      with np have "\<not> bit (of_nat p :: u64) n" by blast
      moreover have "\<not> bit (push_bit 2 (branch_pte p AND NOT 0x3ff)) n"
        using False by (simp only: bit_push_bit_iff bit_and_iff bit_not_iff low_mask_bits) auto
      ultimately show ?thesis by simp
    qed
  qed
  then show ?thesis by (simp add: next_table_def page_word(1) [OF assms])
qed

lemma leaf_pte_valid:
  assumes "bits AND RWX \<noteq> 0"
  shows "is_valid (leaf_pte pa bits)" "is_leaf (leaf_pte pa bits)"
proof -
  show "is_valid (leaf_pte pa bits)"
    by (simp add: is_valid_bit leaf_pte_def bit_or_iff VALID_def)
  from assms have "is_leaf bits" by (simp add: is_leaf_def)
  then show "is_leaf (leaf_pte pa bits)"
    by (auto simp: is_leaf_bit leaf_pte_def bit_or_iff)
qed

section \<open>The tree of tables behind a root\<close>

abbreviation pte_at :: "memory \<Rightarrow> nat \<Rightarrow> nat \<Rightarrow> pte" where
  "pte_at m t i \<equiv> get_entry m (t + 8 * i)"

text \<open>The table reached from table \<open>t\<close> along a path of indices.\<close>

fun tbl :: "memory \<Rightarrow> nat \<Rightarrow> nat list \<Rightarrow> nat option" where
  "tbl m t [] = Some t"
| "tbl m t (i # p) =
     (let e = pte_at m t i in if is_valid e \<and> is_branch e then tbl m (next_table e) p else None)"

text \<open>The leaf a walk along a full path ends in, with its level.\<close>

fun leaf_of :: "memory \<Rightarrow> nat \<Rightarrow> nat list \<Rightarrow> (pte \<times> nat) option" where
  "leaf_of m t [] = None"
| "leaf_of m t (i # p) =
     (let e = pte_at m t i in
      if is_invalid e then None
      else if is_leaf e then Some (e, length p)
      else leaf_of m (next_table e) p)"

definition vpath :: "u64 \<Rightarrow> nat list" where
  "vpath va = [unat (vpn va ! 2), unat (vpn va ! 1), unat (vpn va ! 0)]"

definition ok_path :: "nat list \<Rightarrow> bool" where
  "ok_path p \<longleftrightarrow> length p \<le> 2 \<and> (\<forall>i \<in> set p. i < 512)"

definition full_path :: "nat list \<Rightarrow> bool" where
  "full_path p \<longleftrightarrow> length p = 3 \<and> (\<forall>i \<in> set p. i < 512)"

definition pt_inv :: "linker \<Rightarrow> nat \<Rightarrow> 'z kmem_scheme \<Rightarrow> bool" where
  "pt_inv L root s \<longleftrightarrow>
     frames_inv L s \<and>
     (\<forall>p t. ok_path p \<longrightarrow> tbl (mem s) root p = Some t \<longrightarrow> (t, 1) \<in> held L s) \<and>
     (\<forall>p q t. ok_path p \<longrightarrow> ok_path q \<longrightarrow> tbl (mem s) root p = Some t \<longrightarrow>
        tbl (mem s) root q = Some t \<longrightarrow> p = q)"

lemma vpath_full: "full_path (vpath va)"
  using vpn_lt [of 0 va] vpn_lt [of 1 va] vpn_lt [of 2 va] by (simp add: full_path_def vpath_def)

lemma full_path_take: "full_path p \<Longrightarrow> k \<le> 2 \<Longrightarrow> ok_path (take k p)"
  by (auto simp: full_path_def ok_path_def dest: in_set_takeD)

lemma tbl_append:
  "tbl m t (p @ q) = (case tbl m t p of None \<Rightarrow> None | Some t1 \<Rightarrow> tbl m t1 q)"
  by (induction p arbitrary: t) (simp_all add: Let_def)

lemma leaf_of_append: "tbl m t p = Some t1 \<Longrightarrow> leaf_of m t (p @ q) = leaf_of m t1 q"
  by (induction p arbitrary: t)
    (auto simp: Let_def is_invalid_def is_branch_def split: if_splits)

lemma leaf_of_frame:
  assumes "\<And>k t. k < length p \<Longrightarrow> tbl m r (take k p) = Some t \<Longrightarrow> pte_at m' t (p ! k) = pte_at m t (p ! k)"
  shows "leaf_of m' r p = leaf_of m r p"
  using assms
proof (induction p arbitrary: r)
  case Nil
  show ?case by simp
next
  case (Cons i p)
  let ?e = "pte_at m r i"
  have e: "pte_at m' r i = ?e" using Cons.prems [of 0 r] by simp
  show ?case
  proof (cases "is_valid ?e \<and> is_branch ?e")
    case True
    have "leaf_of m' (next_table ?e) p = leaf_of m (next_table ?e) p"
    proof (rule Cons.IH)
      show "pte_at m' t (p ! k) = pte_at m t (p ! k)"
        if "k < length p" "tbl m (next_table ?e) (take k p) = Some t" for k t
        using Cons.prems [of "Suc k" t] that True by simp
    qed
    with e True show ?thesis by (simp add: Let_def)
  next
    case False
    with e show ?thesis by (auto simp: Let_def is_invalid_def is_branch_def)
  qed
qed

lemma pt_invD:
  assumes "pt_inv L root s"
  shows "frames_inv L s"
    "\<And>p t. ok_path p \<Longrightarrow> tbl (mem s) root p = Some t \<Longrightarrow> (t, 1) \<in> held L s"
    "\<And>p q t. ok_path p \<Longrightarrow> ok_path q \<Longrightarrow> tbl (mem s) root p = Some t \<Longrightarrow>
        tbl (mem s) root q = Some t \<Longrightarrow> p = q"
  using assms unfolding pt_inv_def by blast+

lemma held_page_word:
  assumes "frames_inv L s" "(t, 1) \<in> held L s"
  shows "t mod 4096 = 0" "t < 2 ^ 56" "0 < t"
  using held_bounds [OF assms] assms(1) by (auto simp: frames_inv_def)

text \<open>Two different slots of the tree do not overlap.\<close>

lemma slots_apart:
  assumes "pt_inv L root s" "ok_path p" "ok_path q"
    "tbl (mem s) root p = Some t" "tbl (mem s) root q = Some u"
    "i < 512" "j < 512" "(p, i) \<noteq> (q, j)"
  shows "t + 8 * i + 8 \<le> u + 8 * j \<or> u + 8 * j + 8 \<le> t + 8 * i"
proof (cases "t = u")
  case True
  then have "p = q" using pt_invD(3) [OF assms(1-3)] assms(4,5) by simp
  with assms(8) True show ?thesis by auto
next
  case False
  have "(t, 1) \<in> held L s" "(u, 1) \<in> held L s" using pt_invD(2) [OF assms(1)] assms(2-5) by auto
  with held_disjoint [of t 1 L s u 1] False assms(6,7) show ?thesis by auto
qed

text \<open>
  Memory that keeps every entry of the tree but the one in slot \<open>i\<close> of the table at path
  \<open>p\<close> keeps every table and every leaf whose path does not run through that slot.
\<close>

definition same_but :: "memory \<Rightarrow> memory \<Rightarrow> nat \<Rightarrow> nat list \<Rightarrow> nat \<Rightarrow> bool" where
  "same_but m m' root p i \<longleftrightarrow>
     (\<forall>q t j. ok_path q \<longrightarrow> tbl m root q = Some t \<longrightarrow> j < 512 \<longrightarrow> (q, j) \<noteq> (p, i) \<longrightarrow>
        pte_at m' t j = pte_at m t j)"

definition through :: "nat list \<Rightarrow> nat \<Rightarrow> nat list \<Rightarrow> bool" where
  "through p i q \<longleftrightarrow> (\<exists>r. q = p @ i # r)"

lemma through_take: "through p i (take k q) \<Longrightarrow> through p i q"
  unfolding through_def by (metis append_Cons append_assoc append_take_drop_id)

lemma through_self [simp]: "\<not> through p i p" "through p i (p @ i # r)"
  by (auto simp: through_def)

lemma ok_path_snoc: "ok_path (q @ [j]) \<Longrightarrow> ok_path q \<and> j < 512"
  by (auto simp: ok_path_def)

lemma same_but_tbl:
  assumes "same_but m m' root p i" "ok_path q" "\<not> through p i q"
  shows "tbl m' root q = tbl m root q"
  using assms(2,3)
proof (induction q rule: rev_induct)
  case Nil
  show ?case by simp
next
  case (snoc j q)
  have q: "ok_path q" "j < 512" using ok_path_snoc [OF snoc.prems(1)] by auto
  have nt: "\<not> through p i q" using snoc.prems(2) by (auto simp: through_def)
  have ne: "(q, j) \<noteq> (p, i)" using snoc.prems(2) by (auto simp: through_def)
  have IH: "tbl m' root q = tbl m root q" using snoc.IH q(1) nt by blast
  show ?case
  proof (cases "tbl m root q")
    case None
    then show ?thesis by (simp add: tbl_append IH)
  next
    case (Some t)
    then have "pte_at m' t j = pte_at m t j"
      using assms(1) q ne unfolding same_but_def by blast
    with Some show ?thesis by (simp add: tbl_append IH Let_def)
  qed
qed

lemma same_but_leaf:
  assumes "same_but m m' root p i" "full_path q" "\<not> through p i q"
  shows "leaf_of m' root q = leaf_of m root q"
proof (rule leaf_of_frame)
  fix k t assume k: "k < length q" "tbl m root (take k q) = Some t"
  have "k \<le> 2" "q ! k < 512" using assms(2) k(1) by (auto simp: full_path_def)
  moreover have "(take k q, q ! k) \<noteq> (p, i)"
  proof
    assume "(take k q, q ! k) = (p, i)"
    then have "q = p @ i # drop (Suc k) q" using id_take_nth_drop [OF k(1)] by simp
    with assms(3) show False by (auto simp: through_def)
  qed
  ultimately show "pte_at m' t (q ! k) = pte_at m t (q ! k)"
    using assms(1) full_path_take [OF assms(2)] k(2) unfolding same_but_def by blast
qed

text \<open>The tables and leaves behind the slot that changed.\<close>

lemma same_but_behind:
  assumes "same_but m m' root p i" "ok_path p" "tbl m root p = Some t"
  shows "tbl m' root (p @ i # r) = tbl m' t (i # r)"
    and "leaf_of m' root (p @ i # r) = leaf_of m' t (i # r)"
proof -
  have "tbl m' root p = Some t" using same_but_tbl [OF assms(1,2)] assms(3) by simp
  then show "tbl m' root (p @ i # r) = tbl m' t (i # r)"
    and "leaf_of m' root (p @ i # r) = leaf_of m' t (i # r)"
    by (simp_all add: tbl_append leaf_of_append del: tbl.simps leaf_of.simps)
qed

lemma same_but_set_entry:
  assumes "pt_inv L root s" "ok_path p" "tbl (mem s) root p = Some t" "i < 512"
  shows "same_but (mem s) (mem (set_entry (t + 8 * i) e s)) root p i"
    and "pte_at (mem (set_entry (t + 8 * i) e s)) t i = e"
proof -
  show "same_but (mem s) (mem (set_entry (t + 8 * i) e s)) root p i"
    unfolding same_but_def
  proof (intro allI impI)
    fix q u j assume q: "ok_path q" "tbl (mem s) root q = Some u" "j < 512" "(q, j) \<noteq> (p, i)"
    then have "t + 8 * i + 8 \<le> u + 8 * j \<or> u + 8 * j + 8 \<le> t + 8 * i"
      using slots_apart [OF assms(1,2) q(1) assms(3) q(2) assms(4) q(3)] by auto
    then show "pte_at (mem (set_entry (t + 8 * i) e s)) u j = pte_at (mem s) u j"
      by (simp add: set_entry_def get_entry_def ld64_st64_disjoint)
  qed
  show "pte_at (mem (set_entry (t + 8 * i) e s)) t i = e"
    by (simp add: set_entry_def get_entry_def)
qed

text \<open>Writing an entry of a held table leaves the allocator alone.\<close>

lemma set_entry_frames:
  assumes "frames_inv L s" "(t, 1) \<in> held L s" "i < 512"
  shows "frames_inv L (set_entry (t + 8 * i) e s)"
    "held L (set_entry (t + 8 * i) e s) = held L s"
    "descriptors L (set_entry (t + 8 * i) e s) = descriptors L s"
proof -
  have same: "mem (set_entry (t + 8 * i) e s) a = mem s a" if "a \<in> desc_region L" for a
  proof -
    have "a < t \<or> t + 4096 \<le> a" using held_table_cases [OF assms(1,2) that] by simp
    then have "a < t + 8 * i \<or> t + 8 * i + 8 \<le> a" using assms(3) by auto
    then show ?thesis by (simp add: set_entry_def st64_out)
  qed
  have "ALLOC_START (set_entry (t + 8 * i) e s) = ALLOC_START s" by (simp add: set_entry_def)
  with frames_frame [of L "set_entry (t + 8 * i) e s" s] descriptors_frame [of L "set_entry (t + 8 * i) e s" s]
    same assms(1)
  show "frames_inv L (set_entry (t + 8 * i) e s)"
    "held L (set_entry (t + 8 * i) e s) = held L s"
    "descriptors L (set_entry (t + 8 * i) e s) = descriptors L s" by auto
qed

section \<open>One iteration of the walk\<close>

text \<open>
  A fresh zeroed page hung into an empty slot: the tree gains one table with no entries,
  and no leaf changes.
\<close>

lemma fresh_table_same_but:
  assumes inv: "pt_inv L root s" and p: "ok_path p" and t: "tbl (mem s) root p = Some t"
    and i: "i < 512" and z: "zallocate L 1 s = Inr (Some c, s1)"
    and s': "s' = set_entry (t + 8 * i) e s1"
  shows "same_but (mem s) (mem s') root p i" "pte_at (mem s') t i = e"
    "\<And>k. k < 512 \<Longrightarrow> pte_at (mem s') c k = 0"
proof -
  note fr = pt_invD(1) [OF inv]
  note za = zallocate_Some [OF fr z]
  have page: "u + 4096 \<le> c \<or> c + 4096 \<le> u" if "(u, 1) \<in> held L s" for u
    using held_disjoint [of u 1 L s1 c 1] za(2,3) that by auto
  have keep: "pte_at (mem s1) u j = pte_at (mem s) u j" if "(u, 1) \<in> held L s" "j < 512" for u j
    unfolding get_entry_def
  proof (rule ld64_cong)
    fix x assume x: "u + 8 * j \<le> x" "x < u + 8 * j + 8"
    have "x \<notin> desc_region L" using held_table_cases [OF fr that(1), of x] x that(2) by auto
    with x that(2) page [OF that(1)] show "mem s1 x = mem s x" by (intro za(8)) auto
  qed
  have th: "(t, 1) \<in> held L s" using pt_invD(2) [OF inv p t] .
  show "same_but (mem s) (mem s') root p i"
    unfolding same_but_def
  proof (intro allI impI)
    fix q u j assume q: "ok_path q" "tbl (mem s) root q = Some u" "j < 512" "(q, j) \<noteq> (p, i)"
    have apart: "t + 8 * i + 8 \<le> u + 8 * j \<or> u + 8 * j + 8 \<le> t + 8 * i"
      using slots_apart [OF inv p q(1) t q(2) i q(3)] q(4) by auto
    have "pte_at (mem s') u j = pte_at (mem s1) u j"
      using apart by (simp add: s' set_entry_def get_entry_def ld64_st64_disjoint)
    with keep [OF pt_invD(2) [OF inv q(1,2)] q(3)] show "pte_at (mem s') u j = pte_at (mem s) u j" by simp
  qed
  show "pte_at (mem s') t i = e" by (simp add: s' set_entry_def get_entry_def)
  fix k :: nat assume k: "k < 512"
  have "pte_at (mem s') c k = pte_at (mem s1) c k"
    using page [OF th] i k by (auto simp: s' set_entry_def get_entry_def ld64_st64_disjoint)
  moreover have "rd_bytes (mem s1) (c + 8 * k) 8 = replicate 8 0"
    by (rule nth_equalityI) (use za(7) k in auto)
  then have "pte_at (mem s1) c k = 0" by (simp add: get_entry_def ld64_def)
  ultimately show "pte_at (mem s') c k = 0" by simp
qed

text \<open>
  \<open>grown\<close>: the tree of \<open>s'\<close> is the tree of \<open>s\<close> with the table at path \<open>q\<close> added if it
  was missing; the allocator paid one page for it.
\<close>

definition missing :: "memory \<Rightarrow> nat \<Rightarrow> nat list set \<Rightarrow> nat list set" where
  "missing m root Q = {q \<in> Q. tbl m root q = None}"

definition grown :: "linker \<Rightarrow> nat \<Rightarrow> nat list \<Rightarrow> 'z kmem_scheme \<Rightarrow> 'z kmem_scheme \<Rightarrow> bool" where
  "grown L root p s s' \<longleftrightarrow>
     pt_inv L root s' \<and>
     (\<forall>q. ok_path q \<longrightarrow> q \<noteq> p \<longrightarrow> tbl (mem s') root q = tbl (mem s) root q) \<and>
     tbl (mem s') root p \<noteq> None \<and>
     (\<forall>t. tbl (mem s) root p = Some t \<longrightarrow> s' = s) \<and>
     (\<forall>q. full_path q \<longrightarrow> leaf_of (mem s') root q = leaf_of (mem s) root q) \<and>
     free_count (descriptors L s) =
       free_count (descriptors L s') + (if tbl (mem s) root p = None then 1 else 0) \<and>
     held L s \<subseteq> held L s' \<and> ALLOC_START s' = ALLOC_START s \<and> kmem.more s' = kmem.more s"

lemma grown_missing:
  assumes "grown L root p s s'" "p \<in> Q" "finite Q" "\<forall>q \<in> Q. ok_path q"
  shows "free_count (descriptors L s) + card (missing (mem s') root Q) =
         free_count (descriptors L s') + card (missing (mem s) root Q)"
proof -
  have eq: "missing (mem s') root Q = missing (mem s) root Q - {p}"
    using assms(1,4) by (auto simp: grown_def missing_def)
  have fin: "finite (missing (mem s) root Q)" using assms(3) by (simp add: missing_def)
  show ?thesis
  proof (cases "tbl (mem s) root p")
    case None
    then have "p \<in> missing (mem s) root Q" using assms(2) by (simp add: missing_def)
    then have "card (missing (mem s) root Q) = Suc (card (missing (mem s') root Q))"
      using card_Suc_Diff1 [OF fin] by (simp add: eq)
    with assms(1) None show ?thesis by (simp add: grown_def)
  next
    case (Some t)
    with assms(1) have "s' = s" unfolding grown_def by blast
    then show ?thesis by simp
  qed
qed

lemma fresh_table_grown:
  assumes inv: "pt_inv L root s" and p: "ok_path p" "length p \<le> 1"
    and t: "tbl (mem s) root p = Some t" and i: "i < 512"
    and ni: "is_invalid (pte_at (mem s) t i)"
    and z: "zallocate L 1 s = Inr (Some c, s1)"
    and s': "s' = set_entry (t + 8 * i) (branch_pte c) s1"
  shows "grown L root (p @ [i]) s s'" "tbl (mem s') root (p @ [i]) = Some c"
proof -
  note fr = pt_invD(1) [OF inv]
  note za = zallocate_Some [OF fr z]
  note fs = fresh_table_same_but [OF inv p(1) t i z s']
  have ch: "(c, 1) \<in> held L s1" "(t, 1) \<in> held L s1" using za(2) pt_invD(2) [OF inv p(1) t] by auto
  note cw = held_page_word [OF za(1) ch(1)]
  note e = branch_pte_valid [OF cw(1,2)] next_table_branch_pte [OF cw(1,2)]
  have fr': "frames_inv L s'" "held L s' = insert (c, 1) (held L s)"
    "descriptors L s' = descriptors L s1"
    using set_entry_frames [OF za(1) ch(2) i] za(2) by (simp_all add: s')
  have old: "tbl (mem s) root (p @ i # r) = None" "leaf_of (mem s) root (p @ i # r) = None" for r
    using t ni by (simp_all add: tbl_append leaf_of_append Let_def is_invalid_def)
  have new: "tbl (mem s') root (p @ [i]) = Some c"
    using same_but_behind(1) [OF fs(1) p(1) t, of "[]"] fs(2) e by simp
  have deep: "tbl (mem s') root (p @ i # k # r) = None" if "k < 512" for k r
    using same_but_behind(1) [OF fs(1) p(1) t, of "k # r"] fs(2) fs(3) [OF that] e by simp
  have leafs: "leaf_of (mem s') root (p @ i # r) = None" if "\<forall>k \<in> set r. k < 512" for r
    using same_but_behind(2) [OF fs(1) p(1) t, of r] fs(2,3) e that
    by (cases r) (auto simp: is_invalid_def is_branch_def Let_def)
  have tabs: "tbl (mem s') root q = (if q = p @ [i] then Some c else tbl (mem s) root q)"
    if q: "ok_path q" for q
  proof (cases "through p i q")
    case True
    then obtain r where r: "q = p @ i # r" by (auto simp: through_def)
    then show ?thesis using new deep old q by (cases r) (auto simp: ok_path_def)
  next
    case False
    then show ?thesis using same_but_tbl [OF fs(1) q False] by (auto simp: through_def)
  qed
  have "pt_inv L root s'"
    unfolding pt_inv_def
  proof (intro conjI allI impI)
    show "frames_inv L s'" by (rule fr')
    show "(u, 1) \<in> held L s'" if "ok_path q" "tbl (mem s') root q = Some u" for q u
      using that tabs pt_invD(2) [OF inv that(1)] fr'(2) by (auto split: if_splits)
    show "q = r" if "ok_path q" "ok_path r" "tbl (mem s') root q = Some u" "tbl (mem s') root r = Some u"
      for q r u
    proof -
      have "tbl (mem s) root x \<noteq> Some c" if "ok_path x" for x
        using pt_invD(2) [OF inv that, of c] za(3) by auto
      with that pt_invD(3) [OF inv that(1,2)] show ?thesis
        by (auto simp: tabs split: if_splits)
    qed
  qed
  moreover have "leaf_of (mem s') root q = leaf_of (mem s) root q" if q: "full_path q" for q
  proof (cases "through p i q")
    case True
    then obtain r where "q = p @ i # r" by (auto simp: through_def)
    with leafs [of r] old q show ?thesis by (auto simp: full_path_def)
  next
    case False
    then show ?thesis using same_but_leaf [OF fs(1) q False] by simp
  qed
  ultimately show "grown L root (p @ [i]) s s'"
    unfolding grown_def using tabs new old(1) [of "[]"] fr' za(5,6) zallocate_free_count [OF fr z]
    by (auto simp: s' set_entry_def)
  show "tbl (mem s') root (p @ [i]) = Some c" by (rule new)
qed

lemma ensure_table_spec:
  assumes inv: "pt_inv L root s" and p: "ok_path p" "length p \<le> 1"
    and t: "tbl (mem s) root p = Some t" and i: "i < 512"
    and nl: "is_valid (pte_at (mem s) t i) \<longrightarrow> is_branch (pte_at (mem s) t i)"
    and fc: "tbl (mem s) root (p @ [i]) = None \<longrightarrow> 0 < free_count (descriptors L s)"
  shows "\<exists>s'. ensure_table L (t + 8 * i) s = Inr s' \<and> grown L root (p @ [i]) s s' \<and>
           tbl (mem s') root (p @ [i]) = Some (next_table (pte_at (mem s') t i))"
proof (cases "is_invalid (pte_at (mem s) t i)")
  case True
  note fr = pt_invD(1) [OF inv]
  have "tbl (mem s) root (p @ [i]) = None"
    using t True by (simp add: tbl_append Let_def is_invalid_def)
  with fc obtain c s1 where z: "zallocate L 1 s = Inr (Some c, s1)"
    using zallocate_page_succeeds [OF fr] by auto
  let ?s = "set_entry (t + 8 * i) (branch_pte c) s1"
  have "(c, 1) \<in> held L s1" using zallocate_Some(2) [OF fr z] by simp
  note cw = held_page_word [OF zallocate_Some(1) [OF fr z] this]
  have "next_table (pte_at (mem ?s) t i) = c"
    using fresh_table_same_but(2) [OF inv p(1) t i z refl] next_table_branch_pte [OF cw(1,2)] by simp
  moreover have "ensure_table L (t + 8 * i) s = Inr ?s" using True z by (simp add: ensure_table_def)
  moreover note fresh_table_grown [OF inv p t i True z refl]
  ultimately show ?thesis by (intro exI [of _ ?s]) simp
next
  case False
  then have e: "is_valid (pte_at (mem s) t i)" "is_branch (pte_at (mem s) t i)"
    using nl by (auto simp: is_invalid_def)
  have "tbl (mem s) root (p @ [i]) = Some (next_table (pte_at (mem s) t i))"
    using t e by (simp add: tbl_append Let_def)
  then show ?thesis using False inv by (auto simp: ensure_table_def grown_def)
qed

section \<open>The walk of map and the leaf it writes\<close>

text \<open>
  \<open>pt_more\<close>: tables may have been added, paid for by the allocator out of the paths of \<open>Q\<close>;
  everything else about the tree is as it was.
\<close>

definition pt_more ::
  "linker \<Rightarrow> nat \<Rightarrow> nat list set \<Rightarrow> 'z kmem_scheme \<Rightarrow> 'z kmem_scheme \<Rightarrow> bool"
where
  "pt_more L root Q s s' \<longleftrightarrow>
     pt_inv L root s' \<and>
     (\<forall>q t. ok_path q \<longrightarrow> tbl (mem s) root q = Some t \<longrightarrow> tbl (mem s') root q = Some t) \<and>
     (\<forall>q. full_path q \<longrightarrow> leaf_of (mem s') root q = leaf_of (mem s) root q) \<and>
     free_count (descriptors L s) + card (missing (mem s') root Q) =
       free_count (descriptors L s') + card (missing (mem s) root Q) \<and>
     held L s \<subseteq> held L s' \<and> ALLOC_START s' = ALLOC_START s \<and> kmem.more s' = kmem.more s"

lemma pt_more_refl: "pt_inv L root s \<Longrightarrow> pt_more L root Q s s"
  by (simp add: pt_more_def)

lemma pt_more_trans: "pt_more L root Q s s1 \<Longrightarrow> pt_more L root Q s1 s2 \<Longrightarrow> pt_more L root Q s s2"
  unfolding pt_more_def by auto

lemma pt_more_enough:
  "pt_more L root Q s s1 \<Longrightarrow> card (missing (mem s) root Q) \<le> free_count (descriptors L s) \<Longrightarrow>
   card (missing (mem s1) root Q) \<le> free_count (descriptors L s1)"
  by (simp add: pt_more_def)

lemma grown_pt_more:
  assumes "grown L root p s s'" "p \<in> Q" "finite Q" "\<forall>q \<in> Q. ok_path q"
  shows "pt_more L root Q s s'"
proof -
  have "tbl (mem s') root q = Some t" if "ok_path q" "tbl (mem s) root q = Some t" for q t
    using that assms(1) by (cases "q = p") (auto simp: grown_def)
  with assms(1) grown_missing [OF assms] show ?thesis
    unfolding pt_more_def grown_def by blast
qed

text \<open>The slot of level \<open>k\<close> on the way to a leaf of level at most \<open>l < k\<close> holds no leaf.\<close>

definition no_leaf_above :: "memory \<Rightarrow> nat \<Rightarrow> u64 \<Rightarrow> nat \<Rightarrow> bool" where
  "no_leaf_above m root va l \<longleftrightarrow> (\<forall>e k. leaf_of m root (vpath va) = Some (e, k) \<longrightarrow> k \<le> l)"

lemma no_leaf_slot:
  assumes "no_leaf_above m root va l" "k + l < 2" "tbl m root (take k (vpath va)) = Some t"
    "is_valid (pte_at m t (vpath va ! k))"
  shows "is_branch (pte_at m t (vpath va ! k))"
proof (rule ccontr)
  assume leaf: "\<not> is_branch (pte_at m t (vpath va ! k))"
  have k: "k < length (vpath va)" using assms(2) by (simp add: vpath_def)
  have "leaf_of m root (vpath va) = leaf_of m t (vpath va ! k # drop (Suc k) (vpath va))"
    using leaf_of_append [OF assms(3), of "drop k (vpath va)"] Cons_nth_drop_Suc [OF k] by simp
  also have "\<dots> = Some (pte_at m t (vpath va ! k), 2 - k)"
    using assms(4) leaf by (simp add: Let_def is_invalid_def is_branch_def) (simp add: vpath_def)
  finally show False using assms(1,2) by (auto simp: no_leaf_above_def)
qed

lemma no_leaf_above_more:
  "pt_more L root Q s s' \<Longrightarrow> no_leaf_above (mem s') root va l = no_leaf_above (mem s) root va l"
  by (simp add: pt_more_def no_leaf_above_def vpath_full)

lemma vpath_nth: "k < 3 \<Longrightarrow> vpath va ! k = unat (vpn va ! (2 - k))"
  by (cases "k = 0"; cases "k = 1") (auto simp: vpath_def nth_Cons')

lemma map_walk_spec:
  assumes "pt_inv L root s" "finite Q" "\<forall>q \<in> Q. ok_path q"
    and Q: "\<forall>j. 0 < j \<and> j \<le> 2 - l \<longrightarrow> take j (vpath va) \<in> Q"
    and enough: "card (missing (mem s) root Q) \<le> free_count (descriptors L s)"
    and nl: "no_leaf_above (mem s) root va l"
    and k: "k + d + l = 2" and t: "tbl (mem s) root (take k (vpath va)) = Some t"
  shows "\<exists>s' u. map_walk L (vpn va) (rev [l..<l + d]) (t + 8 * (vpath va ! k)) s =
             Inr (u + 8 * (vpath va ! (k + d)), s') \<and>
           pt_more L root Q s s' \<and> tbl (mem s') root (take (k + d) (vpath va)) = Some u"
  using assms(1) enough nl k t
proof (induction d arbitrary: k t s)
  case 0
  then show ?case by (auto intro: pt_more_refl)
next
  case (Suc d)
  let ?p = "take k (vpath va)" and ?i = "vpath va ! k"
  have k: "k + d + l = 1" "k \<le> 1" using Suc.prems(4) by auto
  have "k < length (vpath va)" using k by (simp add: vpath_def)
  then have snoc: "?p @ [?i] = take (Suc k) (vpath va)" by (rule take_Suc_conv_app_nth [symmetric])
  have p: "ok_path ?p" "length ?p \<le> 1" using full_path_take [OF vpath_full] k(2) by auto
  have i: "?i < 512" using k vpath_full [of va] by (auto simp: full_path_def)
  have inQ: "?p @ [?i] \<in> Q" unfolding snoc using Q k by auto
  have fc: "tbl (mem s) root (?p @ [?i]) = None \<longrightarrow> 0 < free_count (descriptors L s)"
  proof
    assume "tbl (mem s) root (?p @ [?i]) = None"
    then have "?p @ [?i] \<in> missing (mem s) root Q" using inQ by (simp add: missing_def)
    then have "0 < card (missing (mem s) root Q)"
      using assms(2) by (auto simp: card_gt_0_iff missing_def)
    with Suc.prems(2) show "0 < free_count (descriptors L s)" by simp
  qed
  have "is_valid (pte_at (mem s) t ?i) \<longrightarrow> is_branch (pte_at (mem s) t ?i)"
    using no_leaf_slot [OF Suc.prems(3) _ Suc.prems(5)] k by auto
  from ensure_table_spec [OF Suc.prems(1) p Suc.prems(5) i this fc]
  obtain s1 where s1: "ensure_table L (t + 8 * ?i) s = Inr s1" "grown L root (?p @ [?i]) s s1"
    "tbl (mem s1) root (take (Suc k) (vpath va)) = Some (next_table (pte_at (mem s1) t ?i))"
    unfolding snoc by blast
  let ?c = "next_table (pte_at (mem s1) t ?i)"
  have m1: "pt_more L root Q s s1" using s1(2) inQ assms(2,3) by (rule grown_pt_more)
  then have inv1: "pt_inv L root s1" by (simp add: pt_more_def)
  have ok1: "ok_path (take (Suc k) (vpath va))" using full_path_take [OF vpath_full] k(2) by simp
  have pos: "0 < ?c"
    using held_page_word(3) [OF pt_invD(1) [OF inv1] pt_invD(2) [OF inv1 ok1 s1(3)]] .
  from Suc.IH [OF inv1 pt_more_enough [OF m1 Suc.prems(2)] _ _ s1(3)] k
    no_leaf_above_more [OF m1] Suc.prems(3)
  obtain s2 u where s2: "map_walk L (vpn va) (rev [l..<l + d]) (?c + 8 * (vpath va ! Suc k)) s1 =
        Inr (u + 8 * (vpath va ! (Suc k + d)), s2)"
      "pt_more L root Q s1 s2" "tbl (mem s2) root (take (Suc k + d) (vpath va)) = Some u"
    by auto
  have "l + d = 2 - Suc k" using k(1) by simp
  then have ld: "vpn va ! (l + d) = vpn va ! (2 - Suc k)" by simp
  have "map_walk L (vpn va) (rev [l..<l + Suc d]) (t + 8 * ?i) s =
          map_walk L (vpn va) (rev [l..<l + d]) (?c + 8 * (vpath va ! Suc k)) s1"
    using s1(1) pos k ld vpath_nth [of "Suc k" va] by (simp add: Let_def)
  with s2 pt_more_trans [OF m1 s2(2)] show ?case by auto
qed

text \<open>
  A slot that ends up without a table behind it: the tables behind it leave the tree, the
  leaves behind it become the slot's own.
\<close>

lemma slot_cut:
  assumes inv: "pt_inv L root s" and p: "ok_path p" and t: "tbl (mem s) root p = Some t"
    and sb: "same_but (mem s) (mem s') root p i" "pte_at (mem s') t i = e"
    and e: "is_valid e \<longrightarrow> is_leaf e" and fr: "frames_inv L s'"
    and hd: "\<forall>q u. ok_path q \<longrightarrow> \<not> through p i q \<longrightarrow> tbl (mem s) root q = Some u \<longrightarrow> (u, 1) \<in> held L s'"
  shows "pt_inv L root s'"
    "\<And>q. full_path q \<Longrightarrow> leaf_of (mem s') root q =
       (if through p i q then if is_valid e then Some (e, 2 - length p) else None
        else leaf_of (mem s) root q)"
    "\<And>q. ok_path q \<Longrightarrow> tbl (mem s') root q = (if through p i q then None else tbl (mem s) root q)"
proof -
  show tabs: "tbl (mem s') root q = (if through p i q then None else tbl (mem s) root q)"
    if "ok_path q" for q
    using same_but_tbl [OF sb(1) that] same_but_behind(1) [OF sb(1) p t] sb(2) e
    by (auto simp: through_def is_branch_def)
  show "leaf_of (mem s') root q =
       (if through p i q then if is_valid e then Some (e, 2 - length p) else None
        else leaf_of (mem s) root q)" if "full_path q" for q
  proof (cases "through p i q")
    case True
    then obtain r where r: "q = p @ i # r" by (auto simp: through_def)
    then have "length r = 2 - length p" using that by (auto simp: full_path_def)
    with True r show ?thesis
      using same_but_behind(2) [OF sb(1) p t, of r] sb(2) e by (simp add: is_invalid_def)
  next
    case False
    with same_but_leaf [OF sb(1) that] show ?thesis by simp
  qed
  show "pt_inv L root s'"
    unfolding pt_inv_def
  proof (intro conjI allI impI)
    show "frames_inv L s'" by (rule fr)
    show "(u, 1) \<in> held L s'" if "ok_path q" "tbl (mem s') root q = Some u" for q u
      using that hd by (auto simp: tabs split: if_splits)
    show "q = r" if "ok_path q" "ok_path r" "tbl (mem s') root q = Some u" "tbl (mem s') root r = Some u"
      for q r u
      using that pt_invD(3) [OF inv that(1,2)] by (auto simp: tabs split: if_splits)
  qed
qed

lemma leaf_write:
  assumes inv: "pt_inv L root s" and p: "ok_path p" and t: "tbl (mem s) root p = Some t"
    and i: "i < 512" and e: "is_valid e" "is_leaf e"
    and s': "s' = set_entry (t + 8 * i) e s"
  shows "pt_inv L root s'"
    "\<And>q. full_path q \<Longrightarrow> leaf_of (mem s') root q =
       (if through p i q then Some (e, 2 - length p) else leaf_of (mem s) root q)"
    "\<And>q. ok_path q \<Longrightarrow> tbl (mem s') root q = (if through p i q then None else tbl (mem s) root q)"
    "held L s' = held L s" "descriptors L s' = descriptors L s"
proof -
  note sb = same_but_set_entry [OF inv p t i, of e, folded s']
  note fr = set_entry_frames [OF pt_invD(1) [OF inv] pt_invD(2) [OF inv p t] i, of e, folded s']
  have hd: "\<forall>q u. ok_path q \<longrightarrow> \<not> through p i q \<longrightarrow> tbl (mem s) root q = Some u \<longrightarrow> (u, 1) \<in> held L s'"
    using pt_invD(2) [OF inv] fr(2) by simp
  have e': "is_valid e \<longrightarrow> is_leaf e" using e(2) by simp
  note cut = slot_cut [OF inv p t sb e' fr(1) hd]
  show "pt_inv L root s'"
    "\<And>q. full_path q \<Longrightarrow> leaf_of (mem s') root q =
       (if through p i q then Some (e, 2 - length p) else leaf_of (mem s) root q)"
    "\<And>q. ok_path q \<Longrightarrow> tbl (mem s') root q = (if through p i q then None else tbl (mem s) root q)"
    "held L s' = held L s" "descriptors L s' = descriptors L s"
    using cut fr e(1) by auto
qed

lemma through_vpath:
  assumes "full_path q" "l \<le> 2"
  shows "through (take (2 - l) (vpath va)) (vpath va ! (2 - l)) q \<longleftrightarrow>
         take (3 - l) q = take (3 - l) (vpath va)"
proof -
  have len: "2 - l < length (vpath va)" "length q = 3" "length (vpath va) = 3" "Suc (2 - l) = 3 - l"
    using assms by (auto simp: vpath_def full_path_def)
  have eq: "take (2 - l) (vpath va) @ [vpath va ! (2 - l)] = take (3 - l) (vpath va)"
    using take_Suc_conv_app_nth [OF len(1)] len(4) by simp
  show ?thesis
  proof
    assume "through (take (2 - l) (vpath va)) (vpath va ! (2 - l)) q"
    then obtain r where "q = take (2 - l) (vpath va) @ [vpath va ! (2 - l)] @ r"
      by (auto simp: through_def)
    then have "q = take (3 - l) (vpath va) @ r" using eq by (metis append_assoc)
    then show "take (3 - l) q = take (3 - l) (vpath va)" by (simp add: len)
  next
    assume "take (3 - l) q = take (3 - l) (vpath va)"
    then have "q = (take (2 - l) (vpath va) @ [vpath va ! (2 - l)]) @ drop (3 - l) q"
      using eq by (metis append_take_drop_id)
    then show "through (take (2 - l) (vpath va)) (vpath va ! (2 - l)) q"
      unfolding through_def by (metis append_Cons append_assoc append_Nil)
  qed
qed

text \<open>The paths of the tables a mapping of level \<open>l\<close> at \<open>va\<close> needs below the root.\<close>

definition map_paths :: "u64 \<Rightarrow> nat \<Rightarrow> nat list set" where
  "map_paths va l = (\<lambda>j. take j (vpath va)) ` {1..2 - l}"

lemma map_paths_ok: "q \<in> map_paths va l \<Longrightarrow> ok_path q"
  using full_path_take [OF vpath_full] by (auto simp: map_paths_def)

lemma sv39_map_spec:
  assumes "pt_inv L root s" "l \<le> 2" "bits AND RWX \<noteq> 0" "no_leaf_above (mem s) root va l"
    and Q: "finite Q" "\<forall>q \<in> Q. ok_path q" "map_paths va l \<subseteq> Q"
    and enough: "card (missing (mem s) root Q) \<le> free_count (descriptors L s)"
  shows "\<exists>s1 s'. sv39_map L root va pa bits l s = Inr s' \<and> pt_more L root Q s s1 \<and> pt_inv L root s' \<and>
           (\<forall>q. full_path q \<longrightarrow> leaf_of (mem s') root q =
              (if take (3 - l) q = take (3 - l) (vpath va) then Some (leaf_pte pa bits, l)
               else leaf_of (mem s) root q)) \<and>
           (\<forall>q. ok_path q \<longrightarrow> tbl (mem s') root q =
              (if through (take (2 - l) (vpath va)) (vpath va ! (2 - l)) q then None
               else tbl (mem s1) root q)) \<and>
           held L s' = held L s1 \<and> descriptors L s' = descriptors L s1 \<and>
           ALLOC_START s' = ALLOC_START s \<and> kmem.more s' = kmem.more s"
proof -
  have root: "tbl (mem s) root (take 0 (vpath va)) = Some root" by simp
  have paths: "\<forall>j. 0 < j \<and> j \<le> 2 - l \<longrightarrow> take j (vpath va) \<in> Q"
    using Q(3) by (auto simp: map_paths_def)
  have "0 + (2 - l) + l = 2" using assms(2) by simp
  from map_walk_spec [OF assms(1) Q(1,2) paths enough assms(4) this root]
  obtain s1 u where w: "map_walk L (vpn va) (rev [l..<l + (2 - l)]) (root + 8 * (vpath va ! 0)) s =
      Inr (u + 8 * (vpath va ! (2 - l)), s1)"
    "pt_more L root Q s s1" "tbl (mem s1) root (take (2 - l) (vpath va)) = Some u"
    unfolding add_0 by blast
  have two: "l + (2 - l) = 2" using assms(2) by simp
  have v0: "vpath va ! 0 = unat (vpn va ! 2)" by (simp add: vpath_def)
  let ?s = "set_entry (u + 8 * (vpath va ! (2 - l))) (leaf_pte pa bits) s1"
  have inv1: "pt_inv L root s1" using w(2) by (simp add: pt_more_def)
  have p: "ok_path (take (2 - l) (vpath va))" using full_path_take [OF vpath_full] by simp
  have i: "vpath va ! (2 - l) < 512" using vpath_full [of va] by (auto simp: full_path_def)
  have "length (take (2 - l) (vpath va)) = 2 - l" by (simp add: vpath_def)
  then have lvl: "2 - length (take (2 - l) (vpath va)) = l" using assms(2) by simp
  note lw = leaf_write [OF inv1 p w(3) i leaf_pte_valid [OF assms(3)] refl]
  have "sv39_map L root va pa bits l s = Inr ?s"
    using w(1) assms(3) by (simp add: sv39_map_def two v0)
  moreover have "leaf_of (mem ?s) root q =
      (if take (3 - l) q = take (3 - l) (vpath va) then Some (leaf_pte pa bits, l)
       else leaf_of (mem s) root q)" if "full_path q" for q
    using lw(2) [OF that, of pa, unfolded lvl through_vpath [OF that assms(2)]] w(2) that
    by (simp add: pt_more_def)
  ultimately show ?thesis
    using w(2) lw(1,3,4,5) by (intro exI [of _ s1] exI [of _ ?s]) (simp add: pt_more_def set_entry_def)
qed

text \<open>A page mapping keeps every table; \<open>pt_grow\<close> is \<open>pt_more\<close> without the leaves.\<close>

definition pt_grow ::
  "linker \<Rightarrow> nat \<Rightarrow> nat list set \<Rightarrow> 'z kmem_scheme \<Rightarrow> 'z kmem_scheme \<Rightarrow> bool"
where
  "pt_grow L root Q s s' \<longleftrightarrow>
     pt_inv L root s' \<and>
     (\<forall>q t. ok_path q \<longrightarrow> tbl (mem s) root q = Some t \<longrightarrow> tbl (mem s') root q = Some t) \<and>
     free_count (descriptors L s) + card (missing (mem s') root Q) =
       free_count (descriptors L s') + card (missing (mem s) root Q) \<and>
     held L s \<subseteq> held L s' \<and> ALLOC_START s' = ALLOC_START s \<and> kmem.more s' = kmem.more s"

lemma pt_grow_refl: "pt_inv L root s \<Longrightarrow> pt_grow L root Q s s"
  by (simp add: pt_grow_def)

lemma pt_grow_trans: "pt_grow L root Q s s1 \<Longrightarrow> pt_grow L root Q s1 s2 \<Longrightarrow> pt_grow L root Q s s2"
  unfolding pt_grow_def by auto

lemma pt_grow_enough:
  "pt_grow L root Q s s1 \<Longrightarrow> card (missing (mem s) root Q) \<le> free_count (descriptors L s) \<Longrightarrow>
   card (missing (mem s1) root Q) \<le> free_count (descriptors L s1)"
  by (simp add: pt_grow_def)

lemma map_page_spec:
  assumes "pt_inv L root s" "bits AND RWX \<noteq> 0" "no_leaf_above (mem s) root va 0"
    and Q: "finite Q" "\<forall>q \<in> Q. ok_path q" "map_paths va 0 \<subseteq> Q"
    and enough: "card (missing (mem s) root Q) \<le> free_count (descriptors L s)"
  shows "\<exists>s'. sv39_map L root va pa bits 0 s = Inr s' \<and> pt_grow L root Q s s' \<and>
           (\<forall>q. full_path q \<longrightarrow> leaf_of (mem s') root q =
              (if q = vpath va then Some (leaf_pte pa bits, 0) else leaf_of (mem s) root q))"
proof -
  from sv39_map_spec [OF assms(1) _ assms(2,3) Q enough]
  obtain s1 s' where m: "sv39_map L root va pa bits 0 s = Inr s'" "pt_more L root Q s s1" "pt_inv L root s'"
    "\<forall>q. full_path q \<longrightarrow> leaf_of (mem s') root q =
       (if take (3 - 0) q = take (3 - 0) (vpath va) then Some (leaf_pte pa bits, 0)
        else leaf_of (mem s) root q)"
    "\<forall>q. ok_path q \<longrightarrow> tbl (mem s') root q =
       (if through (take (2 - 0) (vpath va)) (vpath va ! (2 - 0)) q then None else tbl (mem s1) root q)"
    "held L s' = held L s1" "descriptors L s' = descriptors L s1"
    "ALLOC_START s' = ALLOC_START s" "kmem.more s' = kmem.more s"
    by blast
  have "\<not> through (take (2 - 0) (vpath va)) (vpath va ! (2 - 0)) q" if "ok_path q" for q
    using that by (auto simp: through_def ok_path_def vpath_def)
  then have tabs: "tbl (mem s') root q = tbl (mem s1) root q" if "ok_path q" for q
    using m(5) that by simp
  then have "missing (mem s') root Q = missing (mem s1) root Q" using Q(2) by (auto simp: missing_def)
  with m(2,3,6-9) tabs have "pt_grow L root Q s s'" by (simp add: pt_more_def pt_grow_def)
  moreover have "take (3 - 0) q = q" if "full_path q" for q using that by (simp add: full_path_def)
  then have "leaf_of (mem s') root q =
      (if q = vpath va then Some (leaf_pte pa bits, 0) else leaf_of (mem s) root q)" if "full_path q" for q
    using m(4) that vpath_full by simp
  ultimately show ?thesis using m(1) by blast
qed

end
