(* ===== verification/Translate.thy ===== *)
theory Translate
  imports Sv39
begin

text \<open>
  What the mappings of \<open>src/mm/paging/sv39/map.rs\<close> mean: the software walk \<open>v2p\<close> reads the
  leaf entry of an address, a mapping installed by \<open>map\<close> at any level translates exactly
  the addresses of its page, and \<open>id_map_range\<close> makes a range of pages translate to itself.
\<close>

section \<open>The walk of v2p\<close>

text \<open>The address a leaf entry of a level gives.\<close>

fun translate :: "u64 \<Rightarrow> pte \<times> nat \<Rightarrow> u64" where
  "translate va (e, l) =
     (push_bit 2 e AND NOT (push_bit (12 + 9 * l) 1 - 1)) OR (va AND (push_bit (12 + 9 * l) 1 - 1))"

lemma v2p_walk_leaf_of:
  assumes "pt_inv L root s" "tbl (mem s) root (take k (vpath va)) = Some t" "k + i = 2"
  shows "v2p_walk (mem s) va i (t + 8 * (vpath va ! k)) =
           Inr (map_option (translate va) (leaf_of (mem s) t (drop k (vpath va))))"
  using assms(2,3)
proof (induction i arbitrary: k t)
  case 0
  then have "drop k (vpath va) = [vpath va ! k]" by (simp add: vpath_def)
  then show ?case by (subst v2p_walk.simps) (auto simp: Let_def is_invalid_def)
next
  case (Suc i)
  let ?e = "pte_at (mem s) t (vpath va ! k)"
  have k: "k < length (vpath va)" using Suc.prems(2) by (simp add: vpath_def)
  have dk: "drop k (vpath va) = vpath va ! k # drop (Suc k) (vpath va)"
    using Cons_nth_drop_Suc [OF k] by simp
  have len: "length (drop (Suc k) (vpath va)) = Suc i" using Suc.prems(2) by (simp add: vpath_def)
  show ?case
  proof (cases "is_valid ?e \<and> is_branch ?e")
    case True
    let ?t = "next_table ?e"
    have t: "tbl (mem s) root (take (Suc k) (vpath va)) = Some ?t"
      using Suc.prems(1) True by (simp add: take_Suc_conv_app_nth [OF k] tbl_append Let_def)
    have "ok_path (take (Suc k) (vpath va))" using full_path_take [OF vpath_full] Suc.prems(2) by simp
    then have "0 < ?t"
      using held_page_word(3) [OF pt_invD(1) [OF assms(1)] pt_invD(2) [OF assms(1) _ t]] by simp
    moreover have "2 - Suc k = i" "Suc k < 3" using Suc.prems(2) by auto
    then have "vpath va ! Suc k = unat (vpn va ! i)" using vpath_nth [of "Suc k" va] by simp
    ultimately have "v2p_walk (mem s) va (Suc i) (t + 8 * (vpath va ! k)) =
        v2p_walk (mem s) va i (?t + 8 * (vpath va ! Suc k))"
      using True by (subst v2p_walk.simps) (simp add: Let_def is_invalid_def is_branch_def)
    also have "\<dots> = Inr (map_option (translate va) (leaf_of (mem s) ?t (drop (Suc k) (vpath va))))"
      using Suc.IH [OF t] Suc.prems(2) by simp
    finally show ?thesis
      using True by (simp add: dk Let_def is_invalid_def is_branch_def)
  next
    case False
    then show ?thesis
      using len by (subst v2p_walk.simps) (auto simp: dk Let_def is_invalid_def is_branch_def)
  qed
qed

lemma v2p_leaf_of:
  assumes "pt_inv L root s"
  shows "v2p (mem s) root va = Inr (map_option (translate va) (leaf_of (mem s) root (vpath va)))"
  using v2p_walk_leaf_of [OF assms, of 0 va root 2] by (simp add: v2p_def vpath_def)

section \<open>The address a leaf of map gives\<close>

lemma off_mask: "(push_bit k 1 - 1 :: u64) = mask k"
  by (simp add: mask_eq_exp_minus_1 push_bit_eq_mult)

lemma vpn_bits:
  "bit (drop_bit k w AND 0x1ff :: u64) n \<longleftrightarrow> n < 9 \<and> bit w (k + n)"
proof -
  have "(0x1ff :: u64) = mask 9" by (simp add: mask_eq_exp_minus_1)
  then show ?thesis by (simp only: bit_and_iff bit_drop_bit_eq o_def bit_mask_iff) auto
qed

lemma ppn2_bits:
  "bit (drop_bit 30 w AND 0x3ffffff :: u64) n \<longleftrightarrow> n < 26 \<and> bit w (30 + n)"
proof -
  have "(0x3ffffff :: u64) = mask 26" by (simp add: mask_eq_exp_minus_1)
  then show ?thesis by (simp only: bit_and_iff bit_drop_bit_eq o_def bit_mask_iff) auto
qed

lemma small_word_bits:
  fixes w :: u64
  assumes "w < 2 ^ k" "bit w n"
  shows "n < k"
proof -
  have "bit (w AND mask k) n" using less_mask_eq [OF assms(1)] assms(2) by simp
  then show ?thesis by (simp add: bit_and_iff bit_mask_iff)
qed

text \<open>The address bits of a leaf entry are the page number of \<open>pa\<close>; its low bits are the flags.\<close>

lemma leaf_pte_bits_raw:
  "bit (leaf_pte pa bits) n \<longleftrightarrow>
     (28 \<le> n \<and> n < 54 \<and> bit pa (n + 2)) \<or> (19 \<le> n \<and> n < 28 \<and> bit pa (n + 2)) \<or>
     (10 \<le> n \<and> n < 19 \<and> bit pa (n + 2)) \<or> bit bits n \<or> n = 0"
proof -
  have ppns: "ppn pa ! 2 = drop_bit 30 pa AND 0x3ffffff" "ppn pa ! 1 = drop_bit 21 pa AND 0x1ff"
    "ppn pa ! 0 = drop_bit 12 pa AND 0x1ff" by (simp_all add: ppn_def)
  have v: "bit VALID n \<longleftrightarrow> n = 0" by (simp add: VALID_def bit_1_iff)
  have "30 + (n - 28) = n + 2" if "28 \<le> n" using that by simp
  moreover have "21 + (n - 19) = n + 2" if "19 \<le> n" using that by simp
  moreover have "12 + (n - 10) = n + 2" if "10 \<le> n" using that by simp
  ultimately show ?thesis
    unfolding leaf_pte_def ppns
    by (simp only: bit_or_iff bit_push_bit_iff vpn_bits ppn2_bits v) auto
qed

lemma leaf_pte_bits:
  assumes "bits < 2 ^ 10" "n < 64"
  shows "bit (leaf_pte pa bits) n \<longleftrightarrow>
           (if n < 10 then n = 0 \<or> bit bits n else n < 54 \<and> bit pa (n + 2))"
proof -
  have b: "\<not> bit bits n" if "\<not> n < 10" using small_word_bits [OF assms(1)] that by auto
  then show ?thesis by (auto simp: leaf_pte_bits_raw)
qed

text \<open>The page of level \<open>l\<close> that an address lies in, and the address at the same place of another page.\<close>

definition in_page :: "u64 \<Rightarrow> nat \<Rightarrow> u64 \<Rightarrow> u64" where
  "in_page pa l va = (pa AND NOT (mask (12 + 9 * l))) OR (va AND mask (12 + 9 * l))"

lemma translate_leaf_pte:
  assumes "bits < 2 ^ 10" "pa < 2 ^ 56" "l \<le> 2"
  shows "translate va (leaf_pte pa bits, l) = in_page pa l va"
proof (rule bit_word_eqI)
  fix n assume n: "n < LENGTH(64)"
  have pa: "n < 56" if "bit pa n" using small_word_bits [OF assms(2) that] .
  have "bit (push_bit 2 (leaf_pte pa bits)) n \<longleftrightarrow> bit pa n" if "12 + 9 * l \<le> n"
  proof -
    have "bit (push_bit 2 (leaf_pte pa bits)) n \<longleftrightarrow> bit (leaf_pte pa bits) (n - 2)"
      using that n by (simp add: bit_push_bit_iff)
    also have "\<dots> \<longleftrightarrow> n - 2 < 54 \<and> bit pa (n - 2 + 2)"
      using leaf_pte_bits [OF assms(1), of "n - 2" pa] that n by auto
    moreover have "n - 2 + 2 = n" using that by simp
    ultimately show ?thesis using pa by auto
  qed
  then show "bit (translate va (leaf_pte pa bits, l)) n = bit (in_page pa l va) n"
    using n unfolding translate.simps off_mask in_page_def
    by (auto simp: bit_or_iff bit_and_iff bit_not_iff bit_mask_iff)
qed

text \<open>Two addresses lie in one page of level \<open>l\<close> if bits \<open>12 + 9 * l\<close> to 38 agree.\<close>

definition same_page :: "nat \<Rightarrow> u64 \<Rightarrow> u64 \<Rightarrow> bool" where
  "same_page l va va' \<longleftrightarrow>
     drop_bit (12 + 9 * l) (take_bit 39 va) = drop_bit (12 + 9 * l) (take_bit 39 va')"

lemma same_page_bits:
  "same_page l va va' \<longleftrightarrow> (\<forall>n. 12 + 9 * l \<le> n \<and> n < 39 \<longrightarrow> bit va n = bit va' n)"
proof -
  have "same_page l va va' \<longleftrightarrow>
      (\<forall>n. bit (drop_bit (12 + 9 * l) (take_bit 39 va)) n = bit (drop_bit (12 + 9 * l) (take_bit 39 va')) n)"
    unfolding same_page_def by (metis bit_eqI)
  also have "\<dots> \<longleftrightarrow> (\<forall>n. 12 + 9 * l + n < 39 \<longrightarrow> bit va (12 + 9 * l + n) = bit va' (12 + 9 * l + n))"
    by (auto simp: bit_drop_bit_eq bit_take_bit_iff)
  also have "\<dots> \<longleftrightarrow> (\<forall>n. 12 + 9 * l \<le> n \<and> n < 39 \<longrightarrow> bit va n = bit va' n)"
    by (metis le_add1 le_add_diff_inverse)
  finally show ?thesis .
qed

lemma vpn_eq_iff:
  "drop_bit k va AND 0x1ff = (drop_bit k va' AND 0x1ff :: u64) \<longleftrightarrow>
     (\<forall>n. k \<le> n \<and> n < k + 9 \<longrightarrow> bit va n = bit va' n)"
proof -
  have "drop_bit k va AND 0x1ff = (drop_bit k va' AND 0x1ff :: u64) \<longleftrightarrow>
      (\<forall>n. (n < 9 \<and> bit va (k + n)) = (n < 9 \<and> bit va' (k + n)))"
    unfolding vpn_bits [symmetric] by (metis bit_eqI)
  also have "\<dots> \<longleftrightarrow> (\<forall>n < 9. bit va (k + n) = bit va' (k + n))" by blast
  also have "\<dots> \<longleftrightarrow> (\<forall>n. k \<le> n \<and> n < k + 9 \<longrightarrow> bit va n = bit va' n)"
    by (metis le_add1 le_add_diff_inverse add_less_cancel_left)
  finally show ?thesis .
qed

lemma vpath_same_page:
  assumes "l \<le> 2"
  shows "take (3 - l) (vpath va') = take (3 - l) (vpath va) \<longleftrightarrow> same_page l va va'"
proof -
  define R where "R a b \<longleftrightarrow> (\<forall>n. a \<le> n \<and> n < b \<longrightarrow> bit va n = bit va' n)" for a b
  have split: "R a c \<longleftrightarrow> R a b \<and> R b c" if "a \<le> b" "b \<le> c" for a b c
  proof -
    have "a \<le> n \<and> n < c \<longleftrightarrow> a \<le> n \<and> n < b \<or> b \<le> n \<and> n < c" for n using that by auto
    then show ?thesis unfolding R_def by blast
  qed
  have page: "same_page k va va' \<longleftrightarrow> R (12 + 9 * k) 39" for k by (simp add: same_page_bits R_def)
  have vp: "vpath w = [unat (drop_bit 30 w AND 0x1ff), unat (drop_bit 21 w AND 0x1ff), unat (drop_bit 12 w AND 0x1ff)]"
    for w by (simp add: vpath_def vpn_def)
  have idx: "unat (drop_bit k va' AND 0x1ff) = unat (drop_bit k va AND 0x1ff) \<longleftrightarrow> R k (k + 9)" for k
  proof -
    have "unat (drop_bit k va' AND 0x1ff) = unat (drop_bit k va AND 0x1ff) \<longleftrightarrow>
        drop_bit k va AND 0x1ff = (drop_bit k va' AND 0x1ff :: u64)" by (auto simp: word_unat_eq_iff)
    then show ?thesis by (simp only: vpn_eq_iff R_def)
  qed
  consider "l = 0" | "l = 1" | "l = 2" using assms by linarith
  then show ?thesis
  proof cases
    case 1
    then show ?thesis using split [of 12 21 39] split [of 21 30 39] by (auto simp: page vp idx)
  next
    case 2
    then show ?thesis using split [of 21 30 39] by (auto simp: page vp idx numeral_2_eq_2)
  next
    case 3
    then show ?thesis by (simp add: page vp idx)
  qed
qed

section \<open>Identity mapping of a range\<close>

lemma unat_drop12: "unat (drop_bit 12 w) = unat (w :: u64) div 4096"
  by (simp add: drop_bit_eq_div unat_div_distrib)

lemma same_page_div:
  assumes "unat va < 2 ^ 39" "unat va' < 2 ^ 39"
  shows "same_page 0 va va' \<longleftrightarrow> unat va div 4096 = unat va' div 4096"
proof -
  have tb: "take_bit 39 w = w" if "unat w < 2 ^ 39" for w :: u64
    using that by (simp add: word_unat_eq_iff unsigned_take_bit_eq take_bit_nat_eq_self)
  show ?thesis
    unfolding same_page_def tb [OF assms(1)] tb [OF assms(2)] by (simp add: word_unat_eq_iff unat_drop12)
qed

lemma vpath_eq_iff:
  "vpath va' = vpath va \<longleftrightarrow> same_page 0 va va'"
  using vpath_same_page [of 0 va' va] by (simp add: vpath_def)

lemma leaf_pte_same_page:
  assumes "unat va div 4096 = unat va' div 4096"
  shows "leaf_pte va bits = leaf_pte va' bits"
proof -
  have eq: "drop_bit 12 va = drop_bit 12 va'"
    unfolding word_unat_eq_iff unat_drop12 by (rule assms)
  have "drop_bit (12 + k) va = drop_bit (12 + k) va'" for k
    using arg_cong [OF eq, of "drop_bit k"] by (simp add: drop_bit_drop_bit add.commute)
  from this [of 9] this [of 18] eq show ?thesis by (simp add: leaf_pte_def ppn_def)
qed

text \<open>The tables below the root that the pages of a range need.\<close>

definition range_tables :: "nat \<Rightarrow> nat \<Rightarrow> nat list set" where
  "range_tables start stop = (\<Union>a \<in> set (page_range start stop). map_paths (of_nat a) 0)"

lemma map_paths_finite: "finite (map_paths va l)"
  by (simp add: map_paths_def)

lemma range_tables_ok: "finite (range_tables start stop)" "q \<in> range_tables start stop \<Longrightarrow> ok_path q"
  using map_paths_ok by (auto simp: range_tables_def map_paths_finite)

lemma page_range_props:
  assumes "start mod 4096 = 0" "stop mod 4096 = 0"
  shows "length (page_range start stop) = (stop - start) div 4096"
    "\<And>k. k < length (page_range start stop) \<Longrightarrow> page_range start stop ! k = start + k * 4096"
    "start \<le> stop \<Longrightarrow> start + length (page_range start stop) * 4096 = stop"
proof -
  have "(stop - start) mod 4096 = 0" using assms by (metis mod_diff_left_eq mod_0_imp_dvd dvd_diff_nat mod_eq_0_iff_dvd)
  then show len: "length (page_range start stop) = (stop - start) div 4096"
    and "\<And>k. k < length (page_range start stop) \<Longrightarrow> page_range start stop ! k = start + k * 4096"
    and "start \<le> stop \<Longrightarrow> start + length (page_range start stop) * 4096 = stop"
    by (auto simp: page_range_def div_ceil_def)
qed

lemma page_step_range:
  assumes "start mod 4096 = 0"
  shows "start \<le> x \<and> x < start + Suc k * 4096 \<longleftrightarrow>
           (start \<le> x \<and> x < start + k * 4096) \<or> x div 4096 = (start + k * 4096) div 4096"
proof -
  obtain c where c: "start = c * 4096" using assms by (auto simp: mod_eq_0_iff_dvd dvd_def mult.commute)
  have "x div 4096 = c + k \<longleftrightarrow> (c + k) * 4096 \<le> x \<and> x < (c + k) * 4096 + 4096"
    by (auto simp: div_nat_eqI)
  then show ?thesis by (auto simp: c)
qed

lemma id_map_range_spec:
  assumes inv: "pt_inv L root s" and al: "start mod 4096 = 0" "stop mod 4096 = 0" and hi: "stop \<le> 2 ^ 39"
    and bits: "bits AND RWX \<noteq> 0"
    and nl: "\<forall>va. start \<le> unat va \<and> unat va < stop \<longrightarrow> no_leaf_above (mem s) root va 0"
    and Q: "finite Q" "\<forall>q \<in> Q. ok_path q" "range_tables start stop \<subseteq> Q"
    and enough: "card (missing (mem s) root Q) \<le> free_count (descriptors L s)"
  shows "\<exists>s'. id_map_range L root start stop bits s = Inr s' \<and> pt_grow L root Q s s' \<and>
           (\<forall>va. unat va < 2 ^ 39 \<longrightarrow> leaf_of (mem s') root (vpath va) =
              (if start \<le> unat va \<and> unat va < stop then Some (leaf_pte va bits, 0)
               else leaf_of (mem s) root (vpath va)))"
proof (cases "start \<le> stop")
  case False
  then have "page_range start stop = []" by (simp add: page_range_def div_ceil_def)
  with inv al False show ?thesis by (auto simp: id_map_range_def intro: pt_grow_refl)
next
  case True
  let ?xs = "page_range start stop"
  let ?f = "\<lambda>addr. sv39_map L root (of_nat addr) (of_nat addr) bits 0"
  note pr = page_range_props [OF al]
  define I where "I k t \<longleftrightarrow> pt_grow L root Q s t \<and>
     (\<forall>va. unat va < 2 ^ 39 \<longrightarrow> leaf_of (mem t) root (vpath va) =
        (if start \<le> unat va \<and> unat va < start + k * 4096 then Some (leaf_pte va bits, 0)
         else leaf_of (mem s) root (vpath va)))" for k t
  have "\<exists>t'. ?f (?xs ! k) t = Inr t' \<and> I (Suc k) t'" if k: "k < length ?xs" and I: "I k t" for k t
  proof -
    let ?a = "start + k * 4096" and ?va = "of_nat (start + k * 4096) :: u64"
    have "Suc k * 4096 \<le> length ?xs * 4096" using k by (intro mult_le_mono1) simp
    with pr(3) [OF True] have lt: "?a < stop" by simp
    with hi have a: "?a < 2 ^ 39" by linarith
    then have u: "unat ?va = ?a" by (simp add: unat_of_nat del: of_nat_add of_nat_mult)
    have "no_leaf_above (mem s) root ?va 0" using nl u lt by simp
    then have nl': "no_leaf_above (mem t) root ?va 0"
      using I u a by (simp add: I_def no_leaf_above_def del: of_nat_add of_nat_mult)
    have inv': "pt_inv L root t" using I by (simp add: I_def pt_grow_def)
    have "?a \<in> set ?xs" using k pr(2) nth_mem by metis
    then have mp: "map_paths ?va 0 \<subseteq> Q" using Q(3) unfolding range_tables_def by blast
    from map_page_spec [OF inv' bits nl' Q(1,2) mp, of ?va] pt_grow_enough [OF _ enough] I
    obtain t' where t': "?f ?a t = Inr t'" "pt_grow L root Q t t'"
      "\<And>q. full_path q \<Longrightarrow> leaf_of (mem t') root q =
         (if q = vpath ?va then Some (leaf_pte ?va bits, 0) else leaf_of (mem t) root q)"
      unfolding I_def by blast
    have "I (Suc k) t'"
      unfolding I_def
    proof (intro conjI allI impI)
      show "pt_grow L root Q s t'" using I t'(2) pt_grow_trans by (auto simp: I_def)
      fix va :: u64 assume va: "unat va < 2 ^ 39"
      have "vpath va = vpath ?va \<longleftrightarrow> unat va div 4096 = ?a div 4096"
        unfolding vpath_eq_iff using same_page_div [of ?va va] u a va by auto
      moreover have "leaf_pte ?va bits = leaf_pte va bits" if "unat va div 4096 = ?a div 4096"
        using leaf_pte_same_page [of ?va va] u that by simp
      ultimately show "leaf_of (mem t') root (vpath va) =
          (if start \<le> unat va \<and> unat va < start + Suc k * 4096 then Some (leaf_pte va bits, 0)
           else leaf_of (mem s) root (vpath va))"
        unfolding page_step_range [OF al(1)] t'(3) [OF vpath_full] using I va by (auto simp: I_def)
    qed
    with t'(1) pr(2) [OF k] show ?thesis by auto
  qed
  moreover have "I 0 s" unfolding I_def using inv by (auto intro: pt_grow_refl)
  ultimately obtain s' where s': "fold_res ?f ?xs s = Inr s'" "I (length ?xs) s'"
    using fold_res_invariant [of I s ?xs ?f] by blast
  with pr(3) True al show ?thesis by (auto simp: id_map_range_def I_def)
qed

section \<open>A fresh root\<close>

lemma zero_table:
  assumes "\<And>a. t \<le> a \<Longrightarrow> a < t + 4096 \<Longrightarrow> m a = 0" "i < 512"
  shows "pte_at m t i = 0"
proof -
  have "rd_bytes m (t + 8 * i) 8 = replicate 8 0"
    by (rule nth_equalityI) (use assms in auto)
  then show ?thesis by (simp add: get_entry_def ld64_def)
qed

lemma fresh_root:
  assumes "frames_inv L s" "zallocate L 1 s = Inr (Some root, s')"
  shows "pt_inv L root s'" "\<And>q. full_path q \<Longrightarrow> leaf_of (mem s') root q = None"
    "\<And>q. ok_path q \<Longrightarrow> q \<noteq> [] \<Longrightarrow> tbl (mem s') root q = None"
proof -
  note z = zallocate_Some [OF assms]
  have zero: "pte_at (mem s') root i = 0" if "i < 512" for i
    using zero_table [OF z(7) that] by simp
  show tabs: "tbl (mem s') root q = None" if "ok_path q" "q \<noteq> []" for q
    using that zero by (cases q) (auto simp: ok_path_def)
  show "leaf_of (mem s') root q = None" if "full_path q" for q
    using that zero by (cases q) (auto simp: full_path_def)
  have nil: "q = []" if "ok_path q" "tbl (mem s') root q = Some t" for q t
    using tabs [OF that(1)] that(2) by auto
  show "pt_inv L root s'"
    unfolding pt_inv_def
  proof (intro conjI allI impI)
    show "frames_inv L s'" by (rule z)
    show "(t, 1) \<in> held L s'" if "ok_path q" "tbl (mem s') root q = Some t" for q t
      using nil [OF that] that(2) z(2) by simp
    show "q = r" if "ok_path q" "ok_path r" "tbl (mem s') root q = Some t" "tbl (mem s') root r = Some t"
      for q r t
      using nil [OF that(1,3)] nil [OF that(2,4)] by simp
  qed
qed

lemma fresh_root_no_leaf:
  assumes "frames_inv L s" "zallocate L 1 s = Inr (Some root, s')"
  shows "no_leaf_above (mem s') root va l"
  using fresh_root(2) [OF assms vpath_full] by (simp add: no_leaf_above_def)

lemma tiny_root:
  obtains root and s :: kmem where "zallocate tiny_layout 1 tiny_heap = Inr (Some root, s)"
    "pt_inv tiny_layout root s" "free_count (descriptors tiny_layout s) = 3"
    "\<And>va l. no_leaf_above (mem s) root va l"
    "\<And>q. full_path q \<Longrightarrow> leaf_of (mem s) root q = None"
proof -
  have fc: "free_count (descriptors tiny_layout tiny_heap) = 4"
    by (simp add: tiny_descriptors free_count_def is_taken_def)
  then obtain root s where z: "zallocate tiny_layout 1 tiny_heap = Inr (Some root, s)"
    using zallocate_page_succeeds [OF tiny_frames_inv] by auto
  have "free_count (descriptors tiny_layout s) = 3"
    using zallocate_free_count [OF tiny_frames_inv z] fc by simp
  with z fresh_root [OF tiny_frames_inv z] fresh_root_no_leaf [OF tiny_frames_inv z] that
  show ?thesis by blast
qed

section \<open>Properties\<close>

lemma missing_map_paths:
  "l \<le> 2 \<Longrightarrow> card (missing m root (map_paths va l)) \<le> 2 - l"
proof -
  have "card (missing m root (map_paths va l)) \<le> card (map_paths va l)"
    by (rule card_mono) (auto simp: missing_def map_paths_finite)
  also have "\<dots> \<le> card {1..2 - l}" unfolding map_paths_def by (rule card_image_le) simp
  finally show ?thesis by simp
qed

text \<open>
  C14: \<open>map\<close> installs exactly the mapping it is asked for. On a tree of tables with enough
  free pages and no larger page in the way, it succeeds at every level \<open>l\<close>, and afterwards
  the software walk translates every address of the page of \<open>va\<close> to the same offset in the
  page of \<open>pa\<close>, and every other address as before.
\<close>

theorem sv39_map_translates:
  assumes "pt_inv L root s" "l \<le> 2" "bits AND RWX \<noteq> 0" "bits < 2 ^ 10" "pa < 2 ^ 56"
    and "no_leaf_above (mem s) root va l" "2 - l \<le> free_count (descriptors L s)"
  shows "\<exists>s'. sv39_map L root va pa bits l s = Inr s' \<and> pt_inv L root s' \<and>
           (\<forall>va'. v2p (mem s') root va' =
              (if same_page l va va' then Inr (Some (in_page pa l va')) else v2p (mem s) root va'))"
proof -
  have "card (missing (mem s) root (map_paths va l)) \<le> free_count (descriptors L s)"
    using missing_map_paths [OF assms(2)] assms(7) le_trans by blast
  from sv39_map_spec [OF assms(1-3,6) map_paths_finite _ order_refl this] map_paths_ok
  obtain s' where s': "sv39_map L root va pa bits l s = Inr s'" "pt_inv L root s'"
    "\<And>q. full_path q \<Longrightarrow> leaf_of (mem s') root q =
       (if take (3 - l) q = take (3 - l) (vpath va) then Some (leaf_pte pa bits, l)
        else leaf_of (mem s) root q)" by blast
  have "v2p (mem s') root va' =
      (if same_page l va va' then Inr (Some (in_page pa l va')) else v2p (mem s) root va')" for va'
    unfolding v2p_leaf_of [OF s'(2)] v2p_leaf_of [OF assms(1)] s'(3) [OF vpath_full]
      vpath_same_page [OF assms(2)]
    using translate_leaf_pte [OF assms(4,5,2)] by (simp del: translate.simps)
  with s' show ?thesis by blast
qed

theorem sv39_map_translates_witness:
  "\<exists>(s :: kmem) root s'. pt_inv tiny_layout root s \<and>
     sv39_map tiny_layout root 0x40201000 0x80003000 (READ OR WRITE) 0 s = Inr s' \<and>
     v2p (mem s') root 0x40201abc = Inr (Some 0x80003abc)"
proof -
  obtain root and s :: kmem where r: "pt_inv tiny_layout root s"
    "free_count (descriptors tiny_layout s) = 3" "\<And>va l. no_leaf_above (mem s) root va l"
    by (rule tiny_root) blast
  have b: "(READ OR WRITE) AND RWX \<noteq> 0" "READ OR WRITE < 2 ^ 10" by (simp_all add: pte_flag_defs)
  have "2 - (0 :: nat) \<le> free_count (descriptors tiny_layout s)" using r(2) by simp
  from sv39_map_translates [OF r(1) _ b _ r(3) this, of "0x80003000" "0x40201000"]
  obtain s' where s': "sv39_map tiny_layout root 0x40201000 0x80003000 (READ OR WRITE) 0 s = Inr s'"
    "v2p (mem s') root 0x40201abc =
       (if same_page 0 0x40201000 0x40201abc then Inr (Some (in_page 0x80003000 0 0x40201abc))
        else v2p (mem s) root 0x40201abc)" by auto
  have "same_page 0 0x40201000 0x40201abc" "in_page 0x80003000 0 0x40201abc = 0x80003abc"
    by (simp_all add: same_page_def in_page_def take_bit_eq_mask mask_eq_exp_minus_1)
  with r(1) s' show ?thesis by auto
qed


lemma demo_range_tables: "range_tables 0x1000 0x3000 = {[0], [0, 0]}"
proof -
  have "page_range 0x1000 0x3000 = [0x1000, 0x2000]"
    by (simp add: page_range_def div_ceil_def numeral_2_eq_2)
  moreover have "vpath 0x1000 = [0, 0, 1]" "vpath 0x2000 = [0, 0, 2]"
    by (simp_all add: vpath_def vpn_def)
  moreover have "{1..2} = {1, 2 :: nat}" by auto
  ultimately show ?thesis by (simp add: range_tables_def map_paths_def insert_commute)
qed


end
