(* ===== verification/Unmap.thy ===== *)
theory Unmap
  imports Translate "HOL-Library.Sublist"
begin

text \<open>
  Tearing an address space down: \<open>unmap\<close> of \<open>src/mm/paging/sv39/map.rs\<close> frees every table
  below the root, keeps the one-gigabyte leaves of the root, and returns each page to the
  allocator exactly once.

  \<open>pruned\<close> is the specification of the loops: the subtrees at a set of paths are gone from
  the tree and their pages from the runs in use.
\<close>

section \<open>Pruned trees\<close>

definition cut_by :: "nat list set \<Rightarrow> nat list \<Rightarrow> bool" where
  "cut_by P q \<longleftrightarrow> (\<exists>p \<in> P. prefix p q)"

definition pruned ::
  "linker \<Rightarrow> nat \<Rightarrow> nat list set \<Rightarrow> 'z kmem_scheme \<Rightarrow> 'z kmem_scheme \<Rightarrow> bool"
where
  "pruned L root P s s' \<longleftrightarrow>
     pt_inv L root s' \<and>
     (\<forall>q. ok_path q \<longrightarrow> tbl (mem s') root q = (if cut_by P q then None else tbl (mem s) root q)) \<and>
     held L s' = held L s - {(u, 1) | u q. ok_path q \<and> cut_by P q \<and> tbl (mem s) root q = Some u} \<and>
     (\<forall>q. full_path q \<longrightarrow> leaf_of (mem s') root q =
        (if \<exists>p \<in> P. prefix p q \<and> tbl (mem s) root p \<noteq> None then None else leaf_of (mem s) root q)) \<and>
     ALLOC_START s' = ALLOC_START s \<and> kmem.more s' = kmem.more s"

lemma through_prefix: "through p i q \<longleftrightarrow> prefix (p @ [i]) q"
  by (auto simp: through_def prefix_def)

lemma tbl_prefix: "prefix p q \<Longrightarrow> tbl m root q \<noteq> None \<Longrightarrow> tbl m root p \<noteq> None"
  by (auto simp: prefix_def tbl_append split: option.splits)

lemma pruned_skip:
  assumes "pt_inv L root s" "\<And>p. p \<in> P \<Longrightarrow> tbl (mem s) root p = None"
  shows "pruned L root P s s"
proof -
  have none: "tbl (mem s) root q = None" if "cut_by P q" for q
    using that assms(2) tbl_prefix unfolding cut_by_def by blast
  then show ?thesis using assms by (auto simp: pruned_def)
qed

lemma pruned_leaf:
  assumes "pruned L root P s s'" "full_path q"
  shows "leaf_of (mem s') root q =
     (if \<exists>p \<in> P. prefix p q \<and> tbl (mem s) root p \<noteq> None then None else leaf_of (mem s) root q)"
  using assms unfolding pruned_def by blast

lemma if_or: "(if B then z else if A then z else x) = (if A \<or> B then z else x)"
  by simp

lemma pruned_trans:
  assumes s1: "pruned L root P s s1" and s2: "pruned L root R s1 s2" and R: "\<forall>p \<in> R. ok_path p"
  shows "pruned L root (P \<union> R) s s2"
proof -
  have cut: "cut_by (P \<union> R) q \<longleftrightarrow> cut_by P q \<or> cut_by R q" for q by (auto simp: cut_by_def)
  have t1: "tbl (mem s1) root q = (if cut_by P q then None else tbl (mem s) root q)" if "ok_path q" for q
    using s1 that by (simp add: pruned_def)
  have leaf: "(\<exists>p \<in> P \<union> R. prefix p q \<and> tbl (mem s) root p \<noteq> None) \<longleftrightarrow>
      (\<exists>p \<in> P. prefix p q \<and> tbl (mem s) root p \<noteq> None) \<or>
      (\<exists>p \<in> R. prefix p q \<and> tbl (mem s1) root p \<noteq> None)" for q
  proof
    assume "\<exists>p \<in> P \<union> R. prefix p q \<and> tbl (mem s) root p \<noteq> None"
    then obtain p where p: "p \<in> P \<union> R" "prefix p q" "tbl (mem s) root p \<noteq> None" by blast
    show "(\<exists>p \<in> P. prefix p q \<and> tbl (mem s) root p \<noteq> None) \<or>
      (\<exists>p \<in> R. prefix p q \<and> tbl (mem s1) root p \<noteq> None)"
    proof (cases "cut_by P p")
      case True
      then obtain p0 where p0: "p0 \<in> P" "prefix p0 p" by (auto simp: cut_by_def)
      have "prefix p0 q" using p0(2) p(2) by (rule prefix_order.trans)
      with p0(1) tbl_prefix [OF p0(2) p(3)] show ?thesis by blast
    next
      case False
      with p R t1 show ?thesis by auto
    qed
  next
    assume "(\<exists>p \<in> P. prefix p q \<and> tbl (mem s) root p \<noteq> None) \<or>
      (\<exists>p \<in> R. prefix p q \<and> tbl (mem s1) root p \<noteq> None)"
    then show "\<exists>p \<in> P \<union> R. prefix p q \<and> tbl (mem s) root p \<noteq> None"
      using R t1 by (auto split: if_splits)
  qed
  have split: "ok_path q \<and> cut_by (P \<union> R) q \<and> tbl (mem s) root q = Some u \<longleftrightarrow>
      ok_path q \<and> cut_by P q \<and> tbl (mem s) root q = Some u \<or>
      ok_path q \<and> cut_by R q \<and> tbl (mem s1) root q = Some u" for q u
    using t1 [of q] by (cases "cut_by P q") (auto simp: cut)
  have un: "{(u, 1) | u q. ok_path q \<and> cut_by (P \<union> R) q \<and> tbl (mem s) root q = Some u} =
      {(u, 1) | u q. ok_path q \<and> cut_by P q \<and> tbl (mem s) root q = Some u} \<union>
      {(u, 1) | u q. ok_path q \<and> cut_by R q \<and> tbl (mem s1) root q = Some u}"
    unfolding split by blast
  show ?thesis
    unfolding pruned_def
  proof (intro conjI allI impI)
    show "pt_inv L root s2" "ALLOC_START s2 = ALLOC_START s" "kmem.more s2 = kmem.more s"
      using s1 s2 by (simp_all add: pruned_def)
    show "tbl (mem s2) root q = (if cut_by (P \<union> R) q then None else tbl (mem s) root q)"
      if "ok_path q" for q using s2 that t1 [OF that] by (simp add: pruned_def cut)
    show "held L s2 = held L s -
        {(u, 1) | u q. ok_path q \<and> cut_by (P \<union> R) q \<and> tbl (mem s) root q = Some u}"
      unfolding un using s1 s2 by (simp only: pruned_def Diff_eq) blast
    show "leaf_of (mem s2) root q =
        (if \<exists>p \<in> P \<union> R. prefix p q \<and> tbl (mem s) root p \<noteq> None then None else leaf_of (mem s) root q)"
      if "full_path q" for q
      unfolding leaf pruned_leaf [OF s2 that] pruned_leaf [OF s1 that] by (rule if_or)
  qed
qed

section \<open>Freeing one table\<close>

lemma prune_slot:
  assumes inv: "pt_inv L root s" and p: "ok_path (p @ [i])" "tbl (mem s) root p = Some t"
    and c: "tbl (mem s) root (p @ [i]) = Some c" "c < heap_end L"
    and below: "\<And>q. ok_path q \<Longrightarrow> strict_prefix (p @ [i]) q \<Longrightarrow> tbl (mem s) root q = None"
  shows "\<exists>s1. deallocate_addr L c s = Inr s1 \<and>
           pruned L root {p @ [i]} s (set_entry (t + 8 * i) 0 s1)"
proof -
  have pi: "ok_path p" "i < 512" using ok_path_snoc [OF p(1)] by auto
  note fr = pt_invD(1) [OF inv]
  have ch: "(c, 1) \<in> held L s" and th: "(t, 1) \<in> held L s"
    using pt_invD(2) [OF inv] p c(1) pi(1) by auto
  have only: "q = p @ [i]" if "ok_path q" "tbl (mem s) root q = Some c" for q
    using pt_invD(3) [OF inv that(1) p(1) that(2) c(1)] .
  have tc: "t \<noteq> c" using only [OF pi(1)] p(2) by auto
  obtain s1 where s1: "deallocate L c s = Inr s1" "frames_inv L s1" "held L s1 = held L s - {(c, 1)}"
    "ALLOC_START s1 = ALLOC_START s" "kmem.more s1 = kmem.more s"
    "\<And>a. a \<notin> desc_region L \<Longrightarrow> mem s1 a = mem s a"
    using deallocate_held [OF fr ch c(2)] by blast
  let ?s = "set_entry (t + 8 * i) 0 s1"
  have "(t, 1) \<in> held L s1" using th s1(3) tc by simp
  note fr' = set_entry_frames [OF s1(2) this pi(2), of 0]
  have keep: "pte_at (mem s1) u j = pte_at (mem s) u j" if "(u, 1) \<in> held L s" "j < 512" for u j
    unfolding get_entry_def
  proof (rule ld64_cong)
    fix x assume "u + 8 * j \<le> x" "x < u + 8 * j + 8"
    then show "mem s1 x = mem s x"
      using held_table_cases [OF fr that(1), of x] that(2) by (intro s1(6)) auto
  qed
  have sb: "same_but (mem s) (mem ?s) root p i" "pte_at (mem ?s) t i = 0"
    unfolding same_but_def
  proof (intro allI impI)
    fix q u j assume q: "ok_path q" "tbl (mem s) root q = Some u" "j < 512" "(q, j) \<noteq> (p, i)"
    have "t + 8 * i + 8 \<le> u + 8 * j \<or> u + 8 * j + 8 \<le> t + 8 * i"
      using slots_apart [OF inv pi(1) q(1) p(2) q(2) pi(2) q(3)] q(4) by auto
    then show "pte_at (mem ?s) u j = pte_at (mem s) u j"
      using keep [OF pt_invD(2) [OF inv q(1,2)] q(3)]
      by (simp add: set_entry_def get_entry_def ld64_st64_disjoint)
  next
    show "pte_at (mem ?s) t i = 0" by (simp add: set_entry_def get_entry_def)
  qed
  have hd: "\<forall>q u. ok_path q \<longrightarrow> \<not> through p i q \<longrightarrow> tbl (mem s) root q = Some u \<longrightarrow> (u, 1) \<in> held L ?s"
  proof (intro allI impI)
    fix q u assume q: "ok_path q" "\<not> through p i q" "tbl (mem s) root q = Some u"
    have "u \<noteq> c" using only [OF q(1)] q(2,3) by auto
    then show "(u, 1) \<in> held L ?s" using pt_invD(2) [OF inv q(1,3)] fr'(2) s1(3) by simp
  qed
  note cut = slot_cut [OF inv pi(1) p(2) sb _ fr'(1) hd]
  have only_below: "u = c" if "ok_path q" "prefix (p @ [i]) q" "tbl (mem s) root q = Some u" for q u
    using below [OF that(1)] that(2,3) c(1) by (cases "q = p @ [i]") (auto simp: prefix_order.less_le)
  have gone: "{(u, 1) | u q. ok_path q \<and> cut_by {p @ [i]} q \<and> tbl (mem s) root q = Some u} = {(c, 1)}"
  proof
    show "{(u, 1) | u q. ok_path q \<and> cut_by {p @ [i]} q \<and> tbl (mem s) root q = Some u} \<subseteq> {(c, 1)}"
      using only_below by (auto simp: cut_by_def)
    have "ok_path (p @ [i]) \<and> cut_by {p @ [i]} (p @ [i]) \<and> tbl (mem s) root (p @ [i]) = Some c"
      using p(1) c(1) by (simp add: cut_by_def)
    then show "{(c, 1)} \<subseteq> {(u, 1) | u q. ok_path q \<and> cut_by {p @ [i]} q \<and> tbl (mem s) root q = Some u}"
      by blast
  qed
  have "held L ?s = held L s - {(u, 1) | u q. ok_path q \<and> cut_by {p @ [i]} q \<and> tbl (mem s) root q = Some u}"
    unfolding gone using fr'(2) s1(3) by simp
  then have "pruned L root {p @ [i]} s ?s"
    unfolding pruned_def using cut s1(4,5) c(1) by (simp add: cut_by_def through_prefix set_entry_def)
  moreover have "0 < c" using held_page_word(3) [OF fr ch] .
  ultimately show ?thesis using s1(1) by (simp add: deallocate_addr_def nonnull_def)
qed

section \<open>The loops\<close>

definition low_tables :: "linker \<Rightarrow> nat \<Rightarrow> 'z kmem_scheme \<Rightarrow> bool" where
  "low_tables L root s \<longleftrightarrow>
     (\<forall>q u. ok_path q \<longrightarrow> q \<noteq> [] \<longrightarrow> tbl (mem s) root q = Some u \<longrightarrow> u < heap_end L)"

lemma pruned_keep:
  assumes "pruned L root P s t" "ok_path q" "\<not> cut_by P q"
  shows "tbl (mem t) root q = tbl (mem s) root q"
  using assms by (simp add: pruned_def)

lemma pruned_sub:
  assumes "pruned L root P s t" "ok_path q" "tbl (mem t) root q = Some u"
  shows "tbl (mem s) root q = Some u"
  using assms by (auto simp: pruned_def split: if_splits)

lemma low_tables_pruned: "low_tables L root s \<Longrightarrow> pruned L root P s t \<Longrightarrow> low_tables L root t"
  unfolding low_tables_def using pruned_sub by blast

lemma unmap_lv1_spec:
  assumes inv: "pt_inv L root s" and low: "low_tables L root s"
    and a: "a < 512" "tbl (mem s) root [a] = Some c" and j: "j < 512"
  shows "\<exists>s'. unmap_lv1 L c j s = Inr s' \<and> pruned L root {[a, j]} s s'"
proof (cases "is_valid (pte_at (mem s) c j) \<and> is_branch (pte_at (mem s) c j)")
  case True
  let ?d = "next_table (pte_at (mem s) c j)"
  have ok: "ok_path ([a] @ [j])" using a(1) j by (simp add: ok_path_def)
  have d: "tbl (mem s) root ([a] @ [j]) = Some ?d" using a(2) True by (auto simp: Let_def split: if_splits)
  have lim: "?d < heap_end L" using low ok d unfolding low_tables_def by blast
  have "tbl (mem s) root q = None" if "ok_path q" "strict_prefix ([a] @ [j]) q" for q
    using that prefix_length_less [OF that(2)] by (simp add: ok_path_def)
  from prune_slot [OF inv ok a(2) d lim this] True show ?thesis
    by (auto simp: unmap_lv1_def Let_def)
next
  case False
  then have "tbl (mem s) root [a, j] = None"
    using a(2) tbl_append [of "mem s" root "[a]" "[j]"] by (auto simp: Let_def)
  with False inv show ?thesis
    by (auto simp: unmap_lv1_def Let_def intro!: pruned_skip)
qed

lemma unmap_lv1_loop:
  assumes inv: "pt_inv L root s" and low: "low_tables L root s"
    and a: "a < 512" "tbl (mem s) root [a] = Some c"
  shows "\<exists>s'. fold_res (unmap_lv1 L c) [0..<Table_len] s = Inr s' \<and>
           pruned L root ((\<lambda>j. [a, j]) ` {..<512}) s s'"
proof -
  let ?I = "\<lambda>k. pruned L root ((\<lambda>j. [a, j]) ` {..<k}) s"
  have "\<exists>t'. unmap_lv1 L c ([0..<512] ! k) t = Inr t' \<and> ?I (Suc k) t'"
    if k: "k < length [0..<512]" and I: "?I k t" for k t
  proof -
    have "tbl (mem t) root [a] = Some c"
      using pruned_keep [OF I, of "[a]"] a by (simp add: ok_path_def cut_by_def)
    moreover have "pt_inv L root t" using I by (simp add: pruned_def)
    ultimately obtain t' where t': "unmap_lv1 L c k t = Inr t'" "pruned L root {[a, k]} t t'"
      using unmap_lv1_spec [OF _ low_tables_pruned [OF low I] a(1)] k by auto
    have "(\<lambda>j. [a, j]) ` {..<Suc k} = (\<lambda>j. [a, j]) ` {..<k} \<union> {[a, k]}" by (auto simp: lessThan_Suc)
    with pruned_trans [OF I t'(2)] a(1) k t'(1) show ?thesis by (simp add: ok_path_def)
  qed
  moreover have "?I 0 s" using inv by (auto intro: pruned_skip)
  ultimately show ?thesis
    using fold_res_invariant [of ?I s "[0..<512]" "unmap_lv1 L c"] by (simp add: Table_len_def)
qed

definition subtree :: "nat \<Rightarrow> nat list set" where
  "subtree a = (\<lambda>j. [a, j]) ` {..<512} \<union> {[a]}"

lemma unmap_lv2_spec:
  assumes inv: "pt_inv L root s" and low: "low_tables L root s" and a: "a < 512"
  shows "\<exists>s'. unmap_lv2 L root a s = Inr s' \<and> pruned L root (subtree a) s s'"
proof (cases "is_valid (pte_at (mem s) root a) \<and> is_branch (pte_at (mem s) root a)")
  case True
  let ?c = "next_table (pte_at (mem s) root a)"
  have ok: "ok_path ([] @ [a])" using a by (simp add: ok_path_def)
  have c: "tbl (mem s) root [a] = Some ?c" using True by (simp add: Let_def)
  obtain s1 where s1: "fold_res (unmap_lv1 L ?c) [0..<Table_len] s = Inr s1"
    "pruned L root ((\<lambda>j. [a, j]) ` {..<512}) s s1"
    using unmap_lv1_loop [OF inv low a c] by blast
  have c1: "tbl (mem s1) root ([] @ [a]) = Some ?c"
    using pruned_keep [OF s1(2), of "[a]"] ok c by (simp add: cut_by_def)
  have lim: "?c < heap_end L" using low ok c unfolding low_tables_def by auto
  have inv1: "pt_inv L root s1" using s1(2) by (simp add: pruned_def)
  have "tbl (mem s1) root q = None" if q: "ok_path q" "strict_prefix ([] @ [a]) q" for q
  proof -
    obtain r' where r': "q = a # r'" "r' \<noteq> []"
      using q(2) by (auto simp: strict_prefix_def prefix_def)
    then obtain j r where "q = a # j # r" by (cases r') auto
    then have "q = [a, j]" "j < 512" using q(1) by (auto simp: ok_path_def)
    then have "cut_by ((\<lambda>j. [a, j]) ` {..<512}) q" by (auto simp: cut_by_def)
    then show ?thesis using s1(2) q(1) by (simp add: pruned_def)
  qed
  from prune_slot [OF inv1 ok _ c1 lim this]
  obtain s2 where s2: "deallocate_addr L ?c s1 = Inr s2"
    "pruned L root {[a]} s1 (set_entry (root + 8 * a) 0 s2)" by auto
  from pruned_trans [OF s1(2) s2(2)] ok have "pruned L root (subtree a) s (set_entry (root + 8 * a) 0 s2)"
    by (simp add: subtree_def)
  with True s1(1) s2(1) show ?thesis by (simp add: unmap_lv2_def Let_def)
next
  case False
  then have none: "tbl (mem s) root (a # r) = None" for r by auto
  have "pruned L root (subtree a) s s"
    using inv by (rule pruned_skip) (auto simp: subtree_def none simp del: tbl.simps)
  with False show ?thesis by (auto simp: unmap_lv2_def Let_def)
qed

lemma unmap_loop:
  assumes inv: "pt_inv L root s" and low: "low_tables L root s"
  shows "\<exists>s'. unmap L root s = Inr s' \<and> pruned L root (\<Union>a < 512. subtree a) s s'"
proof -
  let ?I = "\<lambda>k. pruned L root (\<Union>a < k. subtree a) s"
  have "\<exists>t'. unmap_lv2 L root ([0..<512] ! k) t = Inr t' \<and> ?I (Suc k) t'"
    if k: "k < length [0..<512]" and I: "?I k t" for k t
  proof -
    have "pt_inv L root t" using I by (simp add: pruned_def)
    then obtain t' where t': "unmap_lv2 L root k t = Inr t'" "pruned L root (subtree k) t t'"
      using unmap_lv2_spec [OF _ low_tables_pruned [OF low I]] k by auto
    have "\<forall>p \<in> subtree k. ok_path p" using k by (auto simp: subtree_def ok_path_def)
    with pruned_trans [OF I t'(2)] k t'(1) show ?thesis by (simp add: lessThan_Suc Un_commute)
  qed
  moreover have "?I 0 s" using inv by (auto intro: pruned_skip)
  ultimately show ?thesis
    using fold_res_invariant [of ?I s "[0..<512]" "unmap_lv2 L root"] by (simp add: unmap_def Table_len_def)
qed

section \<open>Property\<close>

lemma cut_all: "ok_path q \<Longrightarrow> cut_by (\<Union>a < 512. subtree a) q \<longleftrightarrow> q \<noteq> []"
  by (cases q) (auto simp: cut_by_def subtree_def ok_path_def intro!: bexI [of _ "hd q"])

lemma leaf_all:
  assumes "full_path q"
  shows "(\<exists>p \<in> (\<Union>a < 512. subtree a). prefix p q \<and> tbl m root p \<noteq> None) \<longleftrightarrow>
         tbl m root [hd q] \<noteq> None"
proof -
  obtain a r where q: "q = a # r" "a < 512" using assms by (cases q) (auto simp: full_path_def)
  have "tbl m root [a] \<noteq> None" if "p \<in> subtree b" "prefix p q" "tbl m root p \<noteq> None" for p b
    using that tbl_prefix [OF _ that(3), of "[a]"] q by (auto simp: subtree_def)
  moreover have "[a] \<in> subtree a" "prefix [a] q" by (simp_all add: subtree_def q)
  ultimately show ?thesis using q by (metis UN_iff lessThan_iff list.sel(1))
qed

text \<open>
  C15: \<open>unmap\<close> gives back every table below the root. On a tree whose tables lie below the
  end of the heap it returns without a panic, no table is left below the root, exactly the
  pages of those tables leave the runs in use, and an address keeps its translation if it
  was mapped by an entry of the root itself and has none otherwise.
\<close>

theorem unmap_frees_tables:
  assumes "pt_inv L root s" "low_tables L root s"
  shows "\<exists>s'. unmap L root s = Inr s' \<and> pt_inv L root s' \<and>
           (\<forall>q. ok_path q \<longrightarrow> q \<noteq> [] \<longrightarrow> tbl (mem s') root q = None) \<and>
           held L s' = held L s - {(t, 1) | t q. ok_path q \<and> q \<noteq> [] \<and> tbl (mem s) root q = Some t} \<and>
           (\<forall>va. v2p (mem s') root va =
              (if tbl (mem s) root [unat (vpn va ! 2)] = None then v2p (mem s) root va else Inr None))"
proof -
  let ?P = "\<Union>a < 512. subtree a"
  obtain s' where s': "unmap L root s = Inr s'" and pr: "pruned L root ?P s s'"
    using unmap_loop [OF assms] by blast
  have inv: "pt_inv L root s'" using pr by (simp add: pruned_def)
  have "tbl (mem s') root q = None" if "ok_path q" "q \<noteq> []" for q
    using pr that cut_all [OF that(1)] by (simp add: pruned_def)
  moreover have "held L s' = held L s - {(t, 1) | t q. ok_path q \<and> q \<noteq> [] \<and> tbl (mem s) root q = Some t}"
  proof -
    have "ok_path q \<and> cut_by ?P q \<and> tbl (mem s) root q = Some t \<longleftrightarrow>
        ok_path q \<and> q \<noteq> [] \<and> tbl (mem s) root q = Some t" for q t
      using cut_all by blast
    then show ?thesis using pr by (simp only: pruned_def)
  qed
  moreover have "v2p (mem s') root va =
      (if tbl (mem s) root [unat (vpn va ! 2)] = None then v2p (mem s) root va else Inr None)" for va
  proof -
    have "hd (vpath va) = unat (vpn va ! 2)" by (simp add: vpath_def)
    then have "leaf_of (mem s') root (vpath va) =
        (if tbl (mem s) root [unat (vpn va ! 2)] = None then leaf_of (mem s) root (vpath va) else None)"
      using pr vpath_full [of va] leaf_all [OF vpath_full [of va], of "mem s" root]
      by (simp add: pruned_def del: tbl.simps)
    then show ?thesis unfolding v2p_leaf_of [OF inv] v2p_leaf_of [OF assms(1)] by (simp del: tbl.simps)
  qed
  ultimately show ?thesis using s' inv by blast
qed

lemma tiny_first_taken: "first_taken tiny_layout 0 tiny_heap" "npages tiny_layout = 4"
proof -
  show n: "npages tiny_layout = 4" by (simp add: tiny_layout_def)
  show "first_taken tiny_layout 0 tiny_heap" unfolding n by (simp add: tiny_frames_inv tiny_descriptors)
qed

text \<open>A root with one empty table behind its first slot.\<close>

lemma tiny_tree:
  obtains s :: kmem where "pt_inv tiny_layout 0x2000 s" "low_tables tiny_layout 0x2000 s"
    "tbl (mem s) 0x2000 [0] = Some 0x3000" "(0x3000, 1) \<in> held tiny_layout s"
proof -
  obtain s where s: "zallocate tiny_layout 1 tiny_heap = Inr (Some 0x2000, s)"
    "first_taken tiny_layout (Suc 0) s" "ALLOC_START s = 0x2000"
    using zallocate_next_page [OF tiny_first_taken(1)] tiny_first_taken(2)
    by (auto simp: tiny_heap_def)
  obtain s1 where s1: "zallocate tiny_layout 1 s = Inr (Some 0x3000, s1)"
    using zallocate_next_page [OF s(2)] s(3) tiny_first_taken(2) by auto
  note fr = fresh_root [OF tiny_frames_inv s(1)]
  let ?s = "set_entry (0x2000 + 8 * 0) (branch_pte 0x3000) s1"
  have slot: "is_invalid (pte_at (mem s) 0x2000 0)"
    using zero_table [of "0x2000" "mem s" 0] zallocate_Some(7) [OF tiny_frames_inv s(1)] by simp
  have root: "tbl (mem s) 0x2000 [] = Some 0x2000" "ok_path []" by (simp_all add: ok_path_def)
  note gr = fresh_table_grown [OF fr(1) root(2) _ root(1) _ slot s1 refl]
  have inv: "pt_inv tiny_layout 0x2000 ?s" using gr(1) by (simp add: grown_def)
  have t: "tbl (mem ?s) 0x2000 [0] = Some 0x3000" using gr(2) by simp
  have "low_tables tiny_layout 0x2000 ?s"
    unfolding low_tables_def
  proof (intro allI impI)
    fix q u assume q: "ok_path q" "q \<noteq> []" "tbl (mem ?s) 0x2000 q = Some u"
    have "tbl (mem ?s) 0x2000 q = None" if "q \<noteq> [0]"
      using gr(1) that q(1) fr(3) [OF q(1,2)] by (auto simp: grown_def)
    with q(3) t have "u = 0x3000" by (cases "q = [0]") auto
    then show "u < heap_end tiny_layout" by (simp add: tiny_layout_def)
  qed
  with that inv t pt_invD(2) [OF inv _ t] show ?thesis by (simp add: ok_path_def)
qed

theorem unmap_frees_tables_witness:
  "\<exists>(s :: kmem) s'. tbl (mem s) 0x2000 [0] = Some 0x3000 \<and> (0x3000, 1) \<in> held tiny_layout s \<and>
     unmap tiny_layout 0x2000 s = Inr s' \<and> tbl (mem s') 0x2000 [0] = None \<and>
     (0x3000, 1) \<notin> held tiny_layout s'"
proof -
  obtain s :: kmem where s: "pt_inv tiny_layout 0x2000 s" "low_tables tiny_layout 0x2000 s"
    "tbl (mem s) 0x2000 [0] = Some 0x3000" "(0x3000, 1) \<in> held tiny_layout s" by (rule tiny_tree)
  obtain s' where s': "unmap tiny_layout 0x2000 s = Inr s'"
    "\<forall>q. ok_path q \<longrightarrow> q \<noteq> [] \<longrightarrow> tbl (mem s') 0x2000 q = None"
    "held tiny_layout s' = held tiny_layout s -
       {(t, 1) | t q. ok_path q \<and> q \<noteq> [] \<and> tbl (mem s) 0x2000 q = Some t}"
    using unmap_frees_tables [OF s(1,2)] by blast
  have ok: "ok_path [0]" by (simp add: ok_path_def)
  have "(0x3000, 1) \<in> {(t, 1) | t q. ok_path q \<and> q \<noteq> [] \<and> tbl (mem s) 0x2000 q = Some t}"
    using ok s(3) by blast
  then have "(0x3000, 1) \<notin> held tiny_layout s'" unfolding s'(3) by blast
  with s s'(1,2) ok show ?thesis by blast
qed

end
