(* ===== verification/Process.thy ===== *)
theory Process
  imports PageFrame
begin

text \<open>
  Processes and the scheduler (\<open>src/process/process.rs\<close>, \<open>src/process/table.rs\<close>) and the
  trap frame (\<open>src/arch/riscv64/trap_frame.rs\<close>).

  The static process table and the PID counter extend the kernel state of the allocator.
  A pointer to a trap frame is either the static frame of the trap handler or the frame
  inside a slot of the table (\<open>frame_ptr\<close>). \<open>spawn_kernel\<close>, \<open>schedule\<close> and
  \<open>exit_current\<close> keep their names; the search of \<open>schedule\<close> is \<open>pick_runnable\<close>.
\<close>

section \<open>Data\<close>

record TrapFrame =
  regs :: "u64 list"
  fregs :: "u64 list"
  satp :: u64
  trap_stack :: u64
  hartid :: u64

definition TrapFrame_empty :: TrapFrame where
  "TrapFrame_empty =
     \<lparr>regs = replicate 32 0, fregs = replicate 32 0, satp = 0, trap_stack = 0, hartid = 0\<rparr>"

datatype ProcessState = Running | Dead

record Process =
  frame :: TrapFrame
  stack :: nat
  pc :: u64
  pid :: u16
  state :: ProcessState

datatype frame_ptr = StaticFrame | SlotFrame nat

datatype SpawnError = TableFull | OutOfMemory

definition STACK_PAGES :: nat where "STACK_PAGES = 2"
definition MAX_PROCESSES :: nat where "MAX_PROCESSES = 16"

lemma process_consts [simp]: "STACK_PAGES = 2" "MAX_PROCESSES = 16"
  by (simp_all add: STACK_PAGES_def MAX_PROCESSES_def)

record proc_state = kmem +
  slots :: "Process option list"
  current :: "nat option"
  NEXT_PID :: u16

section \<open>Operations\<close>

text \<open>The new process of \<open>spawn_kernel\<close>; \<open>ttop\<close> is \<open>trap::trap_stack_top()\<close>.\<close>

definition new_process :: "u64 \<Rightarrow> u64 \<Rightarrow> nat \<Rightarrow> u16 \<Rightarrow> Process" where
  "new_process ttop entry stk p =
     (let stack_top = of_nat (stk + STACK_PAGES * PAGE_SIZE);
          fr = TrapFrame_empty;
          fr = fr\<lparr>regs := (regs fr)[2 := stack_top]\<rparr>;
          fr = fr\<lparr>trap_stack := ttop\<rparr>;
          fr = fr\<lparr>hartid := 0\<rparr>
      in \<lparr>frame = fr, stack = stk, pc = entry, pid = p, state = Running\<rparr>)"

definition spawn_kernel ::
  "linker \<Rightarrow> u64 \<Rightarrow> u64 \<Rightarrow> 'z proc_state_scheme \<Rightarrow> ((SpawnError + u16) \<times> 'z proc_state_scheme) res"
where
  "spawn_kernel L ttop entry s =
     bind_res (zallocate L STACK_PAGES s) (\<lambda>(stk, s1).
     case stk of
       None \<Rightarrow> Inr (Inl OutOfMemory, s1)
     | Some stk \<Rightarrow>
         let p = NEXT_PID s1;
             s2 = s1\<lparr>NEXT_PID := p + 1\<rparr>;
             proc = new_process ttop entry stk p
         in (case position (\<lambda>slot. slot = None) (slots s2) of
               None \<Rightarrow> Inr (Inl TableFull, s2)
             | Some i \<Rightarrow> Inr (Inr p, s2\<lparr>slots := (slots s2)[i := Some proc]\<rparr>)))"

text \<open>\<open>schedule\<close>: saving the program counter of the running process, then the search.\<close>

definition save_pc :: "u64 \<Rightarrow> 'z proc_state_scheme \<Rightarrow> 'z proc_state_scheme res" where
  "save_pc epc s =
     (case current s of
        None \<Rightarrow> Inr s
      | Some idx \<Rightarrow>
          if idx < length (slots s) then
            (case slots s ! idx of
               Some proc \<Rightarrow>
                 if state proc = Running
                 then Inr (s\<lparr>slots := (slots s)[idx := Some (proc\<lparr>pc := epc\<rparr>)]\<rparr>)
                 else Inr s
             | None \<Rightarrow> Inr s)
          else Inl IndexOutOfBounds)"

fun pick_runnable :: "Process option list \<Rightarrow> nat \<Rightarrow> nat list \<Rightarrow> (nat \<times> Process) option" where
  "pick_runnable slts start [] = None"
| "pick_runnable slts start (offset # offs) =
     (let i = (start + offset) mod length slts in
      case slts ! i of
        Some proc \<Rightarrow>
          if state proc = Running then Some (i, proc) else pick_runnable slts start offs
      | None \<Rightarrow> pick_runnable slts start offs)"

definition schedule ::
  "u64 \<Rightarrow> 'z proc_state_scheme \<Rightarrow> ((frame_ptr \<times> u64) option \<times> 'z proc_state_scheme) res"
where
  "schedule epc s =
     bind_res (save_pc epc s) (\<lambda>s1.
     let n = length (slots s1);
         start = (case current s1 of None \<Rightarrow> 0 | Some i \<Rightarrow> (i + 1) mod n)
     in case pick_runnable (slots s1) start [0..<n] of
          Some (i, proc) \<Rightarrow> Inr (Some (SlotFrame i, pc proc), s1\<lparr>current := Some i\<rparr>)
        | None \<Rightarrow> Inr (None, s1\<lparr>current := None\<rparr>))"

definition exit_current :: "'z proc_state_scheme \<Rightarrow> (u16 option \<times> 'z proc_state_scheme) res" where
  "exit_current s =
     (case current s of
        None \<Rightarrow> Inr (None, s)
      | Some idx \<Rightarrow>
          if idx < length (slots s) then
            (case slots s ! idx of
               None \<Rightarrow> Inr (None, s)
             | Some proc \<Rightarrow>
                 Inr (Some (pid proc), s\<lparr>slots := (slots s)[idx := None], current := None\<rparr>))
          else Inl IndexOutOfBounds)"

section \<open>The invariant of the table\<close>

text \<open>
  \<open>proc_inv\<close>: the table has its fixed length, \<open>current\<close> is an index of it, every process
  owns a stack of two pages taken from the allocator, and no two processes share a stack.
\<close>

definition proc_at :: "'z proc_state_scheme \<Rightarrow> nat \<Rightarrow> Process option" where
  "proc_at s i = (if i < length (slots s) then slots s ! i else None)"

definition table_ok :: "'z proc_state_scheme \<Rightarrow> bool" where
  "table_ok s \<longleftrightarrow> length (slots s) = 16 \<and> (\<forall>i. current s = Some i \<longrightarrow> i < 16)"

definition proc_inv :: "linker \<Rightarrow> 'z proc_state_scheme \<Rightarrow> bool" where
  "proc_inv L s \<longleftrightarrow>
     frames_inv L s \<and> table_ok s \<and>
     (\<forall>i p. proc_at s i = Some p \<longrightarrow> (stack p, 2) \<in> held L s) \<and>
     (\<forall>i j p q. proc_at s i = Some p \<longrightarrow> proc_at s j = Some q \<longrightarrow> stack p = stack q \<longrightarrow> i = j)"

definition runnable :: "'z proc_state_scheme \<Rightarrow> nat \<Rightarrow> bool" where
  "runnable s i \<longleftrightarrow> (\<exists>p. proc_at s i = Some p \<and> state p = Running)"

lemma proc_invD:
  assumes "proc_inv L s"
  shows "frames_inv L s" "table_ok s" "\<And>i p. proc_at s i = Some p \<Longrightarrow> (stack p, 2) \<in> held L s"
    "\<And>i j p q. proc_at s i = Some p \<Longrightarrow> proc_at s j = Some q \<Longrightarrow> stack p = stack q \<Longrightarrow> i = j"
  using assms unfolding proc_inv_def by blast+

text \<open>The allocator's invariant and runs read only the memory part of the state.\<close>

lemma frames_proc_update [simp]:
  "frames_inv L (s\<lparr>slots := x\<rparr>) = frames_inv L s" "frames_inv L (s\<lparr>current := c\<rparr>) = frames_inv L s"
  "frames_inv L (s\<lparr>NEXT_PID := n\<rparr>) = frames_inv L s"
  "held L (s\<lparr>slots := x\<rparr>) = held L s" "held L (s\<lparr>current := c\<rparr>) = held L s"
  "held L (s\<lparr>NEXT_PID := n\<rparr>) = held L s"
  by (simp_all add: frames_inv_def held_def descriptors_def)

lemma proc_at_update [simp]:
  "proc_at (s\<lparr>current := c\<rparr>) i = proc_at s i" "proc_at (s\<lparr>NEXT_PID := n\<rparr>) i = proc_at s i"
  by (simp_all add: proc_at_def)

lemma proc_at_slots:
  "k < length (slots s) \<Longrightarrow> proc_at (s\<lparr>slots := (slots s)[k := x]\<rparr>) i = (if i = k then x else proc_at s i)"
  by (simp add: proc_at_def)

text \<open>The extension of the state by the allocator's operations.\<close>

lemma more_eq:
  "kmem.more s' = kmem.more s \<Longrightarrow> slots s' = slots s \<and> current s' = current s \<and> NEXT_PID s' = NEXT_PID s"
  for s s' :: "'z proc_state_scheme"
  by (cases s; cases s') simp

section \<open>Spawning\<close>

text \<open>What \<open>spawn_kernel\<close> does, case by case.\<close>

lemma spawn_kernel_cases:
  assumes inv: "proc_inv L s"
  obtains (oom) "zallocate L 2 s = Inr (None, s)" "spawn_kernel L ttop entry s = Inr (Inl OutOfMemory, s)"
    | (full) stk s1 where "zallocate L 2 s = Inr (Some stk, s1)"
        "\<And>i. i < 16 \<Longrightarrow> proc_at s i \<noteq> None"
        "spawn_kernel L ttop entry s = Inr (Inl TableFull, s1\<lparr>NEXT_PID := NEXT_PID s + 1\<rparr>)"
    | (spawned) stk s1 i where "zallocate L 2 s = Inr (Some stk, s1)"
        "i < 16" "proc_at s i = None" "\<And>j. j < i \<Longrightarrow> proc_at s j \<noteq> None"
        "spawn_kernel L ttop entry s =
           Inr (Inr (NEXT_PID s), s1\<lparr>NEXT_PID := NEXT_PID s + 1,
             slots := (slots s)[i := Some (new_process ttop entry stk (NEXT_PID s))]\<rparr>)"
proof -
  have fr: "frames_inv L s" and len: "length (slots s) = 16"
    using proc_invD(1,2) [OF inv] by (simp_all add: table_ok_def)
  obtain r s1 where z: "zallocate L 2 s = Inr (r, s1)" using zallocate_total [OF fr, of 2] by auto
  show ?thesis
  proof (cases r)
    case None
    with z zallocate_None(1) [OF fr] oom show ?thesis by (simp add: spawn_kernel_def)
  next
    case (Some stk)
    have same: "slots s1 = slots s" "NEXT_PID s1 = NEXT_PID s"
      using more_eq zallocate_Some(6) [OF fr z [unfolded Some]] by auto
    show ?thesis
    proof (cases "position (\<lambda>slot. slot = None) (slots s)")
      case None
      then have "proc_at s i \<noteq> None" if "i < 16" for i
        using that len unfolding position_None by (auto simp: proc_at_def)
      with None z Some full same show ?thesis by (simp add: spawn_kernel_def)
    next
      case (Some i)
      then have "i < 16" "proc_at s i = None" "\<And>j. j < i \<Longrightarrow> proc_at s j \<noteq> None"
        unfolding position_Some using len by (auto simp: proc_at_def)
      with Some z \<open>r = Some stk\<close> spawned same show ?thesis by (simp add: spawn_kernel_def Let_def)
    qed
  qed
qed

lemma new_process_sel [simp]:
  "stack (new_process ttop entry stk p) = stk" "pc (new_process ttop entry stk p) = entry"
  "pid (new_process ttop entry stk p) = p" "state (new_process ttop entry stk p) = Running"
  "regs (frame (new_process ttop entry stk p)) = (replicate 32 0)[2 := of_nat (stk + 8192)]"
  "trap_stack (frame (new_process ttop entry stk p)) = ttop"
  by (simp_all add: new_process_def TrapFrame_empty_def Let_def)

lemma spawn_kernel_inv:
  assumes inv: "proc_inv L s" and sp: "spawn_kernel L ttop entry s = Inr (r, s')"
  shows "proc_inv L s'"
proof -
  have fr: "frames_inv L s" and tok: "table_ok s" using proc_invD(1,2) [OF inv] .
  show ?thesis
  proof (rule spawn_kernel_cases [OF inv, of ttop entry])
    assume "spawn_kernel L ttop entry s = Inr (Inl OutOfMemory, s)"
    with sp inv show ?thesis by simp
  next
    fix stk s1
    assume z: "zallocate L 2 s = Inr (Some stk, s1)"
      and k: "spawn_kernel L ttop entry s = Inr (Inl TableFull, s1\<lparr>NEXT_PID := NEXT_PID s + 1\<rparr>)"
    note za = zallocate_Some [OF fr z]
    note same = more_eq [OF za(6)]
    have pa: "proc_at s1 = proc_at s" using same by (simp add: proc_at_def fun_eq_iff)
    show ?thesis
      using sp k za(1,2) inv same by (auto simp: proc_inv_def table_ok_def pa)
  next
    fix stk s1 i
    assume z: "zallocate L 2 s = Inr (Some stk, s1)" and i: "i < 16" "proc_at s i = None"
      and k: "spawn_kernel L ttop entry s =
           Inr (Inr (NEXT_PID s), s1\<lparr>NEXT_PID := NEXT_PID s + 1,
             slots := (slots s)[i := Some (new_process ttop entry stk (NEXT_PID s))]\<rparr>)"
    note za = zallocate_Some [OF fr z]
    note same = more_eq [OF za(6)]
    have s': "s' = s1\<lparr>NEXT_PID := NEXT_PID s + 1,
             slots := (slots s)[i := Some (new_process ttop entry stk (NEXT_PID s))]\<rparr>"
      using sp k by simp
    have pa: "proc_at s' j = (if j = i then Some (new_process ttop entry stk (NEXT_PID s)) else proc_at s j)" for j
      using i(1) tok by (auto simp: s' proc_at_def table_ok_def)
    have hd: "held L s' = insert (stk, 2) (held L s)" using za(2) by (simp add: s')
    have new: "stack p \<noteq> stk" if "proc_at s j = Some p" for j p
      using proc_invD(3) [OF inv that] za(3) by auto
    show ?thesis
      unfolding proc_inv_def
    proof (intro conjI allI impI)
      show "frames_inv L s'" using za(1) by (simp add: s')
      show "table_ok s'" using tok same by (simp add: s' table_ok_def)
      show "(stack p, 2) \<in> held L s'" if "proc_at s' j = Some p" for j p
        using that proc_invD(3) [OF inv] by (auto simp: pa hd split: if_splits)
      show "j = k" if "proc_at s' j = Some p" "proc_at s' k = Some q" "stack p = stack q" for j k p q
        using that proc_invD(4) [OF inv] new [of j p] new [of k q] by (auto simp: pa split: if_splits)
    qed
  qed
qed

section \<open>Scheduling\<close>

lemma pick_runnable_None:
  "pick_runnable slts start offs = None \<longleftrightarrow>
     (\<forall>k \<in> set offs. \<forall>p. slts ! ((start + k) mod length slts) = Some p \<longrightarrow> state p \<noteq> Running)"
  by (induction offs) (auto simp: Let_def split: option.splits)

lemma pick_runnable_Some:
  assumes "pick_runnable slts start offs = Some (i, p)"
  obtains k where "k < length offs" "i = (start + offs ! k) mod length slts" "slts ! i = Some p"
    "state p = Running"
    "\<And>m q. m < k \<Longrightarrow> slts ! ((start + offs ! m) mod length slts) = Some q \<Longrightarrow> state q \<noteq> Running"
  using assms
proof (induction offs arbitrary: thesis)
  case Nil
  then show ?case by simp
next
  case (Cons c offs)
  show ?case
  proof (cases "\<exists>q. slts ! ((start + c) mod length slts) = Some q \<and> state q = Running")
    case True
    with Cons.prems(2) have "i = (start + c) mod length slts" "slts ! i = Some p" "state p = Running"
      by (auto simp: Let_def)
    then show ?thesis using Cons.prems(1) [of 0] by simp
  next
    case False
    then have "pick_runnable slts start offs = Some (i, p)"
      using Cons.prems(2) by (auto simp: Let_def split: option.splits if_splits)
    from Cons.IH [OF _ this] obtain k where k: "k < length offs" "i = (start + offs ! k) mod length slts"
      "slts ! i = Some p" "state p = Running"
      "\<And>m q. m < k \<Longrightarrow> slts ! ((start + offs ! m) mod length slts) = Some q \<Longrightarrow> state q \<noteq> Running"
      by blast
    show ?thesis
    proof (rule Cons.prems(1) [of "Suc k"])
      show "state q \<noteq> Running"
        if "m < Suc k" "slts ! ((start + (c # offs) ! m) mod length slts) = Some q" for m q
        using that False k(5) by (cases m) auto
    qed (use k in auto)
  qed
qed

text \<open>The slots after \<open>save_pc\<close>, and where the search begins.\<close>

definition saved :: "u64 \<Rightarrow> 'z proc_state_scheme \<Rightarrow> nat \<Rightarrow> Process option" where
  "saved epc s i =
     (if current s = Some i then map_option (\<lambda>p. if state p = Running then p\<lparr>pc := epc\<rparr> else p) (proc_at s i)
      else proc_at s i)"

definition search_start :: "'z proc_state_scheme \<Rightarrow> nat" where
  "search_start s = (case current s of None \<Rightarrow> 0 | Some i \<Rightarrow> (i + 1) mod 16)"

lemma save_pc_spec:
  assumes "table_ok s"
  shows "\<exists>xs. save_pc epc s = Inr (s\<lparr>slots := xs\<rparr>) \<and> length xs = 16 \<and> (\<forall>i < 16. xs ! i = saved epc s i)"
proof (cases "current s")
  case None
  then have "save_pc epc s = Inr (s\<lparr>slots := slots s\<rparr>)" by (simp add: save_pc_def)
  with None assms show ?thesis
    by (intro exI [of _ "slots s"]) (simp add: saved_def proc_at_def table_ok_def)
next
  case (Some c)
  then have c: "c < 16" "length (slots s) = 16" using assms by (auto simp: table_ok_def)
  let ?xs = "(slots s)[c := map_option (\<lambda>p. if state p = Running then p\<lparr>pc := epc\<rparr> else p) (slots s ! c)]"
  have "save_pc epc s = Inr (s\<lparr>slots := ?xs\<rparr>)"
    using Some c by (auto simp: save_pc_def list_update_same_conv [THEN iffD2] split: option.splits)
  with Some c show ?thesis
    by (intro exI [of _ ?xs]) (auto simp: saved_def proc_at_def)
qed

lemma runnable_saved: "(\<exists>p. saved epc s i = Some p \<and> state p = Running) \<longleftrightarrow> runnable s i"
  by (auto simp: saved_def runnable_def)

lemma schedule_cases:
  assumes "table_ok s"
  obtains (idle) s' where "\<And>i. \<not> runnable s i" "schedule epc s = Inr (None, s')" "current s' = None"
      "\<And>i. proc_at s' i = saved epc s i" "table_ok s'" "proc_state.more s' = proc_state.more s"
      "frames_inv L s' = frames_inv L s" "held L s' = held L s"
    | (picked) k i p s' where "k < 16" "i = (search_start s + k) mod 16" "runnable s i"
      "\<And>m. m < k \<Longrightarrow> \<not> runnable s ((search_start s + m) mod 16)"
      "saved epc s i = Some p" "schedule epc s = Inr (Some (SlotFrame i, pc p), s')" "current s' = Some i"
      "\<And>i. proc_at s' i = saved epc s i" "table_ok s'" "proc_state.more s' = proc_state.more s"
      "frames_inv L s' = frames_inv L s" "held L s' = held L s"
proof -
  obtain xs where xs: "save_pc epc s = Inr (s\<lparr>slots := xs\<rparr>)" "length xs = 16" "\<forall>i < 16. xs ! i = saved epc s i"
    using save_pc_spec [OF assms] by blast
  have len: "length (slots s) = 16" using assms by (simp add: table_ok_def)
  have pa: "proc_at (s\<lparr>slots := xs, current := c\<rparr>) i = saved epc s i" for i c
    using xs len by (auto simp: proc_at_def saved_def)
  have run: "runnable s i \<longleftrightarrow> (\<exists>p. xs ! i = Some p \<and> state p = Running)" if "i < 16" for i
    using runnable_saved [of epc s i] xs(3) that by simp
  show ?thesis
  proof (cases "pick_runnable xs (search_start s) [0..<16]")
    case None
    have "\<not> runnable s i" for i
    proof
      assume r: "runnable s i"
      then have i: "i < 16" using len by (auto simp: runnable_def proc_at_def split: if_splits)
      let ?k = "(i + 16 - search_start s) mod 16"
      have "search_start s < 16" by (simp add: search_start_def split: option.split)
      then have "(search_start s + ?k) mod 16 = i" using i by (simp add: mod_add_right_eq)
      moreover have "?k \<in> set [0..<16]" by simp
      ultimately show False using None r run [OF i] unfolding pick_runnable_None xs(2) by metis
    qed
    moreover have "schedule epc s = Inr (None, s\<lparr>slots := xs, current := None\<rparr>)"
      using xs None by (simp add: schedule_def search_start_def [symmetric])
    moreover have "table_ok (s\<lparr>slots := xs, current := None\<rparr>)" using xs(2) by (simp add: table_ok_def)
    ultimately show ?thesis using idle [of "s\<lparr>slots := xs, current := None\<rparr>"] pa by simp
  next
    case (Some ip)
    obtain i p where ip: "ip = (i, p)" by force
    from Some [unfolded ip] obtain k where
      "k < length [0..<16]" "i = (search_start s + [0..<16] ! k) mod length xs"
      "xs ! i = Some p" "state p = Running"
      "\<And>m q. m < k \<Longrightarrow> xs ! ((search_start s + [0..<16] ! m) mod length xs) = Some q \<Longrightarrow> state q \<noteq> Running"
      by (rule pick_runnable_Some) blast
    note k = this [unfolded xs(2)]
    have i: "i < 16" using k(2) by simp
    have "\<not> runnable s ((search_start s + m) mod 16)" if "m < k" for m
      using k(1) k(5) [OF that] that run by auto
    moreover have "schedule epc s = Inr (Some (SlotFrame i, pc p), s\<lparr>slots := xs, current := Some i\<rparr>)"
      using xs Some ip by (simp add: schedule_def search_start_def [symmetric])
    moreover have "table_ok (s\<lparr>slots := xs, current := Some i\<rparr>)" using xs(2) i by (simp add: table_ok_def)
    ultimately show ?thesis
      using picked [of k i p "s\<lparr>slots := xs, current := Some i\<rparr>"] k i run xs(3) pa by auto
  qed
qed

lemma saved_stack: "saved epc s i = Some q \<Longrightarrow> \<exists>p. proc_at s i = Some p \<and> stack q = stack p \<and> pid q = pid p"
  by (auto simp: saved_def split: if_splits)

lemma schedule_effect:
  assumes "table_ok s" "schedule epc s = Inr (r, s')"
  shows "table_ok s'" "\<And>i. proc_at s' i = saved epc s i" "proc_state.more s' = proc_state.more s"
    "frames_inv L s' = frames_inv L s" "held L s' = held L s"
proof -
  have "table_ok s' \<and> (\<forall>i. proc_at s' i = saved epc s i) \<and> proc_state.more s' = proc_state.more s \<and>
      frames_inv L s' = frames_inv L s \<and> held L s' = held L s"
    by (rule schedule_cases [OF assms(1), of epc L]) (use assms(2) in auto)
  then show "table_ok s'" "\<And>i. proc_at s' i = saved epc s i" "proc_state.more s' = proc_state.more s"
    "frames_inv L s' = frames_inv L s" "held L s' = held L s" by blast+
qed

lemma schedule_inv:
  assumes inv: "proc_inv L s" and sc: "schedule epc s = Inr (r, s')"
  shows "proc_inv L s'"
proof -
  note ef = schedule_effect [OF proc_invD(2) [OF inv] sc]
  then have s': "frames_inv L s'" "table_ok s'" "held L s' = held L s" "\<And>i. proc_at s' i = saved epc s i"
    using proc_invD(1) [OF inv] by auto
  show ?thesis
    unfolding proc_inv_def
  proof (intro conjI allI impI)
    show "(stack p, 2) \<in> held L s'" if "proc_at s' i = Some p" for i p
      using that saved_stack [of epc s i p] proc_invD(3) [OF inv] s'(3,4) by auto
    show "i = j" if "proc_at s' i = Some p" "proc_at s' j = Some q" "stack p = stack q" for i j p q
      using that saved_stack [of epc s i p] saved_stack [of epc s j q] proc_invD(4) [OF inv] s'(4) by metis
  qed (use s' in auto)
qed

lemma exit_current_cases:
  assumes "table_ok s"
  obtains (none) "exit_current s = Inr (None, s)"
      "\<forall>i p. current s = Some i \<longrightarrow> proc_at s i = None"
    | (exits) i p where "current s = Some i" "i < 16" "proc_at s i = Some p"
      "exit_current s = Inr (Some (pid p), s\<lparr>slots := (slots s)[i := None], current := None\<rparr>)"
proof (cases "current s")
  case None
  with none show ?thesis by (simp add: exit_current_def)
next
  case (Some i)
  then have i: "i < 16" "length (slots s) = 16" using assms by (auto simp: table_ok_def)
  show ?thesis
  proof (cases "slots s ! i")
    case None
    with Some i none show ?thesis by (simp add: exit_current_def proc_at_def)
  next
    case (Some p)
    with \<open>current s = Some i\<close> i exits show ?thesis by (simp add: exit_current_def proc_at_def)
  qed
qed

lemma exit_current_inv:
  assumes inv: "proc_inv L s" and ex: "exit_current s = Inr (r, s')"
  shows "proc_inv L s'"
proof (rule exit_current_cases [OF proc_invD(2) [OF inv]])
  assume "exit_current s = Inr (None, s)"
  with ex inv show ?thesis by simp
next
  fix i p
  assume i: "i < 16" "exit_current s = Inr (Some (pid p), s\<lparr>slots := (slots s)[i := None], current := None\<rparr>)"
  have s': "s' = s\<lparr>slots := (slots s)[i := None], current := None\<rparr>" using ex i(2) by simp
  have pa: "proc_at s' j = (if j = i then None else proc_at s j)" for j
    using i(1) proc_invD(2) [OF inv] by (auto simp: s' proc_at_def table_ok_def)
  have "table_ok s'" using proc_invD(2) [OF inv] by (simp add: s' table_ok_def)
  moreover have "held L s' = held L s" "frames_inv L s'" using proc_invD(1) [OF inv] by (simp_all add: s')
  ultimately show ?thesis
    using proc_invD(3,4) [OF inv] unfolding proc_inv_def by (auto simp: pa)
qed

section \<open>Reachable tables\<close>

text \<open>
  The table as the kernel drives it: from the static initialiser, by the three operations, with
  the allocator serving others and owners writing into their runs in between.
\<close>

definition boot_table :: "'z proc_state_scheme \<Rightarrow> bool" where
  "boot_table s \<longleftrightarrow> slots s = replicate MAX_PROCESSES None \<and> current s = None \<and> NEXT_PID s = 1"

inductive proc_reach :: "linker \<Rightarrow> proc_state \<Rightarrow> bool" for L where
  boot: "boot_table s \<Longrightarrow> frames_inv L s \<Longrightarrow> proc_reach L s"
| spawn: "proc_reach L s \<Longrightarrow> spawn_kernel L ttop entry s = Inr (r, s') \<Longrightarrow> proc_reach L s'"
| tick: "proc_reach L s \<Longrightarrow> schedule epc s = Inr (r', s') \<Longrightarrow> proc_reach L s'"
| leave: "proc_reach L s \<Longrightarrow> exit_current s = Inr (r'', s') \<Longrightarrow> proc_reach L s'"
| others_alloc: "proc_reach L s \<Longrightarrow> allocate L n s = Inr (q, s') \<Longrightarrow> proc_reach L s'"
| others_free: "proc_reach L s \<Longrightarrow> (a, n) \<in> held L s \<Longrightarrow> (\<And>i p. proc_at s i = Some p \<Longrightarrow> stack p \<noteq> a) \<Longrightarrow>
    deallocate L a s = Inr s' \<Longrightarrow> proc_reach L s'"
| owner_write: "proc_reach L s \<Longrightarrow> (a, n) \<in> held L s \<Longrightarrow> a \<le> x \<Longrightarrow> x < a + n * PAGE_SIZE \<Longrightarrow>
    proc_reach L (s\<lparr>mem := (mem s)(x := v)\<rparr>)"

inductive_cases proc_reachE: "proc_reach L s"

lemma boot_table_inv:
  assumes "boot_table s" "frames_inv L s"
  shows "proc_inv L s"
proof -
  have "proc_at s i = None" for i using assms(1) by (simp add: boot_table_def proc_at_def)
  with assms show ?thesis by (simp add: proc_inv_def boot_table_def table_ok_def)
qed

text \<open>A step that keeps the table, the invariant of the allocator and the stacks keeps the invariant.\<close>

lemma proc_inv_heap:
  assumes inv: "proc_inv L s" and fr: "frames_inv L s'" and more: "kmem.more s' = kmem.more s"
    and held: "\<And>i p. proc_at s i = Some p \<Longrightarrow> (stack p, 2) \<in> held L s'"
  shows "proc_inv L s'"
proof -
  have t: "slots s' = slots s" "current s' = current s" using more by (cases s; cases s'; simp)+
  then have "proc_at s' i = proc_at s i" for i by (simp add: proc_at_def)
  with inv fr held t show ?thesis by (simp add: proc_inv_def table_ok_def)
qed

lemma proc_reach_inv: "proc_reach L s \<Longrightarrow> proc_inv L s"
proof (induction rule: proc_reach.induct)
  case (others_alloc s n q s')
  note inv = proc_invD(1) [OF others_alloc.IH]
  show ?case
  proof (cases q)
    case None
    then show ?thesis using allocate_None(1) [OF inv] others_alloc by auto
  next
    case (Some p)
    note al = allocate_Some [OF inv others_alloc.hyps(2) [unfolded Some]]
    show ?thesis by (rule proc_inv_heap [OF others_alloc.IH al(1,6)]) (use al(2) proc_invD(3) [OF others_alloc.IH] in auto)
  qed
next
  case (others_free s a n s')
  note inv = proc_invD(1) [OF others_free.IH]
  from deallocate_held [OF inv others_free.hyps(2) deallocate_bounds [OF inv others_free.hyps(4)]] others_free.hyps(4)
  have d: "frames_inv L s'" "held L s' = held L s - {(a, n)}" "kmem.more s' = kmem.more s" by auto
  show ?case by (rule proc_inv_heap [OF others_free.IH d(1,3)]) (use d(2) others_free.hyps(3) proc_invD(3) [OF others_free.IH] in auto)
next
  case (owner_write s a n x v)
  have "x \<notin> desc_region L"
    using held_off_table [OF proc_invD(1) [OF owner_write.IH] owner_write.hyps(2)] owner_write.hyps(3,4) by auto
  then have f: "frames_inv L (s\<lparr>mem := (mem s)(x := v)\<rparr>) = frames_inv L s" "held L (s\<lparr>mem := (mem s)(x := v)\<rparr>) = held L s"
    by (intro frames_frame; auto)+
  show ?case by (rule proc_inv_heap [OF owner_write.IH]) (use f proc_invD(1,3) [OF owner_write.IH] in auto)
qed (auto intro: boot_table_inv spawn_kernel_inv schedule_inv exit_current_inv)

text \<open>The program counter process \<open>j\<close> resumes at if it is interrupted at \<open>epc\<close> when it runs.\<close>

definition resume_pc :: "u64 \<Rightarrow> 'z proc_state_scheme \<Rightarrow> nat \<Rightarrow> u64" where
  "resume_pc epc s j = (case saved epc s j of Some p \<Rightarrow> pc p | None \<Rightarrow> 0)"

section \<open>Properties\<close>

text \<open>A table with two processes, in slots 0 and 3, on the heap of four pages.\<close>

definition tiny_procs :: proc_state where
  "tiny_procs =
     \<lparr>mem = (\<lambda>_. 0), ALLOC_START = 0x2000,
      slots = (replicate 16 None)[0 := Some (new_process 0 0x80001000 0x2000 1),
                                  3 := Some (new_process 0 0x80002000 0x4000 2)],
      current = Some 3, NEXT_PID = 3\<rparr>"

lemma tiny_procs_ok: "table_ok tiny_procs" "runnable tiny_procs 0" "runnable tiny_procs 3"
  by (simp_all add: table_ok_def runnable_def proc_at_def tiny_procs_def)

text \<open>
  C17: \<open>schedule\<close> is round robin. It returns on every table; if no process is runnable it
  reports none, and otherwise it picks the first runnable slot at or after the successor of
  the current one, cyclically, returning the frame of that slot and its saved program
  counter. Only the program counter of the interrupted process changes.
\<close>

theorem schedule_round_robin:
  assumes "table_ok s"
  shows "(\<exists>s'. (\<forall>i. \<not> runnable s i) \<and> schedule epc s = Inr (None, s') \<and> current s' = None \<and>
             (\<forall>i. proc_at s' i = saved epc s i))
         \<or> (\<exists>k i s'. k < 16 \<and> i = (search_start s + k) mod 16 \<and> runnable s i \<and>
               (\<forall>m < k. \<not> runnable s ((search_start s + m) mod 16)) \<and>
               schedule epc s = Inr (Some (SlotFrame i, resume_pc epc s i), s') \<and>
               current s' = Some i \<and> (\<forall>i. proc_at s' i = saved epc s i))"
proof (rule schedule_cases [OF assms, of epc])
  fix k i p s'
  assume a: "k < 16" "i = (search_start s + k) mod 16" "runnable s i"
    "\<And>m. m < k \<Longrightarrow> \<not> runnable s ((search_start s + m) mod 16)"
    "saved epc s i = Some p" "schedule epc s = Inr (Some (SlotFrame i, pc p), s')" "current s' = Some i"
    "\<And>i. proc_at s' i = saved epc s i"
  then have "schedule epc s = Inr (Some (SlotFrame i, resume_pc epc s i), s')" by (simp add: resume_pc_def)
  with a show ?thesis by blast
qed blast

theorem schedule_round_robin_witness:
  "\<exists>s'. schedule 0x80002004 tiny_procs = Inr (Some (SlotFrame 0, 0x80001000), s') \<and>
        current s' = Some 0 \<and> resume_pc 0 s' 3 = 0x80002004"
proof -
  have st: "search_start tiny_procs = 4" by (simp add: search_start_def tiny_procs_def)
  have run: "runnable tiny_procs i \<longleftrightarrow> i = 0 \<or> i = 3" for i
    by (auto simp: runnable_def proc_at_def tiny_procs_def nth_list_update split: if_splits)
  have pcs: "resume_pc 0x80002004 tiny_procs 0 = 0x80001000"
    "saved 0x80002004 tiny_procs 3 = Some ((new_process 0 0x80002000 0x4000 2)\<lparr>pc := 0x80002004\<rparr>)"
    by (simp_all add: resume_pc_def saved_def proc_at_def tiny_procs_def)
  obtain k i s' where k: "k < 16" "i = (4 + k) mod 16" "runnable tiny_procs i"
      "\<forall>m < k. \<not> runnable tiny_procs ((4 + m) mod 16)"
    and s': "schedule 0x80002004 tiny_procs = Inr (Some (SlotFrame i, resume_pc 0x80002004 tiny_procs i), s')"
      "current s' = Some i" "\<forall>i. proc_at s' i = saved 0x80002004 tiny_procs i"
    using schedule_round_robin [OF tiny_procs_ok(1), of "0x80002004"] tiny_procs_ok(2) unfolding st by blast
  have "\<not> 12 < k" using k(4) [rule_format, of 12] run by auto
  moreover have "k = 12 \<or> k = 15" using k(1,2,3) run by (auto simp: mod_if split: if_splits)
  ultimately have "i = 0" using k(2) by auto
  then show ?thesis using s' pcs by (simp add: resume_pc_def saved_def)
qed

text \<open>
  C18: \<open>spawn_kernel\<close> puts the new process into the lowest free slot with a stack of its
  own: two zeroed pages, disjoint from the stack of every other process, with the stack
  pointer just past them. It gets the next PID, starts at \<open>entry\<close>, and no other slot
  changes.
\<close>

theorem spawn_kernel_fresh:
  assumes "proc_inv L s" "spawn_kernel L ttop entry s = Inr (Inr p, s')"
  shows "proc_inv L s' \<and> p = NEXT_PID s \<and> NEXT_PID s' = p + 1 \<and>
         (\<exists>i proc. i < 16 \<and> proc_at s i = None \<and> (\<forall>j < i. proc_at s j \<noteq> None) \<and>
            proc_at s' i = Some proc \<and> (\<forall>j. j \<noteq> i \<longrightarrow> proc_at s' j = proc_at s j) \<and>
            state proc = Running \<and> pid proc = p \<and> pc proc = entry \<and>
            regs (frame proc) ! 2 = of_nat (stack proc + 2 * PAGE_SIZE) \<and>
            (\<forall>a. stack proc \<le> a \<and> a < stack proc + 2 * PAGE_SIZE \<longrightarrow> mem s' a = 0) \<and>
            (\<forall>j q. j \<noteq> i \<longrightarrow> proc_at s' j = Some q \<longrightarrow>
               stack proc + 2 * PAGE_SIZE \<le> stack q \<or> stack q + 2 * PAGE_SIZE \<le> stack proc))"
proof (rule spawn_kernel_cases [OF assms(1), of ttop entry])
  fix stk s1 i
  assume z: "zallocate L 2 s = Inr (Some stk, s1)" and i: "i < 16" "proc_at s i = None"
      "\<And>j. j < i \<Longrightarrow> proc_at s j \<noteq> None"
    and k: "spawn_kernel L ttop entry s =
         Inr (Inr (NEXT_PID s), s1\<lparr>NEXT_PID := NEXT_PID s + 1,
           slots := (slots s)[i := Some (new_process ttop entry stk (NEXT_PID s))]\<rparr>)"
  have len: "length (slots s) = 16" using proc_invD(2) [OF assms(1)] by (simp add: table_ok_def)
  have inv': "proc_inv L s'" by (rule spawn_kernel_inv [OF assms])
  have s': "s' = s1\<lparr>NEXT_PID := NEXT_PID s + 1,
      slots := (slots s)[i := Some (new_process ttop entry stk (NEXT_PID s))]\<rparr>" and p: "p = NEXT_PID s"
    using k assms(2) by auto
  have at: "proc_at s' i = Some (new_process ttop entry stk p)" "\<And>j. j \<noteq> i \<Longrightarrow> proc_at s' j = proc_at s j"
    using i(1) len by (auto simp: s' p proc_at_def)
  have zero: "\<forall>a. stk \<le> a \<and> a < stk + 2 * PAGE_SIZE \<longrightarrow> mem s' a = 0"
    using zallocate_Some(7) [OF proc_invD(1) [OF assms(1)] z] by (simp add: s')
  have apart: "stk + 2 * PAGE_SIZE \<le> stack q \<or> stack q + 2 * PAGE_SIZE \<le> stk"
    if "j \<noteq> i" "proc_at s' j = Some q" for j q
  proof -
    have "stk \<noteq> stack q" using proc_invD(4) [OF inv' at(1) that(2)] that(1) by auto
    then show ?thesis
      using held_disjoint [OF proc_invD(3) [OF inv' at(1)] proc_invD(3) [OF inv' that(2)]] by auto
  qed
  have "NEXT_PID s' = p + 1" by (simp add: s' p)
  with inv' p i at zero apart show ?thesis
    by (intro conjI exI [of _ i] exI [of _ "new_process ttop entry stk p"]) auto
qed (use assms(2) in auto)

text \<open>The heap of four pages with an empty process table.\<close>

definition idle_procs :: proc_state where
  "idle_procs =
     \<lparr>mem = (\<lambda>_. 0), ALLOC_START = 0x2000, slots = replicate 16 None, current = None, NEXT_PID = 1\<rparr>"

lemma idle_procs_inv: "frames_inv tiny_layout idle_procs" "proc_inv tiny_layout idle_procs"
proof -
  have "descriptors tiny_layout idle_procs = descriptors tiny_layout tiny_heap"
    by (simp add: descriptors_def idle_procs_def tiny_heap_def)
  then show fr: "frames_inv tiny_layout idle_procs"
    using tiny_frames_inv by (simp add: frames_inv_def idle_procs_def tiny_heap_def)
  show "proc_inv tiny_layout idle_procs"
    by (rule boot_table_inv [OF _ fr]) (simp add: boot_table_def idle_procs_def)
qed

lemma idle_spawn:
  obtains s' p where "spawn_kernel tiny_layout ttop entry idle_procs = Inr (Inr 1, s')"
    "\<And>i. proc_at s' i = (if i = 0 then Some p else None)" "pid p = 1"
proof -
  have eq: "descriptors tiny_layout idle_procs = replicate 4 0"
    using tiny_descriptors by (simp add: descriptors_def idle_procs_def tiny_heap_def)
  have "window_free (replicate 4 0) 0 2" using tiny_window unfolding tiny_descriptors .
  then obtain q s1 where z: "zallocate tiny_layout 2 idle_procs = Inr (Some q, s1)"
    using allocate_fits [OF idle_procs_inv(1), of 2 0] zallocate_Some_iff [OF idle_procs_inv(1)]
    unfolding eq by auto
  have none: "proc_at idle_procs i = None" "NEXT_PID idle_procs = 1" "slots idle_procs = replicate 16 None" for i
    by (simp_all add: proc_at_def idle_procs_def)
  show ?thesis
  proof (rule spawn_kernel_cases [OF idle_procs_inv(2), of ttop entry])
    assume "\<And>i. i < 16 \<Longrightarrow> proc_at idle_procs i \<noteq> None"
    from this [of 0] none show ?thesis by simp
  next
    fix stk s2 i
    assume i: "\<And>j. j < i \<Longrightarrow> proc_at idle_procs j \<noteq> None"
      and k: "spawn_kernel tiny_layout ttop entry idle_procs =
         Inr (Inr (NEXT_PID idle_procs), s2\<lparr>NEXT_PID := NEXT_PID idle_procs + 1,
           slots := (slots idle_procs)[i := Some (new_process ttop entry stk (NEXT_PID idle_procs))]\<rparr>)"
        (is "_ = Inr (_, ?s)")
    have "i = 0" using i [of 0] none(1) by (cases i) auto
    then have "proc_at ?s j = (if j = 0 then Some (new_process ttop entry stk 1) else None)" for j
      by (simp add: proc_at_def none)
    with k that show ?thesis by (simp add: none)
  qed (use z none in auto)
qed

theorem spawn_kernel_fresh_witness:
  "\<exists>s' proc. spawn_kernel tiny_layout 0 0x80001000 idle_procs = Inr (Inr 1, s') \<and>
     proc_at s' 0 = Some proc \<and> pc proc = 0x80001000 \<and> mem s' (stack proc + 0x1fff) = 0"
proof -
  obtain s' where s': "spawn_kernel tiny_layout 0 0x80001000 idle_procs = Inr (Inr 1, s')"
    by (rule idle_spawn [of 0 "0x80001000"]) blast
  from spawn_kernel_fresh [OF idle_procs_inv(2) s'] obtain i proc where
    i: "\<forall>j < i. proc_at idle_procs j \<noteq> None" "proc_at s' i = Some proc" "pc proc = 0x80001000"
    "\<forall>a. stack proc \<le> a \<and> a < stack proc + 2 * PAGE_SIZE \<longrightarrow> mem s' a = 0" by blast
  have "i = 0" using i(1) by (auto simp: proc_at_def idle_procs_def)
  with s' i show ?thesis by auto
qed

text \<open>
  C19: In every table the kernel can reach, the stacks of two processes never overlap, no
  stack touches the allocator's descriptor table, and every process's stack is a run the
  allocator still accounts for.
\<close>

theorem process_stacks_disjoint:
  assumes "proc_reach L s" "proc_at s i = Some p"
  shows "(stack p, STACK_PAGES) \<in> held L s \<and>
         {stack p ..< stack p + STACK_PAGES * PAGE_SIZE} \<inter> desc_region L = {} \<and>
         (\<forall>j q. proc_at s j = Some q \<longrightarrow> j \<noteq> i \<longrightarrow>
            {stack p ..< stack p + STACK_PAGES * PAGE_SIZE} \<inter>
            {stack q ..< stack q + STACK_PAGES * PAGE_SIZE} = {})"
proof -
  note inv = proc_reach_inv [OF assms(1)]
  have h: "(stack p, 2) \<in> held L s" by (rule proc_invD(3) [OF inv assms(2)])
  have "{stack p ..< stack p + 2 * PAGE_SIZE} \<inter> {stack q ..< stack q + 2 * PAGE_SIZE} = {}"
    if "proc_at s j = Some q" "j \<noteq> i" for j q
  proof -
    have "stack p \<noteq> stack q" using proc_invD(4) [OF inv assms(2) that(1)] that(2) by auto
    then have "stack p + 2 * PAGE_SIZE \<le> stack q \<or> stack q + 2 * PAGE_SIZE \<le> stack p"
      using held_disjoint [OF h proc_invD(3) [OF inv that(1)]] by auto
    then show ?thesis by auto
  qed
  with h held_off_table [OF proc_invD(1) [OF inv] h] show ?thesis by simp
qed

theorem process_stacks_disjoint_witness:
  "\<exists>s p. proc_reach tiny_layout s \<and> proc_at s 0 = Some p \<and> (stack p, STACK_PAGES) \<in> held tiny_layout s"
proof -
  have reach: "proc_reach tiny_layout idle_procs"
    by (rule proc_reach.boot [OF _ idle_procs_inv(1)]) (simp add: boot_table_def idle_procs_def)
  obtain s' p where s': "spawn_kernel tiny_layout 0 0 idle_procs = Inr (Inr 1, s')"
    "\<And>i. proc_at s' i = (if i = 0 then Some p else None)" by (rule idle_spawn [of 0 0]) blast
  then have p: "proc_at s' 0 = Some p" by simp
  have "proc_reach tiny_layout s'" by (rule proc_reach.spawn [OF reach s'(1)])
  with process_stacks_disjoint [OF this p] p show ?thesis by blast
qed

text \<open>
  C20: \<open>exit_current\<close> frees the slot but never the stack. After a process exits, its two
  pages are still in use in the allocator and no remaining process owns them.
\<close>

theorem exit_leaks_stack:
  assumes "proc_inv L s" "exit_current s = Inr (Some v, s')"
  shows "\<exists>i p. current s = Some i \<and> proc_at s i = Some p \<and> pid p = v \<and> proc_at s' i = None \<and>
           held L s' = held L s \<and> (stack p, STACK_PAGES) \<in> held L s' \<and>
           (\<forall>j q. proc_at s' j = Some q \<longrightarrow> stack q \<noteq> stack p)"
proof (rule exit_current_cases [OF proc_invD(2) [OF assms(1)]])
  fix i p
  assume i: "current s = Some i" "i < 16" "proc_at s i = Some p"
    "exit_current s = Inr (Some (pid p), s\<lparr>slots := (slots s)[i := None], current := None\<rparr>)"
  have s': "s' = s\<lparr>slots := (slots s)[i := None], current := None\<rparr>" "v = pid p" using assms(2) i(4) by auto
  have at: "proc_at s' j = (if j = i then None else proc_at s j)" for j
    using i(2) proc_invD(2) [OF assms(1)] by (auto simp: s' proc_at_def table_ok_def)
  have "stack q \<noteq> stack p" if "proc_at s' j = Some q" for j q
    using that proc_invD(4) [OF assms(1) _ i(3)] by (auto simp: at split: if_splits)
  moreover have "held L s' = held L s" by (simp add: s')
  ultimately show ?thesis
    using i s'(2) at proc_invD(3) [OF assms(1) i(3)] by (intro exI [of _ i] exI [of _ p]) auto
qed (use assms(2) in auto)

theorem exit_leaks_stack_witness:
  "\<exists>(s :: proc_state) s' (p :: Process). exit_current s = Inr (Some 1, s') \<and> (\<forall>i. proc_at s' i = None) \<and>
     (stack p, STACK_PAGES) \<in> held tiny_layout s'"
proof -
  obtain s1 p where s1: "spawn_kernel tiny_layout 0 0 idle_procs = Inr (Inr 1, s1)"
    "\<And>i. proc_at s1 i = (if i = 0 then Some p else None)" "pid p = 1" by (rule idle_spawn [of 0 0]) blast
  note inv1 = spawn_kernel_inv [OF idle_procs_inv(2) s1(1)]
  let ?s = "s1\<lparr>current := Some 0\<rparr>"
  have inv: "proc_inv tiny_layout ?s"
    using inv1 by (simp add: proc_inv_def table_ok_def)
  have len: "length (slots s1) = 16" using inv1 by (simp add: proc_inv_def table_ok_def)
  then have ex: "exit_current ?s = Inr (Some 1, ?s\<lparr>slots := (slots ?s)[0 := None], current := None\<rparr>)"
    using s1(2) [of 0] s1(3) by (simp add: exit_current_def proc_at_def)
  from exit_leaks_stack [OF inv ex] obtain q :: Process where
    "(stack q, STACK_PAGES) \<in> held tiny_layout (?s\<lparr>slots := (slots ?s)[0 := None], current := None\<rparr>)"
    by blast
  moreover have "proc_at (?s\<lparr>slots := (slots ?s)[0 := None], current := None\<rparr>) i = None" for i
    using s1(2) [of i] len by (cases "i = 0") (auto simp: proc_at_def)
  ultimately show ?thesis using ex by (intro exI conjI allI)
qed

end
