(* ===== verification/Virtio.thy ===== *)
theory Virtio
  imports Process
begin

text \<open>
  The virtio block driver (\<open>src/drivers/virtio/spec.rs\<close>, \<open>device.rs\<close>, \<open>bus.rs\<close>).

  The rings of a queue and the requests live in the kernel's byte memory at the offsets of
  their \<open>repr(C)\<close> structures. What is behind the MMIO window is hardware and a parameter: a
  \<open>bus\<close> has a register read and a register write, each with the access fault it may raise,
  and a step in which the devices access memory on their own. An access fault runs the
  trap handler, which records it in \<open>ACCESS_FAULT_SEEN\<close> and skips the instruction.

  \<open>block_op\<close>, \<open>pending\<close>, \<open>pending_by_irq\<close> and the registration functions keep their names. The
  wait of \<open>block_op\<close> is \<open>spin\<close>, with fuel: each round lets the devices act once and then polls.
  Discovery, which prints, is in \<open>Discovery\<close>.
\<close>

section \<open>Constants and layout\<close>

definition MMIO_VIRTIO_START :: nat where "MMIO_VIRTIO_START = 0x10001000"
definition MMIO_VIRTIO_END :: nat where "MMIO_VIRTIO_END = 0x10008000"
definition MMIO_VIRTIO_STRIDE :: nat where "MMIO_VIRTIO_STRIDE = 0x1000"
definition MMIO_VIRTIO_MAGIC :: u32 where "MMIO_VIRTIO_MAGIC = 0x74726976"
definition VIRTIO_MMIO_IRQ_BASE :: u32 where "VIRTIO_MMIO_IRQ_BASE = 1"
definition VIRTIO_RING_SIZE :: nat where "VIRTIO_RING_SIZE = 8"
definition VIRTIO_DESC_F_NEXT :: u16 where "VIRTIO_DESC_F_NEXT = 1"
definition VIRTIO_DESC_F_WRITE :: u16 where "VIRTIO_DESC_F_WRITE = 2"
definition VIRTIO_BLK_T_IN :: u32 where "VIRTIO_BLK_T_IN = 0"
definition VIRTIO_BLK_T_OUT :: u32 where "VIRTIO_BLK_T_OUT = 1"
definition VIRTIO_BLK_F_RO :: nat where "VIRTIO_BLK_F_RO = 5"
definition VIRTIO_ACKNOWLEDGE :: u32 where "VIRTIO_ACKNOWLEDGE = 1"
definition VIRTIO_DRIVER :: u32 where "VIRTIO_DRIVER = 2"
definition VIRTIO_DRIVER_OK :: u32 where "VIRTIO_DRIVER_OK = 4"
definition VIRTIO_FEATURES_OK :: u32 where "VIRTIO_FEATURES_OK = 8"
definition VIRTIO_FAILED :: u32 where "VIRTIO_FAILED = 128"
definition VIRTIO_DEVICE_BLOCK :: u32 where "VIRTIO_DEVICE_BLOCK = 2"
definition VIRTIO_DEVICE_ENTROPY :: u32 where "VIRTIO_DEVICE_ENTROPY = 4"

lemmas virtio_consts =
  MMIO_VIRTIO_START_def MMIO_VIRTIO_END_def MMIO_VIRTIO_STRIDE_def MMIO_VIRTIO_MAGIC_def
  VIRTIO_MMIO_IRQ_BASE_def VIRTIO_RING_SIZE_def VIRTIO_DESC_F_NEXT_def VIRTIO_DESC_F_WRITE_def
  VIRTIO_BLK_T_IN_def VIRTIO_BLK_T_OUT_def VIRTIO_BLK_F_RO_def VIRTIO_ACKNOWLEDGE_def
  VIRTIO_DRIVER_def VIRTIO_DRIVER_OK_def VIRTIO_FEATURES_OK_def VIRTIO_FAILED_def
  VIRTIO_DEVICE_BLOCK_def VIRTIO_DEVICE_ENTROPY_def

datatype MmioOffsets =
    MagicValue | Version | DeviceId | VendorId | HostFeatures | HostFeaturesSel
  | GuestFeatures | GuestFeaturesSel | GuestPageSize | QueueSel | QueueNumMax | QueueNum
  | QueueAlign | QueuePfn | QueueNotify | InterruptStatus | InterruptAck | Status | Config

fun val :: "MmioOffsets \<Rightarrow> nat" where
  "val MagicValue = 0x000" | "val Version = 0x004" | "val DeviceId = 0x008"
| "val VendorId = 0x00c" | "val HostFeatures = 0x010" | "val HostFeaturesSel = 0x014"
| "val GuestFeatures = 0x020" | "val GuestFeaturesSel = 0x024" | "val GuestPageSize = 0x028"
| "val QueueSel = 0x030" | "val QueueNumMax = 0x034" | "val QueueNum = 0x038"
| "val QueueAlign = 0x03c" | "val QueuePfn = 0x040" | "val QueueNotify = 0x050"
| "val InterruptStatus = 0x060" | "val InterruptAck = 0x064" | "val Status = 0x070"
| "val Config = 0x100"

definition scaled :: "MmioOffsets \<Rightarrow> nat \<Rightarrow> nat" where "scaled off scale = val off div scale"

definition scale32 :: "MmioOffsets \<Rightarrow> nat" where "scale32 off = scaled off 4"

text \<open>Structures in memory: sizes and the offsets of their fields.\<close>

record Descriptor =
  d_addr :: u64
  d_len :: u32
  d_flags :: u16
  d_next :: u16

definition sizeof_Descriptor :: nat where "sizeof_Descriptor = 16"
definition sizeof_AvailRing :: nat where "sizeof_AvailRing = 22"
definition sizeof_UsedRing :: nat where "sizeof_UsedRing = 72"
definition sizeof_BlkHeader :: nat where "sizeof_BlkHeader = 16"

definition write_desc :: "nat \<Rightarrow> Descriptor \<Rightarrow> memory \<Rightarrow> memory" where
  "write_desc a d m =
     st16 (st16 (st32 (st64 m a (d_addr d)) (a + 8) (d_len d)) (a + 12) (d_flags d)) (a + 14) (d_next d)"

definition read_desc :: "memory \<Rightarrow> nat \<Rightarrow> Descriptor" where
  "read_desc m a =
     \<lparr>d_addr = ld64 m a, d_len = ld32 m (a + 8), d_flags = ld16 m (a + 12), d_next = ld16 m (a + 14)\<rparr>"

definition avail_idx_addr :: "nat \<Rightarrow> nat" where "avail_idx_addr avail = avail + 2"
definition avail_ring_addr :: "nat \<Rightarrow> nat \<Rightarrow> nat" where "avail_ring_addr avail i = avail + 4 + 2 * i"
definition used_idx_addr :: "nat \<Rightarrow> nat" where "used_idx_addr used = used + 2"
definition used_ring_addr :: "nat \<Rightarrow> nat \<Rightarrow> nat" where "used_ring_addr used i = used + 4 + 8 * i"

definition req_status_addr :: "nat \<Rightarrow> nat" where "req_status_addr req = req + 24"

definition align_up :: "nat \<Rightarrow> nat \<Rightarrow> nat" where
  "align_up value align = unat (of_nat (value + align - 1) AND NOT (of_nat (align - 1)) :: u64)"

definition virtqueue_desc_bytes :: nat where
  "virtqueue_desc_bytes = sizeof_Descriptor * VIRTIO_RING_SIZE"
definition virtqueue_avail_bytes :: nat where "virtqueue_avail_bytes = sizeof_AvailRing"
definition virtqueue_used_bytes :: nat where "virtqueue_used_bytes = sizeof_UsedRing"

lemmas virtio_layout =
  sizeof_Descriptor_def sizeof_AvailRing_def sizeof_UsedRing_def sizeof_BlkHeader_def
  avail_idx_addr_def avail_ring_addr_def used_idx_addr_def used_ring_addr_def req_status_addr_def
  virtqueue_desc_bytes_def virtqueue_avail_bytes_def virtqueue_used_bytes_def

section \<open>State\<close>

definition MAX_VIRTIO_DEVICES :: nat where "MAX_VIRTIO_DEVICES = 8"
definition STATUS_PENDING :: u8 where "STATUS_PENDING = 0xff"

datatype DeviceType = Block | Entropy | Unknown

record VirtioDevice = kind :: DeviceType

record QueueState =
  desc :: nat
  avail :: nat
  used :: nat
  free :: "bool list"
  req_head :: "nat list"

definition QueueState_empty :: QueueState where
  "QueueState_empty =
     \<lparr>desc = 0, avail = 0, used = 0, free = replicate VIRTIO_RING_SIZE True,
      req_head = replicate VIRTIO_RING_SIZE 0\<rparr>"

record BlockDevice =
  dev :: nat
  queue :: QueueState
  ack_used_idx :: u16
  read_only :: bool

definition BlockDevice_empty :: BlockDevice where
  "BlockDevice_empty = \<lparr>dev = 0, queue = QueueState_empty, ack_used_idx = 0, read_only = False\<rparr>"

record 'd vio_state = proc_state +
  BLOCK_DEVICES :: "BlockDevice list"
  VIRTIO_DEVICES :: "VirtioDevice option list"
  ACCESS_FAULT_SEEN :: bool
  hw :: 'd

text \<open>
  The hardware: a register read gives a value and whether the access succeeded, a register
  write whether it succeeded, and \<open>dma\<close> is what the devices do to memory on their own.
\<close>

record 'd bus =
  rd32 :: "nat \<Rightarrow> 'd \<Rightarrow> u32 \<times> bool \<times> 'd"
  wr32 :: "nat \<Rightarrow> u32 \<Rightarrow> 'd \<Rightarrow> bool \<times> 'd"
  dma :: "memory \<Rightarrow> 'd \<Rightarrow> memory \<times> 'd"

section \<open>Register access\<close>

text \<open>The trap handler's answer to an access fault (\<open>m_trap\<close>, causes 5 and 7).\<close>

definition access_fault_trap :: "('d, 'z) vio_state_scheme \<Rightarrow> ('d, 'z) vio_state_scheme" where
  "access_fault_trap s = s\<lparr>ACCESS_FAULT_SEEN := True\<rparr>"

definition clear_access_fault :: "('d, 'z) vio_state_scheme \<Rightarrow> ('d, 'z) vio_state_scheme" where
  "clear_access_fault s = s\<lparr>ACCESS_FAULT_SEEN := False\<rparr>"

definition take_access_fault :: "('d, 'z) vio_state_scheme \<Rightarrow> bool \<times> ('d, 'z) vio_state_scheme" where
  "take_access_fault s = (ACCESS_FAULT_SEEN s, s\<lparr>ACCESS_FAULT_SEEN := False\<rparr>)"

definition read_volatile32 ::
  "'d bus \<Rightarrow> nat \<Rightarrow> ('d, 'z) vio_state_scheme \<Rightarrow> u32 \<times> ('d, 'z) vio_state_scheme"
where
  "read_volatile32 B a s =
     (case rd32 B a (hw s) of
        (v, ok, d) \<Rightarrow> (v, if ok then s\<lparr>hw := d\<rparr> else access_fault_trap (s\<lparr>hw := d\<rparr>)))"

definition write_volatile32 ::
  "'d bus \<Rightarrow> nat \<Rightarrow> u32 \<Rightarrow> ('d, 'z) vio_state_scheme \<Rightarrow> ('d, 'z) vio_state_scheme"
where
  "write_volatile32 B a v s =
     (case wr32 B a v (hw s) of
        (ok, d) \<Rightarrow> if ok then s\<lparr>hw := d\<rparr> else access_fault_trap (s\<lparr>hw := d\<rparr>))"

definition mmio_read32 ::
  "'d bus \<Rightarrow> nat \<Rightarrow> MmioOffsets \<Rightarrow> ('d, 'z) vio_state_scheme \<Rightarrow> u32 option \<times> ('d, 'z) vio_state_scheme"
where
  "mmio_read32 B ptr off s =
     (let s1 = clear_access_fault s;
          (v, s2) = read_volatile32 B (ptr + 4 * scale32 off) s1;
          (faulted, s3) = take_access_fault s2
      in (if faulted then None else Some v, s3))"

definition mmio_write32 ::
  "'d bus \<Rightarrow> nat \<Rightarrow> MmioOffsets \<Rightarrow> u32 \<Rightarrow> ('d, 'z) vio_state_scheme \<Rightarrow> bool \<times> ('d, 'z) vio_state_scheme"
where
  "mmio_write32 B ptr off v s =
     (let s1 = clear_access_fault s;
          s2 = write_volatile32 B (ptr + 4 * scale32 off) v s1;
          (faulted, s3) = take_access_fault s2
      in (\<not> faulted, s3))"

text \<open>The early returns of the setup: a step that fails ends it with \<open>false\<close>.\<close>

definition try_write where
  "try_write B ptr off v k s =
     (case mmio_write32 B ptr off v s of (ok, s1) \<Rightarrow> if ok then k s1 else Inr (False, s1))"

definition try_read where
  "try_read B ptr off k s =
     (case mmio_read32 B ptr off s of (Some v, s1) \<Rightarrow> k v s1 | (None, s1) \<Rightarrow> Inr (False, s1))"

section \<open>Descriptor chains\<close>

definition dev_slot_from_ptr :: "nat \<Rightarrow> nat res" where
  "dev_slot_from_ptr ptr = bind_res (usize_sub ptr MMIO_VIRTIO_START) (\<lambda>x. Inr (x div 2 ^ 12))"

definition irq :: "BlockDevice \<Rightarrow> u32 option res" where
  "irq bd =
     (if dev bd = 0 then Inr None
      else bind_res (usize_sub (dev bd) MMIO_VIRTIO_START) (\<lambda>x.
           let r = unat VIRTIO_MMIO_IRQ_BASE + unat (of_nat (x div 2 ^ 12) :: u32)
           in if r < 2 ^ 32 then Inr (Some (of_nat r)) else Inl ArithOverflow))"

definition alloc_request :: "linker \<Rightarrow> 'z kmem_scheme \<Rightarrow> (nat option \<times> 'z kmem_scheme) res" where
  "alloc_request L s = allocate L 1 s"

definition free_request :: "linker \<Rightarrow> nat \<Rightarrow> 'z kmem_scheme \<Rightarrow> 'z kmem_scheme res" where
  "free_request L req s = (if req = 0 then Inr s else deallocate L req s)"

text \<open>\<open>alloc_desc_chain\<close>: the search takes indices until it has three; if it does not find
  three it gives back what it took.\<close>

fun take_descs :: "nat list \<Rightarrow> bool list \<Rightarrow> nat list \<Rightarrow> nat list \<times> bool list" where
  "take_descs [] fr out = (out, fr)"
| "take_descs (i # is) fr out =
     (if fr ! i then
        let fr1 = fr[i := False]; out1 = out @ [i] in
        if length out1 = 3 then (out1, fr1) else take_descs is fr1 out1
      else take_descs is fr out)"

definition alloc_desc_chain :: "QueueState \<Rightarrow> nat list option \<times> QueueState" where
  "alloc_desc_chain q =
     (case take_descs [0..<VIRTIO_RING_SIZE] (free q) [] of
        (out, fr) \<Rightarrow>
          if length out = 3 then (Some out, q\<lparr>free := fr\<rparr>)
          else (None, q\<lparr>free := fold (\<lambda>idx f. f[idx := True]) out fr\<rparr>))"

text \<open>
  \<open>free_desc_chain\<close> follows the chain in memory. Its loop ends only at a descriptor without
  the \<open>NEXT\<close> flag; since memory does not change meanwhile, a walk over more steps than the
  ring has descriptors repeats an index and never ends, so the fuel is the ring size.
\<close>

fun free_chain :: "memory \<Rightarrow> nat \<Rightarrow> nat \<Rightarrow> QueueState \<Rightarrow> QueueState res" where
  "free_chain m 0 idx q = Inl Diverges"
| "free_chain m (Suc n) idx q =
     (if idx < length (free q) then
        let q1 = q\<lparr>free := (free q)[idx := True]\<rparr>;
            d = read_desc m (desc q1 + sizeof_Descriptor * idx)
        in if d_flags d AND VIRTIO_DESC_F_NEXT = 0 then Inr q1
           else free_chain m n (unat (d_next d)) q1
      else Inl IndexOutOfBounds)"

definition free_desc_chain :: "memory \<Rightarrow> QueueState \<Rightarrow> nat \<Rightarrow> QueueState res" where
  "free_desc_chain m q head = free_chain m VIRTIO_RING_SIZE head q"

lemma free_chain_frame:
  "free_chain m n idx q = Inr q' \<Longrightarrow>
     desc q' = desc q \<and> avail q' = avail q \<and> used q' = used q \<and> req_head q' = req_head q \<and>
     length (free q') = length (free q)"
proof (induction n arbitrary: idx q)
  case 0
  then show ?case by simp
next
  case (Suc n)
  then show ?case by (fastforce simp: Let_def split: if_splits)
qed

section \<open>Completion\<close>

text \<open>The loop of \<open>pending\<close>: one iteration per element of the used ring not yet seen.\<close>

function pending :: "memory \<Rightarrow> BlockDevice \<Rightarrow> BlockDevice res" where
  "pending m bd =
     (if ack_used_idx bd = ld16 m (used_idx_addr (used (queue bd))) then Inr bd
      else
        let used_idx = unat (ack_used_idx bd) mod VIRTIO_RING_SIZE;
            elem_id = ld32 m (used_ring_addr (used (queue bd)) used_idx);
            bd1 = bd\<lparr>ack_used_idx := ack_used_idx bd + 1\<rparr>;
            head = unat elem_id
        in if head \<ge> VIRTIO_RING_SIZE then pending m bd1
           else let q1 = (queue bd1)\<lparr>req_head := (req_head (queue bd1))[head := 0]\<rparr>
                in bind_res (free_desc_chain m q1 head) (\<lambda>q2. pending m (bd1\<lparr>queue := q2\<rparr>)))"
  by pat_completeness auto

lemma ring_distance: "(a :: u16) \<noteq> b \<Longrightarrow> unat (b - (a + 1)) < unat (b - a)"
proof -
  assume "a \<noteq> b"
  then have "b - a \<noteq> 0" by simp
  then have "unat (b - a - 1) < unat (b - a)"
    by (metis unat_minus_one unat_gt_0 diff_less zero_less_one)
  then show ?thesis by (simp add: diff_diff_eq)
qed

termination pending
proof (relation "measure (\<lambda>(m, bd). unat (ld16 m (used_idx_addr (used (queue bd))) - ack_used_idx bd))", goal_cases)
  case 1
  show ?case by simp
next
  case (2 m bd)
  then show ?case using ring_distance by simp
next
  case (3 m bd x xa xb xc xd xe)
  then have "used xe = used (queue bd)" using free_chain_frame [of m VIRTIO_RING_SIZE] by (auto simp: free_desc_chain_def)
  with 3 show ?case using ring_distance by simp
qed

declare pending.simps [simp del]

definition set_dev :: "nat \<Rightarrow> BlockDevice \<Rightarrow> ('d, 'z) vio_state_scheme \<Rightarrow> ('d, 'z) vio_state_scheme" where
  "set_dev i bd s = s\<lparr>BLOCK_DEVICES := (BLOCK_DEVICES s)[i := bd]\<rparr>"

definition pending_by_irq ::
  "'d bus \<Rightarrow> u32 \<Rightarrow> ('d, 'z) vio_state_scheme \<Rightarrow> (bool \<times> ('d, 'z) vio_state_scheme) res"
where
  "pending_by_irq B n s =
     (if n < VIRTIO_MMIO_IRQ_BASE then Inr (False, s)
      else let slot = unat (n - VIRTIO_MMIO_IRQ_BASE) in
        if slot \<ge> MAX_VIRTIO_DEVICES then Inr (False, s)
        else let bdev = BLOCK_DEVICES s ! slot in
          if dev bdev = 0 then Inr (False, s)
          else case read_volatile32 B (dev bdev + 4 * scale32 InterruptStatus) s of (isr, s1) \<Rightarrow>
            if isr = 0 then Inr (False, s1)
            else bind_res (pending (mem s1) bdev) (\<lambda>bd1.
                 Inr (True, write_volatile32 B (dev bdev + 4 * scale32 InterruptAck) (isr AND 3)
                              (set_dev slot bd1 s1))))"

section \<open>Requests\<close>

text \<open>The request structure in its page.\<close>

definition write_request :: "nat \<Rightarrow> u32 \<Rightarrow> u64 \<Rightarrow> nat \<Rightarrow> memory \<Rightarrow> memory" where
  "write_request req ty sector buffer m =
     wr_bytes (st64 (st64 (st32 (st32 m req ty) (req + 4) 0) (req + 8) sector) (req + 16) (of_nat buffer))
       (req_status_addr req) [STATUS_PENDING]"

text \<open>Filling the three descriptors and publishing the head in the available ring.\<close>

definition publish :: "QueueState \<Rightarrow> nat \<Rightarrow> nat \<Rightarrow> nat \<Rightarrow> nat \<Rightarrow> nat \<Rightarrow> u32 \<Rightarrow> bool \<Rightarrow> memory \<Rightarrow> memory" where
  "publish q req head data stat buffer sz write m =
     (let head_desc = \<lparr>d_addr = of_nat req, d_len = of_nat sizeof_BlkHeader,
                       d_flags = VIRTIO_DESC_F_NEXT, d_next = of_nat data\<rparr>;
          data_desc = \<lparr>d_addr = of_nat buffer, d_len = sz,
                       d_flags = VIRTIO_DESC_F_NEXT OR (if write then 0 else VIRTIO_DESC_F_WRITE),
                       d_next = of_nat stat\<rparr>;
          status_desc = \<lparr>d_addr = of_nat (req_status_addr req), d_len = 1,
                         d_flags = VIRTIO_DESC_F_WRITE, d_next = 0\<rparr>;
          m1 = write_desc (desc q + sizeof_Descriptor * head) head_desc m;
          m2 = write_desc (desc q + sizeof_Descriptor * data) data_desc m1;
          m3 = write_desc (desc q + sizeof_Descriptor * stat) status_desc m2;
          avail_idx = ld16 m3 (avail_idx_addr (avail q));
          m4 = st16 m3 (avail_ring_addr (avail q) (unat avail_idx mod VIRTIO_RING_SIZE)) (of_nat head)
      in st16 m4 (avail_idx_addr (avail q)) (avail_idx + 1))"

text \<open>The synchronous wait: the devices act, then the driver polls.\<close>

fun spin :: "'d bus \<Rightarrow> nat \<Rightarrow> nat \<Rightarrow> nat \<Rightarrow> ('d, 'z) vio_state_scheme \<Rightarrow> ('d, 'z) vio_state_scheme res" where
  "spin B 0 i req s = Inl Diverges"
| "spin B (Suc n) i req s =
     (case dma B (mem s) (hw s) of (m, d) \<Rightarrow>
      let s1 = s\<lparr>mem := m, hw := d\<rparr> in
      bind_res (pending (mem s1) (BLOCK_DEVICES s1 ! i)) (\<lambda>bd.
      let s2 = set_dev i bd s1 in
      if mem s2 (req_status_addr req) \<noteq> STATUS_PENDING then Inr s2 else spin B n i req s2))"

definition block_op ::
  "linker \<Rightarrow> 'd bus \<Rightarrow> nat \<Rightarrow> nat \<Rightarrow> nat \<Rightarrow> u32 \<Rightarrow> u64 \<Rightarrow> bool \<Rightarrow>
   ('d, 'z) vio_state_scheme \<Rightarrow> (bool \<times> ('d, 'z) vio_state_scheme) res"
where
  "block_op L B fuel i buffer sz offset write s =
     (if i \<ge> MAX_VIRTIO_DEVICES then Inr (False, s)
      else let bdev = BLOCK_DEVICES s ! i in
      if dev bdev = 0 then Inr (False, s)
      else if read_only bdev \<and> write then Inr (False, s)
      else bind_res (alloc_request L s) (\<lambda>(r, s1).
      case r of
        None \<Rightarrow> Inr (False, s1)
      | Some req \<Rightarrow>
          let s2 = s1\<lparr>mem := write_request req (if write then VIRTIO_BLK_T_OUT else VIRTIO_BLK_T_IN)
                               (offset div 512) buffer (mem s1)\<rparr> in
          (case alloc_desc_chain (queue bdev) of
             (None, q1) \<Rightarrow>
               bind_res (free_request L req (set_dev i (bdev\<lparr>queue := q1\<rparr>) s2)) (\<lambda>s3. Inr (False, s3))
           | (Some ids, q1) \<Rightarrow>
               let head = ids ! 0; data = ids ! 1; stat = ids ! 2;
                   s3 = s2\<lparr>mem := publish q1 req head data stat buffer sz write (mem s2)\<rparr>;
                   q2 = q1\<lparr>req_head := (req_head q1)[head := req]\<rparr>;
                   s4 = set_dev i (bdev\<lparr>queue := q2\<rparr>) s3;
                   s5 = write_volatile32 B (dev bdev + 4 * scale32 QueueNotify) 0 s4
               in bind_res (spin B fuel i req s5) (\<lambda>s6.
                  let ok = (mem s6 (req_status_addr req) = 0) in
                  bind_res (free_request L req s6) (\<lambda>s7. Inr (ok, s7))))))"

definition block_read ::
  "linker \<Rightarrow> 'd bus \<Rightarrow> nat \<Rightarrow> nat \<Rightarrow> nat \<Rightarrow> u32 \<Rightarrow> u64 \<Rightarrow>
   ('d, 'z) vio_state_scheme \<Rightarrow> (bool \<times> ('d, 'z) vio_state_scheme) res"
where
  "block_read L B fuel i buffer sz offset s = block_op L B fuel i buffer sz offset False s"

definition block_write ::
  "linker \<Rightarrow> 'd bus \<Rightarrow> nat \<Rightarrow> nat \<Rightarrow> nat \<Rightarrow> u32 \<Rightarrow> u64 \<Rightarrow>
   ('d, 'z) vio_state_scheme \<Rightarrow> (bool \<times> ('d, 'z) vio_state_scheme) res"
where
  "block_write L B fuel i buffer sz offset s = block_op L B fuel i buffer sz offset True s"

section \<open>Registration\<close>

definition used_offset :: nat where
  "used_offset = align_up (virtqueue_desc_bytes + virtqueue_avail_bytes) PAGE_SIZE"

definition queue_pages :: nat where
  "queue_pages = align_up (used_offset + virtqueue_used_bytes) PAGE_SIZE div PAGE_SIZE"

definition register_device ::
  "DeviceType \<Rightarrow> nat \<Rightarrow> ('d, 'z) vio_state_scheme \<Rightarrow> ('d, 'z) vio_state_scheme res"
where
  "register_device k ptr s =
     bind_res (dev_slot_from_ptr ptr) (\<lambda>slot.
     if slot < MAX_VIRTIO_DEVICES
     then Inr (s\<lparr>VIRTIO_DEVICES := (VIRTIO_DEVICES s)[slot := Some \<lparr>kind = k\<rparr>]\<rparr>)
     else Inl IndexOutOfBounds)"

definition register_entropy_device :: "nat \<Rightarrow> ('d, 'z) vio_state_scheme \<Rightarrow> ('d, 'z) vio_state_scheme res" where
  "register_entropy_device ptr s = register_device Entropy ptr s"

definition register_unknown_device :: "nat \<Rightarrow> ('d, 'z) vio_state_scheme \<Rightarrow> ('d, 'z) vio_state_scheme res" where
  "register_unknown_device ptr s = register_device Unknown ptr s"

definition first_block_device :: "('d, 'z) vio_state_scheme \<Rightarrow> nat option" where
  "first_block_device s = position (\<lambda>d. dev d \<noteq> 0) (take MAX_VIRTIO_DEVICES (BLOCK_DEVICES s))"

fun collect_res :: "'a res list \<Rightarrow> 'a list res" where
  "collect_res [] = Inr []"
| "collect_res (r # rs) = bind_res r (\<lambda>x. bind_res (collect_res rs) (\<lambda>xs. Inr (x # xs)))"

definition configured_irqs :: "('d, 'z) vio_state_scheme \<Rightarrow> u32 option list res" where
  "configured_irqs s = collect_res (map irq (take MAX_VIRTIO_DEVICES (BLOCK_DEVICES s)))"

text \<open>The register read of \<open>bus.rs\<close>.\<close>

definition bus_mmio_read32 ::
  "'d bus \<Rightarrow> nat \<Rightarrow> MmioOffsets \<Rightarrow> ('d, 'z) vio_state_scheme \<Rightarrow> u32 option \<times> ('d, 'z) vio_state_scheme"
where
  "bus_mmio_read32 B ptr off s =
     (let s1 = clear_access_fault s;
          (v, s2) = read_volatile32 B (ptr + 4 * scale32 off) s1;
          (faulted, s3) = take_access_fault s2
      in (if faulted then None else Some v, s3))"

section \<open>Descriptor allocation\<close>

lemma nth_upd: "xs[i := x] ! j = (if i = j \<and> i < length xs then x else xs ! j)"
  by (cases "i < length xs") (auto simp: list_update_beyond)

definition unset :: "nat list \<Rightarrow> bool list \<Rightarrow> bool list" where
  "unset is fr = fold (\<lambda>i f. f[i := False]) is fr"

lemma length_unset [simp]: "length (unset is fr) = length fr"
  by (induction "is" arbitrary: fr) (simp_all add: unset_def)

lemma nth_unset: "i < length fr \<Longrightarrow> unset is fr ! i \<longleftrightarrow> fr ! i \<and> i \<notin> set is"
  by (induction "is" arbitrary: fr) (auto simp: unset_def nth_upd)

lemma take_descs_filter:
  assumes "distinct is" "\<forall>i \<in> set is. i < length fr" "length out < 3"
  shows "take_descs is fr out =
     (out @ take (3 - length out) (filter (\<lambda>i. fr ! i) is),
      unset (take (3 - length out) (filter (\<lambda>i. fr ! i) is)) fr)"
  using assms
proof (induction "is" arbitrary: fr out)
  case Nil
  then show ?case by (simp add: unset_def)
next
  case (Cons i "is")
  have same: "filter (\<lambda>j. fr[i := False] ! j) is = filter (\<lambda>j. fr ! j) is"
    using Cons.prems(1) by (intro filter_cong) (auto simp: nth_upd)
  show ?case
  proof (cases "fr ! i")
    case True
    note IH = Cons.IH [of "fr[i := False]" "out @ [i]"]
    have k: "3 - length out = Suc (2 - length out)" using Cons.prems(3) by simp
    show ?thesis
    proof (cases "length out = 2")
      case True
      with \<open>fr ! i\<close> show ?thesis by (simp add: unset_def Let_def)
    next
      case False
      with Cons.prems IH True k show ?thesis by (auto simp: unset_def Let_def same)
    qed
  next
    case False
    with Cons show ?thesis by simp
  qed
qed

lemma fold_set_True:
  "i < length fr \<Longrightarrow> fold (\<lambda>idx f. f[idx := True]) is fr ! i \<longleftrightarrow> fr ! i \<or> i \<in> set is"
  by (induction "is" arbitrary: fr) (auto simp: nth_upd)

lemma length_fold_set_True [simp]: "length (fold (\<lambda>idx f. f[idx := True]) is fr) = length fr"
  by (induction "is" arbitrary: fr) simp_all

lemma alloc_desc_chain_filter:
  assumes "length (free q) = VIRTIO_RING_SIZE"
  shows "take_descs [0..<VIRTIO_RING_SIZE] (free q) [] =
      (take 3 (filter (\<lambda>i. free q ! i) [0..<VIRTIO_RING_SIZE]),
       unset (take 3 (filter (\<lambda>i. free q ! i) [0..<VIRTIO_RING_SIZE])) (free q))"
  using take_descs_filter [of "[0..<VIRTIO_RING_SIZE]" "free q" "[]"] by (simp add: assms)

lemma unset_undo:
  "\<forall>i \<in> set is. i < length fr \<and> fr ! i \<Longrightarrow> fold (\<lambda>idx f. f[idx := True]) is (unset is fr) = fr"
  by (rule nth_equalityI) (auto simp: fold_set_True nth_unset)

lemma alloc_desc_chain_none:
  assumes "length (free q) = VIRTIO_RING_SIZE" "length (filter (\<lambda>i. free q ! i) [0..<VIRTIO_RING_SIZE]) < 3"
  shows "alloc_desc_chain q = (None, q)"
  using assms unset_undo [of "filter (\<lambda>i. free q ! i) [0..<VIRTIO_RING_SIZE]" "free q"]
  by (simp add: alloc_desc_chain_def alloc_desc_chain_filter)

lemma alloc_desc_chain_some:
  assumes len: "length (free q) = VIRTIO_RING_SIZE" and al: "alloc_desc_chain q = (Some ids, q')"
  shows "length ids = 3" "distinct ids" "set ids \<subseteq> {0..<VIRTIO_RING_SIZE}"
    "desc q' = desc q" "avail q' = avail q"
proof -
  have ids: "ids = take 3 (filter (\<lambda>i. free q ! i) [0..<VIRTIO_RING_SIZE])" and "length ids = 3"
    and q': "desc q' = desc q" "avail q' = avail q"
    using al by (auto simp: alloc_desc_chain_def alloc_desc_chain_filter [OF len] split: if_splits)
  then show "length ids = 3" "desc q' = desc q" "avail q' = avail q" by simp_all
  show "distinct ids" unfolding ids by (intro distinct_take distinct_filter) simp
  show "set ids \<subseteq> {0..<VIRTIO_RING_SIZE}" unfolding ids by (auto dest: in_set_takeD)
qed

text \<open>
  C29: \<open>alloc_desc_chain\<close> is first fit with rollback. It hands out the three lowest free
  descriptors and marks exactly these as taken; when fewer than three are free it takes
  none, and the queue is as before.
\<close>

lemma alloc_desc_chain_first_fit:
  assumes len: "length (free q) = VIRTIO_RING_SIZE"
    and F: "F = filter (\<lambda>i. free q ! i) [0..<VIRTIO_RING_SIZE]"
  shows "alloc_desc_chain q =
     (if 3 \<le> length F
      then (Some (take 3 F), q\<lparr>free := map (\<lambda>i. free q ! i \<and> i \<notin> set (take 3 F)) [0..<VIRTIO_RING_SIZE]\<rparr>)
      else (None, q))"
proof (cases "3 \<le> length F")
  case True
  have "unset xs (free q) = map (\<lambda>i. free q ! i \<and> i \<notin> set xs) [0..<VIRTIO_RING_SIZE]" for xs
    by (rule nth_equalityI) (simp_all add: len nth_unset)
  with True show ?thesis by (simp add: alloc_desc_chain_def alloc_desc_chain_filter [OF len] F)
next
  case False
  with alloc_desc_chain_none [OF len] show ?thesis by (simp add: F)
qed

theorem alloc_desc_chain_first_fit_witness:
  "alloc_desc_chain (QueueState_empty\<lparr>free := [False, True, False, True, True, False, True, True]\<rparr>) =
     (Some [1, 3, 4], QueueState_empty\<lparr>free := [False, False, False, False, False, False, True, True]\<rparr>)"
proof -
  let ?q = "QueueState_empty\<lparr>free := [False, True, False, True, True, False, True, True]\<rparr>"
  have F: "filter (\<lambda>i. free ?q ! i) [0..<VIRTIO_RING_SIZE] = [1, 3, 4, 6, 7]"
    by (simp add: VIRTIO_RING_SIZE_def upt_rec)
  show ?thesis
    using alloc_desc_chain_first_fit [of ?q, OF _ refl] unfolding F
    by (simp add: VIRTIO_RING_SIZE_def upt_rec)
qed

section \<open>Acknowledging completions\<close>

lemma free_chain_ok:
  assumes "free_chain m n idx q = Inr q1" "desc q' = desc q" "length (free q') = length (free q)"
  shows "\<exists>q2. free_chain m n idx q' = Inr q2"
  using assms
proof (induction n arbitrary: idx q q')
  case 0
  then show ?case by simp
next
  case (Suc n)
  show ?case
  proof (cases "d_flags (read_desc m (desc q + sizeof_Descriptor * idx)) AND VIRTIO_DESC_F_NEXT = 0")
    case True
    with Suc.prems show ?thesis by (auto simp: Let_def split: if_splits)
  next
    case False
    have "\<exists>q2. free_chain m n (unat (d_next (read_desc m (desc q + sizeof_Descriptor * idx))))
        (q'\<lparr>free := (free q')[idx := True]\<rparr>) = Inr q2"
      by (rule Suc.IH [of _ "q\<lparr>free := (free q)[idx := True]\<rparr>"])
        (use Suc.prems False in \<open>auto simp: Let_def split: if_splits\<close>)
    with Suc.prems False show ?thesis by (auto simp: Let_def split: if_splits)
  qed
qed

lemma free_chain_keeps_free:
  "free_chain m n idx q = Inr q' \<Longrightarrow> i < length (free q) \<Longrightarrow> free q ! i \<Longrightarrow> free q' ! i"
proof (induction n arbitrary: idx q)
  case 0
  then show ?case by simp
next
  case (Suc n)
  let ?q = "q\<lparr>free := (free q)[idx := True]\<rparr>"
  have "free ?q ! i" using Suc.prems by (auto simp: nth_upd)
  with Suc.prems Suc.IH [of _ ?q] show ?case by (auto simp: Let_def split: if_splits)
qed

text \<open>The elements of the used ring name chains that end.\<close>

definition used_ok :: "memory \<Rightarrow> QueueState \<Rightarrow> bool" where
  "used_ok m q \<longleftrightarrow>
     (\<forall>k < VIRTIO_RING_SIZE. let id = unat (ld32 m (used_ring_addr (used q) k)) in
        id < VIRTIO_RING_SIZE \<longrightarrow> (\<exists>q'. free_desc_chain m q id = Inr q'))"

definition same_queue :: "QueueState \<Rightarrow> QueueState \<Rightarrow> bool" where
  "same_queue q q' \<longleftrightarrow>
     desc q' = desc q \<and> avail q' = avail q \<and> used q' = used q \<and> length (free q') = length (free q) \<and>
     (\<forall>i < length (free q). free q ! i \<longrightarrow> free q' ! i)"

lemma used_ok_same_queue: "used_ok m q \<Longrightarrow> same_queue q q' \<Longrightarrow> used_ok m q'"
  unfolding used_ok_def same_queue_def free_desc_chain_def Let_def using free_chain_ok by metis

text \<open>The completion loop runs to the end of the used ring.\<close>

lemma pending_run:
  assumes "used_ok m (queue bd)"
  shows "\<exists>bd'. pending m bd = Inr bd' \<and> ack_used_idx bd' = ld16 m (used_idx_addr (used (queue bd))) \<and>
           dev bd' = dev bd \<and> read_only bd' = read_only bd \<and> same_queue (queue bd) (queue bd')"
  using assms
proof (induction m bd rule: pending.induct)
  case (1 m bd)
  let ?k = "unat (ack_used_idx bd) mod VIRTIO_RING_SIZE"
  let ?id = "unat (ld32 m (used_ring_addr (used (queue bd)) ?k))"
  let ?bd1 = "bd\<lparr>ack_used_idx := ack_used_idx bd + 1\<rparr>"
  let ?q1 = "(queue bd)\<lparr>req_head := (req_head (queue bd))[?id := 0]\<rparr>"
  consider (seen) "ack_used_idx bd = ld16 m (used_idx_addr (used (queue bd)))"
    | (bad) "ack_used_idx bd \<noteq> ld16 m (used_idx_addr (used (queue bd)))" "?id \<ge> VIRTIO_RING_SIZE"
    | (ok) "ack_used_idx bd \<noteq> ld16 m (used_idx_addr (used (queue bd)))" "?id < VIRTIO_RING_SIZE" by linarith
  then show ?case
  proof cases
    case seen
    then show ?thesis by (subst pending.simps) (simp add: same_queue_def)
  next
    case bad
    from "1.IH"(1) [OF bad(1) refl refl refl refl bad(2)] "1.prems" bad show ?thesis
      by (subst pending.simps) (simp add: Let_def)
  next
    case ok
    have "?k < VIRTIO_RING_SIZE" by (simp add: VIRTIO_RING_SIZE_def)
    with "1.prems" ok(2) obtain q0 where "free_desc_chain m (queue bd) ?id = Inr q0"
      unfolding used_ok_def Let_def by blast
    then obtain q2 where q2: "free_desc_chain m ?q1 ?id = Inr q2"
      unfolding free_desc_chain_def using free_chain_ok [of m VIRTIO_RING_SIZE ?id "queue bd" q0 ?q1] by auto
    have sq: "same_queue (queue bd) q2"
      using free_chain_frame [OF q2 [unfolded free_desc_chain_def]]
        free_chain_keeps_free [OF q2 [unfolded free_desc_chain_def]] by (simp add: same_queue_def)
    let ?bd2 = "?bd1\<lparr>queue := q2\<rparr>"
    have "\<exists>bd'. pending m ?bd2 = Inr bd' \<and> ack_used_idx bd' = ld16 m (used_idx_addr (used (queue ?bd2))) \<and>
           dev bd' = dev ?bd2 \<and> read_only bd' = read_only ?bd2 \<and> same_queue (queue ?bd2) (queue bd')"
      using "1.IH"(2) [of ?k _ ?bd1 ?id ?q1 q2] ok q2 used_ok_same_queue [OF "1.prems" sq] by simp
    moreover have "pending m bd = pending m ?bd2"
      using ok q2 by (subst pending.simps) (simp add: Let_def)
    ultimately show ?thesis using sq by (auto simp: same_queue_def)
  qed
qed

text \<open>
  C30: The completion loop \<open>pending\<close> ends and drains the used ring. Whatever the distance between
  the driver's index and the device's, wrap-around included, if the chains named in the ring
  end then the loop returns, the driver's index has caught up with the device's, the queue's
  addresses are kept and no free descriptor is lost.
\<close>

lemma pending_drains:
  assumes "used_ok m (queue bd)"
  shows "\<exists>bd'. pending m bd = Inr bd' \<and> ack_used_idx bd' = ld16 m (used_idx_addr (used (queue bd))) \<and>
           dev bd' = dev bd \<and> read_only bd' = read_only bd \<and> same_queue (queue bd) (queue bd')"
  using assms by (rule pending_run)

theorem pending_drains_witness:
  "\<exists>bd'. pending (\<lambda>_. 0) (BlockDevice_empty\<lparr>ack_used_idx := 65535\<rparr>) = Inr bd' \<and> ack_used_idx bd' = 0"
proof -
  let ?bd = "BlockDevice_empty\<lparr>ack_used_idx := 65535\<rparr>"
  have z: "ld16 (\<lambda>_. 0) a = 0" "ld32 (\<lambda>_. 0) a = 0" for a
    by (simp_all add: ld16_def ld32_def rd_bytes_def map_replicate_const)
  have "free_chain (\<lambda>_. 0) (Suc n) 0 (queue ?bd) = Inr (queue ?bd)" for n
    by (simp add: BlockDevice_empty_def QueueState_empty_def VIRTIO_RING_SIZE_def Let_def read_desc_def z
        nth_upd list_eq_iff_nth_eq)
  moreover have "VIRTIO_RING_SIZE = Suc 7" by (simp add: VIRTIO_RING_SIZE_def)
  ultimately have "\<exists>q'. free_desc_chain (\<lambda>_. 0) (queue ?bd) 0 = Inr q'"
    unfolding free_desc_chain_def by metis
  then have "used_ok (\<lambda>_. 0) (queue ?bd)" by (simp add: used_ok_def Let_def z)
  from pending_drains [OF this] show ?thesis by (auto simp: z)
qed

end
