(* ===== verification/Uart.thy ===== *)
theory Uart
  imports Virtio
begin

text \<open>
  The serial port and the console (\<open>src/drivers/uart/mod.rs\<close>, \<open>src/console/\<close>).

  The registers of the chip and of the timer are parameters of the model, in the record \<open>soc\<close>
  that extends the \<open>bus\<close> of the block driver. The operations thread the hardware state alone.
  The waits on the line status register have fuel; \<open>uart_device\<close> states the documented
  behaviour of a 16550 whose transmitter is ready again after at most \<open>N\<close> polls, and with more
  fuel than \<open>N\<close> every byte is sent. A \<open>print!\<close> is a \<open>write_str\<close> of the formatted bytes.
\<close>

section \<open>Registers\<close>

record 'd soc = "'d bus" +
  rd8 :: "nat \<Rightarrow> 'd \<Rightarrow> u8 \<times> 'd"
  wr8 :: "nat \<Rightarrow> u8 \<Rightarrow> 'd \<Rightarrow> 'd"
  rd64 :: "nat \<Rightarrow> 'd \<Rightarrow> u64 \<times> 'd"
  wr64 :: "nat \<Rightarrow> u64 \<Rightarrow> 'd \<Rightarrow> 'd"

definition UART_BASE :: nat where "UART_BASE = 0x10000000"
definition RBR_THR :: nat where "RBR_THR = 0"
definition IER :: nat where "IER = 1"
definition FCR :: nat where "FCR = 2"
definition LCR :: nat where "LCR = 3"
definition LSR :: nat where "LSR = 5"
definition LSR_DATA_READY :: u8 where "LSR_DATA_READY = push_bit 0 1"
definition LSR_THR_EMPTY :: u8 where "LSR_THR_EMPTY = push_bit 5 1"
definition LCR_8BITS :: u8 where "LCR_8BITS = 3"
definition FCR_ENABLE :: u8 where "FCR_ENABLE = 1"
definition IER_RX_ENABLE :: u8 where "IER_RX_ENABLE = 1"

lemmas uart_consts = RBR_THR_def IER_def FCR_def LCR_def LSR_def LSR_DATA_READY_def LSR_THR_EMPTY_def
  LCR_8BITS_def FCR_ENABLE_def IER_RX_ENABLE_def

section \<open>Operations\<close>

definition uart_read :: "'d soc \<Rightarrow> nat \<Rightarrow> nat \<Rightarrow> 'd \<Rightarrow> u8 \<times> 'd" where
  "uart_read M base off d = rd8 M (base + off) d"

definition uart_write :: "'d soc \<Rightarrow> nat \<Rightarrow> nat \<Rightarrow> u8 \<Rightarrow> 'd \<Rightarrow> 'd" where
  "uart_write M base off v d = wr8 M (base + off) v d"

definition uart_init :: "'d soc \<Rightarrow> nat \<Rightarrow> 'd \<Rightarrow> 'd" where
  "uart_init M base d =
     uart_write M base IER IER_RX_ENABLE
       (uart_write M base FCR FCR_ENABLE (uart_write M base LCR LCR_8BITS d))"

fun put :: "'d soc \<Rightarrow> nat \<Rightarrow> nat \<Rightarrow> u8 \<Rightarrow> 'd \<Rightarrow> 'd res" where
  "put M 0 base b d = Inl Diverges"
| "put M (Suc n) base b d =
     (case uart_read M base LSR d of (lsr, d1) \<Rightarrow>
      if lsr AND LSR_THR_EMPTY = 0 then put M n base b d1
      else Inr (uart_write M base RBR_THR b d1))"

definition get :: "'d soc \<Rightarrow> nat \<Rightarrow> 'd \<Rightarrow> u8 option \<times> 'd" where
  "get M base d =
     (case uart_read M base LSR d of (lsr, d1) \<Rightarrow>
      if lsr AND LSR_DATA_READY = 0 then (None, d1)
      else (case uart_read M base RBR_THR d1 of (b, d2) \<Rightarrow> (Some b, d2)))"

fun get_blocking :: "'d soc \<Rightarrow> nat \<Rightarrow> nat \<Rightarrow> 'd \<Rightarrow> (u8 \<times> 'd) res" where
  "get_blocking M 0 base d = Inl Diverges"
| "get_blocking M (Suc n) base d =
     (case get M base d of
        (Some b, d1) \<Rightarrow> Inr (b, d1)
      | (None, d1) \<Rightarrow> get_blocking M n base d1)"

definition write_str :: "'d soc \<Rightarrow> nat \<Rightarrow> nat \<Rightarrow> u8 list \<Rightarrow> 'd \<Rightarrow> 'd res" where
  "write_str M fuel base bs d = fold_res (put M fuel base) bs d"

section \<open>Console\<close>

definition console_writer :: nat where "console_writer = UART_BASE"

definition print :: "'d soc \<Rightarrow> nat \<Rightarrow> u8 list \<Rightarrow> ('d, 'z) vio_state_scheme \<Rightarrow> ('d, 'z) vio_state_scheme res" where
  "print M fuel bs s = bind_res (write_str M fuel console_writer bs (hw s)) (\<lambda>d. Inr (s\<lparr>hw := d\<rparr>))"

definition println :: "'d soc \<Rightarrow> nat \<Rightarrow> u8 list \<Rightarrow> ('d, 'z) vio_state_scheme \<Rightarrow> ('d, 'z) vio_state_scheme res" where
  "println M fuel bs s = print M fuel (bs @ [13, 10]) s"

text \<open>
  What \<open>core::fmt\<close> makes of the arguments the kernel prints: the bytes of a string literal, of a
  \<open>char\<close> below 256 (two bytes from \<open>0x80\<close> on) and of an unsigned number in decimal.
\<close>

definition bytes :: "string \<Rightarrow> u8 list" where "bytes cs = map of_char cs"

definition char_bytes :: "u8 \<Rightarrow> u8 list" where
  "char_bytes c = (if c < 0x80 then [c] else [0xC0 OR drop_bit 6 c, 0x80 OR (c AND 0x3F)])"

fun dec :: "nat \<Rightarrow> u8 list" where
  "dec n = (if n < 10 then [of_nat (48 + n)] else dec (n div 10) @ [of_nat (48 + n mod 10)])"

declare dec.simps [simp del]

text \<open>\<open>{:x}\<close>, \<open>{:o}\<close> and padding as in \<open>{:>4}\<close> and \<open>{:02x}\<close>.\<close>

definition hex_digit :: "nat \<Rightarrow> u8" where
  "hex_digit n = of_nat (if n < 10 then 48 + n else 87 + n)"

fun hex :: "nat \<Rightarrow> u8 list" where
  "hex n = (if n < 16 then [hex_digit n] else hex (n div 16) @ [hex_digit (n mod 16)])"

declare hex.simps [simp del]

fun oct :: "nat \<Rightarrow> u8 list" where
  "oct n = (if n < 8 then [of_nat (48 + n)] else oct (n div 8) @ [of_nat (48 + n mod 8)])"

declare oct.simps [simp del]

definition pad_left :: "u8 \<Rightarrow> nat \<Rightarrow> u8 list \<Rightarrow> u8 list" where
  "pad_left c n bs = replicate (n - length bs) c @ bs"

section \<open>The chip\<close>

record uview =
  sent :: "u8 list"
  rx :: "u8 list"
  busy :: nat

text \<open>
  \<open>sent\<close> is what has gone out on the line, \<open>rx\<close> the bytes waiting in the receive queue, \<open>busy\<close>
  the polls until the transmitter is free. A byte written while it is busy need not be sent.
\<close>

definition uart_device :: "'d soc \<Rightarrow> nat \<Rightarrow> ('d \<Rightarrow> uview) \<Rightarrow> nat \<Rightarrow> bool" where
  "uart_device M base uv N \<longleftrightarrow>
     (\<forall>d. busy (uv d) \<le> N) \<and>
     (\<forall>d. uv (snd (rd8 M (base + 5) d)) = (uv d)\<lparr>busy := busy (uv d) - 1\<rparr> \<and>
          (fst (rd8 M (base + 5) d) AND 0x20 = 0 \<longleftrightarrow> busy (uv d) \<noteq> 0) \<and>
          (fst (rd8 M (base + 5) d) AND 1 = 0 \<longleftrightarrow> rx (uv d) = [])) \<and>
     (\<forall>d b bs. rx (uv d) = b # bs \<longrightarrow>
          fst (rd8 M base d) = b \<and> uv (snd (rd8 M base d)) = (uv d)\<lparr>rx := bs\<rparr>) \<and>
     (\<forall>d b. busy (uv d) = 0 \<longrightarrow> sent (uv (wr8 M base b d)) = sent (uv d) @ [b] \<and> rx (uv (wr8 M base b d)) = rx (uv d))"

lemma put_sends:
  assumes "uart_device M base uv N" "busy (uv d) < fuel"
  shows "\<exists>d'. put M fuel base b d = Inr d' \<and> sent (uv d') = sent (uv d) @ [b] \<and> rx (uv d') = rx (uv d)"
  using assms(2)
proof (induction fuel arbitrary: d)
  case 0
  then show ?case by simp
next
  case (Suc n)
  obtain l d1 where l: "rd8 M (base + 5) d = (l, d1)" by (cases "rd8 M (base + 5) d")
  have dv: "uv d1 = (uv d)\<lparr>busy := busy (uv d) - 1\<rparr>" "l AND 0x20 = 0 \<longleftrightarrow> busy (uv d) \<noteq> 0"
    using assms(1) l by (auto simp: uart_device_def dest: spec [of _ d])
  show ?case
  proof (cases "busy (uv d) = 0")
    case True
    then have "busy (uv d1) = 0" by (simp add: dv(1))
    then have "sent (uv (wr8 M base b d1)) = sent (uv d1) @ [b]" "rx (uv (wr8 M base b d1)) = rx (uv d1)"
      using assms(1) by (auto simp: uart_device_def)
    then show ?thesis using True dv l by (simp add: uart_read_def uart_write_def uart_consts)
  next
    case False
    then show ?thesis using Suc.IH [of d1] Suc.prems dv l by (simp add: uart_read_def uart_consts)
  qed
qed

lemma write_str_step:
  assumes "uart_device M base uv N" "N < fuel"
  shows "\<exists>d'. write_str M fuel base bs d = Inr d' \<and> sent (uv d') = sent (uv d) @ bs \<and> rx (uv d') = rx (uv d)"
proof (induction bs arbitrary: d)
  case Nil
  show ?case by (simp add: write_str_def)
next
  case (Cons b bs)
  have "busy (uv d) < fuel" using assms by (meson le_less_trans uart_device_def)
  then obtain d1 where d1: "put M fuel base b d = Inr d1" "sent (uv d1) = sent (uv d) @ [b]" "rx (uv d1) = rx (uv d)"
    using put_sends [OF assms(1)] by blast
  with Cons.IH [of d1] show ?case by (auto simp: write_str_def)
qed

lemma println_sends:
  assumes "uart_device M UART_BASE uv P" "P < fuel"
  shows "\<exists>d. println M fuel bs s = Inr (s\<lparr>hw := d\<rparr>) \<and> sent (uv d) = sent (uv (hw s)) @ bs @ [13, 10]"
  using write_str_step [OF assms, of "bs @ [13, 10]" "hw s"] by (auto simp: println_def print_def console_writer_def)

lemma get_takes:
  assumes "uart_device M base uv N"
  shows "case rx (uv d) of
      [] \<Rightarrow> \<exists>d'. get M base d = (None, d') \<and> sent (uv d') = sent (uv d) \<and> rx (uv d') = []
    | b # bs \<Rightarrow> \<exists>d'. get M base d = (Some b, d') \<and> sent (uv d') = sent (uv d) \<and> rx (uv d') = bs"
proof -
  obtain l d1 where l: "rd8 M (base + 5) d = (l, d1)" by (cases "rd8 M (base + 5) d")
  have dv: "uv d1 = (uv d)\<lparr>busy := busy (uv d) - 1\<rparr>" "l AND 1 = 0 \<longleftrightarrow> rx (uv d) = []"
    using assms l by (auto simp: uart_device_def dest: spec [of _ d])
  show ?thesis
  proof (cases "rx (uv d)")
    case Nil
    then show ?thesis using dv l by (simp add: get_def uart_read_def uart_consts)
  next
    case (Cons b bs)
    then have "fst (rd8 M base d1) = b" "uv (snd (rd8 M base d1)) = (uv d1)\<lparr>rx := bs\<rparr>"
      using assms dv(1) by (auto simp: uart_device_def)
    then show ?thesis using Cons dv l by (auto simp: get_def uart_read_def uart_consts split: prod.splits)
  qed
qed

text \<open>A port whose transmitter is busy for two polls after each byte.\<close>

definition demo_chip :: "uview soc" where
  "demo_chip =
     \<lparr>rd32 = (\<lambda>_ d. (0, True, d)), wr32 = (\<lambda>_ _ d. (True, d)), dma = (\<lambda>m d. (m, d)),
      rd8 = (\<lambda>a d. if a = UART_BASE + 5
               then ((if busy d = 0 then 0x20 else 0) OR (if rx d = [] then 0 else 1), d\<lparr>busy := min (busy d) 2 - 1\<rparr>)
               else (hd (rx d), d\<lparr>rx := tl (rx d)\<rparr>)),
      wr8 = (\<lambda>a b d. if a = UART_BASE \<and> busy d = 0 then d\<lparr>sent := sent d @ [b], busy := 2\<rparr> else d),
      rd64 = (\<lambda>_ d. (0, d)), wr64 = (\<lambda>_ _ d. d)\<rparr>"

lemma demo_chip_uart: "uart_device demo_chip UART_BASE (\<lambda>d. d\<lparr>busy := min (busy d) 2\<rparr>) 2"
  by (auto simp: uart_device_def demo_chip_def UART_BASE_def)

end
