(* ===== verification/Plic.thy ===== *)
theory Plic
  imports Uart
begin

text \<open>
  The interrupt controller (\<open>src/drivers/plic/mod.rs\<close>): priority, enable, threshold, claim and
  complete registers of the machine-mode context of hart 0, on the 32-bit registers of \<open>soc\<close>.
  \<open>plic_device\<close> is the documented claim and complete protocol: a claim takes a pending source
  into service, a completion ends the service, and no other register access touches that.
\<close>

section \<open>Registers\<close>

definition PLIC_PRIORITY :: nat where "PLIC_PRIORITY = 0x0c000000"
definition PLIC_ENABLE_HART0_M :: nat where "PLIC_ENABLE_HART0_M = 0x0c002000"
definition PLIC_THRESHOLD_HART0_M :: nat where "PLIC_THRESHOLD_HART0_M = 0x0c200000"
definition PLIC_CLAIM_HART0_M :: nat where "PLIC_CLAIM_HART0_M = 0x0c200004"
definition UART0_IRQ :: u32 where "UART0_IRQ = 10"

section \<open>Operations\<close>

text \<open>The shift \<open>1 << id\<close> of a 32-bit word is checked: a source from 32 on is a panic.\<close>

definition plic_enable ::
  "'d bus \<Rightarrow> u32 \<Rightarrow> ('d, 'z) vio_state_scheme \<Rightarrow> ('d, 'z) vio_state_scheme res"
where
  "plic_enable B src s =
     (case read_volatile32 B PLIC_ENABLE_HART0_M s of (prev, s1) \<Rightarrow>
      if unat src < 32
      then Inr (write_volatile32 B PLIC_ENABLE_HART0_M (prev OR push_bit (unat src) 1) s1)
      else Inl ArithOverflow)"

definition plic_set_priority ::
  "'d bus \<Rightarrow> u32 \<Rightarrow> u8 \<Rightarrow> ('d, 'z) vio_state_scheme \<Rightarrow> ('d, 'z) vio_state_scheme"
where
  "plic_set_priority B src prio s = write_volatile32 B (PLIC_PRIORITY + 4 * unat src) (ucast prio AND 7) s"

definition plic_set_threshold ::
  "'d bus \<Rightarrow> u8 \<Rightarrow> ('d, 'z) vio_state_scheme \<Rightarrow> ('d, 'z) vio_state_scheme"
where
  "plic_set_threshold B tsh s = write_volatile32 B PLIC_THRESHOLD_HART0_M (ucast tsh AND 7) s"

definition plic_next ::
  "'d bus \<Rightarrow> ('d, 'z) vio_state_scheme \<Rightarrow> u32 option \<times> ('d, 'z) vio_state_scheme"
where
  "plic_next B s =
     (case read_volatile32 B PLIC_CLAIM_HART0_M s of (claim, s1) \<Rightarrow>
      (if claim = 0 then None else Some claim, s1))"

definition plic_complete ::
  "'d bus \<Rightarrow> u32 \<Rightarrow> ('d, 'z) vio_state_scheme \<Rightarrow> ('d, 'z) vio_state_scheme"
where
  "plic_complete B src s = write_volatile32 B PLIC_CLAIM_HART0_M src s"

section \<open>The controller\<close>

text \<open>\<open>pv\<close> is the set of sources in service.\<close>

definition plic_device :: "'d soc \<Rightarrow> ('d \<Rightarrow> u32 set) \<Rightarrow> bool" where
  "plic_device M pv \<longleftrightarrow>
     (\<forall>d v ok d'. rd32 M PLIC_CLAIM_HART0_M d = (v, ok, d') \<longrightarrow>
        ok \<and> v \<notin> pv d \<and> pv d' = (if v = 0 then pv d else insert v (pv d))) \<and>
     (\<forall>d src ok d'. wr32 M PLIC_CLAIM_HART0_M src d = (ok, d') \<longrightarrow> ok \<and> pv d' = pv d - {src}) \<and>
     (\<forall>a d v ok d'. a \<noteq> PLIC_CLAIM_HART0_M \<longrightarrow> rd32 M a d = (v, ok, d') \<longrightarrow> pv d' = pv d) \<and>
     (\<forall>a d v ok d'. a \<noteq> PLIC_CLAIM_HART0_M \<longrightarrow> wr32 M a v d = (ok, d') \<longrightarrow> pv d' = pv d) \<and>
     (\<forall>a d. pv (snd (rd8 M a d)) = pv d) \<and> (\<forall>a b d. pv (wr8 M a b d) = pv d)"

end
