(* ===== verification/TrapState.thy ===== *)
theory TrapState
  imports Plic
begin

text \<open>
  The state of the trap handler (\<open>src/arch/riscv64/trap.rs\<close>) and the operations that set it up.

  \<open>trap_state\<close> adds the statics of the file and the control registers it writes. A pointer to a
  trap frame is a \<open>frame_ptr\<close>: the static frame, or the frame inside a slot of the process
  table; \<open>frame_of\<close> and \<open>set_frame\<close> follow it.
\<close>

section \<open>State\<close>

definition TRAP_STACK_PAGES :: nat where "TRAP_STACK_PAGES = 4"
definition MIE_MTIE :: u64 where "MIE_MTIE = push_bit 7 1"
definition MIE_MEIE :: u64 where "MIE_MEIE = push_bit 11 1"
definition CLINT_MTIMECMP :: nat where "CLINT_MTIMECMP = 0x02004000"
definition CLINT_MTIME :: nat where "CLINT_MTIME = 0x0200bff8"
definition TIMER_TICK :: u64 where "TIMER_TICK = 10000000"

datatype EscState = Idle | EscSeen | CsiOpen

datatype trap_vector = asm_trap_vector | m_trap_vector

record 'd trap_state = "'d vio_state" +
  TRAP_STACK_TOP :: u64
  TRAP_FRAME :: TrapFrame
  ESC_STATE :: EscState
  mscratch :: frame_ptr
  mtvec :: trap_vector
  mie :: u64

definition frame_of :: "frame_ptr \<Rightarrow> ('d, 'z) trap_state_scheme \<Rightarrow> TrapFrame option" where
  "frame_of fp s =
     (case fp of StaticFrame \<Rightarrow> Some (TRAP_FRAME s) | SlotFrame i \<Rightarrow> map_option frame (proc_at s i))"

definition set_frame :: "frame_ptr \<Rightarrow> TrapFrame \<Rightarrow> ('d, 'z) trap_state_scheme \<Rightarrow> ('d, 'z) trap_state_scheme" where
  "set_frame fp f s =
     (case fp of
        StaticFrame \<Rightarrow> s\<lparr>TRAP_FRAME := f\<rparr>
      | SlotFrame i \<Rightarrow>
          (case proc_at s i of
             None \<Rightarrow> s
           | Some p \<Rightarrow> s\<lparr>slots := (slots s)[i := Some (p\<lparr>frame := f\<rparr>)]\<rparr>))"

section \<open>Operations\<close>

definition set_mmio_guard :: "bool \<Rightarrow> ('d, 'z) trap_state_scheme \<Rightarrow> ('d, 'z) trap_state_scheme" where
  "set_mmio_guard active s = s"

definition trap_stack_top :: "('d, 'z) trap_state_scheme \<Rightarrow> u64" where
  "trap_stack_top s = TRAP_STACK_TOP s"

definition install ::
  "linker \<Rightarrow> u64 \<Rightarrow> ('d, 'z) trap_state_scheme \<Rightarrow> ('d, 'z) trap_state_scheme res"
where
  "install L root_satp s =
     bind_res (zallocate L TRAP_STACK_PAGES s) (\<lambda>(p, s1).
     case p of
       None \<Rightarrow> Inl UnwrapNone
     | Some trap_stk \<Rightarrow>
         let stack_top = of_nat (trap_stk + TRAP_STACK_PAGES * PAGE_SIZE) in
         Inr (s1\<lparr>TRAP_STACK_TOP := stack_top,
                 TRAP_FRAME := (TRAP_FRAME s1)\<lparr>satp := root_satp, trap_stack := stack_top, hartid := 0\<rparr>,
                 mscratch := StaticFrame, mtvec := m_trap_vector\<rparr>))"

text \<open>\<open>CLINT_MTIMECMP.write_volatile(CLINT_MTIME.read_volatile() + TIMER_TICK)\<close>\<close>

definition u64_add :: "u64 \<Rightarrow> u64 \<Rightarrow> u64 res" where
  "u64_add a b = (if unat a + unat b < 2 ^ 64 then Inr (a + b) else Inl ArithOverflow)"

definition rearm_timer ::
  "'d soc \<Rightarrow> ('d, 'z) trap_state_scheme \<Rightarrow> ('d, 'z) trap_state_scheme res"
where
  "rearm_timer M s =
     (case rd64 M CLINT_MTIME (hw s) of (t, d) \<Rightarrow>
      bind_res (u64_add t TIMER_TICK) (\<lambda>t'. Inr (s\<lparr>hw := wr64 M CLINT_MTIMECMP t' d\<rparr>)))"

definition enable_interrupts ::
  "'d soc \<Rightarrow> ('d, 'z) trap_state_scheme \<Rightarrow> ('d, 'z) trap_state_scheme res"
where
  "enable_interrupts M s = bind_res (rearm_timer M s) (\<lambda>s1. Inr (s1\<lparr>mie := MIE_MEIE OR MIE_MTIE\<rparr>))"

end
