(* ===== verification/BlockIO.thy ===== *)
theory BlockIO
  imports Virtio
begin

text \<open>
  What the block driver delivers with a device behind it.

  The device is not part of the kernel: \<open>blk_device\<close> states the documented behaviour of a
  virtio block device that the driver relies on. It reads the next request of the available
  ring, follows its three descriptors, transfers the data, writes the status byte and
  publishes the head in the used ring; it may take any bounded number of rounds to do so.

  \<open>drv_ok\<close> is the invariant of an idle queue, and \<open>block_op_spec\<close> the contract of
  \<open>block_read\<close> and \<open>block_write\<close> that the filesystem builds on.
\<close>

section \<open>The device\<close>

record dview =
  vq :: nat
  vseen :: u16
  vdisk :: "u8 list"

record blk_req =
  r_head :: u16
  r_typ :: u32
  r_sector :: nat
  r_buf :: nat
  r_len :: nat
  r_status :: nat

text \<open>The request a device finds at its position in the available ring, if it is well formed.\<close>

definition dev_request :: "memory \<Rightarrow> dview \<Rightarrow> blk_req option" where
  "dev_request m v =
     (let av = vq v + 128;
          head = ld16 m (avail_ring_addr av (unat (vseen v) mod 8));
          hd = read_desc m (vq v + 16 * unat head);
          dd = read_desc m (vq v + 16 * unat (d_next hd));
          sd = read_desc m (vq v + 16 * unat (d_next dd));
          ty = ld32 m (unat (d_addr hd))
      in if ld16 m (avail_idx_addr av) \<noteq> vseen v \<and>
            unat head < 8 \<and> unat (d_next hd) < 8 \<and> unat (d_next dd) < 8 \<and>
            d_flags hd = 1 \<and> d_len hd = 16 \<and>
            (ty = 0 \<and> d_flags dd = 3 \<or> ty = 1 \<and> d_flags dd = 1) \<and>
            d_flags sd = 2 \<and> d_len sd = 1
         then Some \<lparr>r_head = head, r_typ = ty, r_sector = unat (ld64 m (unat (d_addr hd) + 8)),
                    r_buf = unat (d_addr dd), r_len = unat (d_len dd), r_status = unat (d_addr sd)\<rparr>
         else None)"

definition in_range :: "dview \<Rightarrow> blk_req \<Rightarrow> bool" where
  "in_range v r \<longleftrightarrow> r_sector r * 512 + r_len r \<le> length (vdisk v)"

text \<open>What the device writes: the data of a read, the status, then the element of the used ring.\<close>

definition serve_mem :: "memory \<Rightarrow> dview \<Rightarrow> blk_req \<Rightarrow> u32 \<Rightarrow> memory" where
  "serve_mem m v r w =
     (let m1 = (if r_typ r = 0 \<and> in_range v r
                then wr_bytes m (r_buf r) (take (r_len r) (drop (r_sector r * 512) (vdisk v))) else m);
          m2 = wr_bytes m1 (r_status r) [if in_range v r then 0 else 1];
          u = vq v + 4096;
          uidx = ld16 m2 (used_idx_addr u);
          m3 = st32 m2 (used_ring_addr u (unat uidx mod 8)) (ucast (r_head r));
          m4 = st32 m3 (used_ring_addr u (unat uidx mod 8) + 4) w
      in st16 m4 (used_idx_addr u) (uidx + 1))"

definition serve_view :: "memory \<Rightarrow> dview \<Rightarrow> blk_req \<Rightarrow> dview" where
  "serve_view m v r =
     v\<lparr>vseen := vseen v + 1,
       vdisk := (if r_typ r = 1 \<and> in_range v r
                 then take (r_sector r * 512) (vdisk v) @ rd_bytes m (r_buf r) (r_len r) @
                      drop (r_sector r * 512 + r_len r) (vdisk v)
                 else vdisk v)\<rparr>"

text \<open>
  The device at MMIO address \<open>a\<close>: \<open>view\<close> is what it knows of the queue and its disk,
  \<open>rank\<close> bounds the rounds it may still let pass before it serves a request. Nothing is promised
  for a request whose data is not a positive number of whole sectors.
\<close>

definition whole_sectors :: "nat \<Rightarrow> bool" where
  "whole_sectors n \<longleftrightarrow> 0 < n \<and> n mod 512 = 0"

definition blk_device :: "'d bus \<Rightarrow> nat \<Rightarrow> ('d \<Rightarrow> dview option) \<Rightarrow> ('d \<Rightarrow> nat) \<Rightarrow> nat \<Rightarrow> bool" where
  "blk_device B a view rank N \<longleftrightarrow>
     (\<forall>d. rank d < N) \<and>
     (\<forall>d. view (snd (wr32 B (a + 0x50) 0 d)) = view d) \<and>
     (\<forall>m d v r. view d = Some v \<longrightarrow> dev_request m v = Some r \<longrightarrow> whole_sectors (r_len r) \<longrightarrow>
        (\<exists>d'. dma B m d = (m, d') \<and> view d' = Some v \<and> rank d' < rank d) \<or>
        (\<exists>d' w. dma B m d = (serve_mem m v r w, d') \<and> view d' = Some (serve_view m v r)))"

section \<open>Writing the request and the rings\<close>

lemma write_request_reads:
  "ld32 (write_request p ty sec buf m) p = ty"
  "ld64 (write_request p ty sec buf m) (p + 8) = sec"
  "write_request p ty sec buf m (p + 24) = STATUS_PENDING"
  "x < p \<or> p + 25 \<le> x \<Longrightarrow> write_request p ty sec buf m x = m x"
proof -
  show "ld32 (write_request p ty sec buf m) p = ty" "ld64 (write_request p ty sec buf m) (p + 8) = sec"
    by (simp_all add: write_request_def req_status_addr_def mem_simps)
  show "write_request p ty sec buf m (p + 24) = STATUS_PENDING"
    by (simp add: write_request_def req_status_addr_def wr_bytes_def)
  show "write_request p ty sec buf m x = m x" if "x < p \<or> p + 25 \<le> x"
    using that by (auto simp: write_request_def req_status_addr_def st_out st64_out wr_bytes_out)
qed

lemma read_write_desc: "read_desc (write_desc a d m) a = d"
  by (simp add: read_desc_def write_desc_def mem_simps)

lemma read_write_desc_other:
  "a + 16 \<le> b \<or> b + 16 \<le> a \<Longrightarrow> read_desc (write_desc a d m) b = read_desc m b"
  by (elim disjE) (simp_all add: read_desc_def write_desc_def mem_simps)

lemma write_desc_out: "x < a \<or> a + 16 \<le> x \<Longrightarrow> write_desc a d m x = m x"
  by (elim disjE) (simp_all add: write_desc_def st_out st64_out)

lemma ld16_write_desc: "a + 16 \<le> b \<or> b + 2 \<le> a \<Longrightarrow> ld16 (write_desc a d m) b = ld16 m b"
  by (elim disjE) (simp_all add: write_desc_def mem_simps)

lemma read_desc_st16: "a + 16 \<le> b \<or> b + 2 \<le> a \<Longrightarrow> read_desc (st16 m b v) a = read_desc m a"
  by (elim disjE) (simp_all add: read_desc_def mem_simps)

text \<open>The three descriptors of a chain, distinct and in the ring.\<close>

definition three :: "nat \<Rightarrow> nat \<Rightarrow> nat \<Rightarrow> bool" where
  "three h d t \<longleftrightarrow> h < 8 \<and> d < 8 \<and> t < 8 \<and> h \<noteq> d \<and> h \<noteq> t \<and> d \<noteq> t"

lemma read_write_slot:
  "i \<noteq> j \<Longrightarrow> read_desc (write_desc (b + 16 * i) d m) (b + 16 * j) = read_desc m (b + 16 * j)"
  by (rule read_write_desc_other) linarith

lemma publish_reads:
  assumes q: "desc q = b" "avail q = b + 128" and ids: "three h d t"
    and m': "m' = publish q req h d t buf sz write m"
  shows "read_desc m' (b + 16 * h) = \<lparr>d_addr = of_nat req, d_len = 16, d_flags = 1, d_next = of_nat d\<rparr>"
    "read_desc m' (b + 16 * d) =
       \<lparr>d_addr = of_nat buf, d_len = sz, d_flags = (if write then 1 else 3), d_next = of_nat t\<rparr>"
    "read_desc m' (b + 16 * t) = \<lparr>d_addr = of_nat (req + 24), d_len = 1, d_flags = 2, d_next = 0\<rparr>"
    "ld16 m' (avail_idx_addr (b + 128)) = ld16 m (avail_idx_addr (b + 128)) + 1"
    "ld16 m' (avail_ring_addr (b + 128) (unat (ld16 m (avail_idx_addr (b + 128))) mod 8)) = of_nat h"
    "x < b \<or> b + 148 \<le> x \<Longrightarrow> m' x = m x"
proof -
  have lt: "h < 8" "d < 8" "t < 8" and ne: "h \<noteq> d" "h \<noteq> t" "d \<noteq> t" using ids by (simp_all add: three_def)
  define m3 where "m3 =
    write_desc (b + 16 * t) \<lparr>d_addr = of_nat (req + 24), d_len = 1, d_flags = 2, d_next = 0\<rparr>
     (write_desc (b + 16 * d) \<lparr>d_addr = of_nat buf, d_len = sz, d_flags = (if write then 1 else 3), d_next = of_nat t\<rparr>
       (write_desc (b + 16 * h) \<lparr>d_addr = of_nat req, d_len = 16, d_flags = 1, d_next = of_nat d\<rparr> m))"
  define j where "j = unat (ld16 m (b + 130)) mod 8"
  have j: "j < 8" by (simp add: j_def)
  have m3_out: "m3 x = m x" if "x < b \<or> b + 128 \<le> x" for x
    using that lt by (auto simp: m3_def write_desc_out)
  then have idx: "ld16 m3 (b + 130) = ld16 m (b + 130)"
    using agree_ld(1) [of m3 m "b + 128" 22 "b + 130"] by (simp add: agree_def)
  have fl: "(1 :: u16) OR (if write then 0 else 2) = (if write then 1 else 3)"
    and ad: "b + 128 + 2 = b + 130" "b + 128 + 4 = b + 132" by simp_all
  have m'': "m' = st16 (st16 m3 (b + 132 + 2 * j) (of_nat h)) (b + 130) (ld16 m (b + 130) + 1)"
    unfolding j_def idx [symmetric] m3_def
    by (simp only: m' publish_def Let_def q virtio_layout VIRTIO_DESC_F_NEXT_def VIRTIO_DESC_F_WRITE_def
        VIRTIO_RING_SIZE_def fl ad of_nat_numeral)
  have m'_desc: "read_desc m' (b + 16 * k) = read_desc m3 (b + 16 * k)" if "k < 8" for k
    using that by (simp add: m'' read_desc_st16)
  show "read_desc m' (b + 16 * h) = \<lparr>d_addr = of_nat req, d_len = 16, d_flags = 1, d_next = of_nat d\<rparr>"
    "read_desc m' (b + 16 * d) =
       \<lparr>d_addr = of_nat buf, d_len = sz, d_flags = (if write then 1 else 3), d_next = of_nat t\<rparr>"
    "read_desc m' (b + 16 * t) = \<lparr>d_addr = of_nat (req + 24), d_len = 1, d_flags = 2, d_next = 0\<rparr>"
    using ne lt by (simp_all add: m'_desc m3_def read_write_slot read_write_desc del: of_nat_add)
  show "ld16 m' (avail_idx_addr (b + 128)) = ld16 m (avail_idx_addr (b + 128)) + 1"
    unfolding avail_idx_addr_def ad by (simp add: m'')
  show "ld16 m' (avail_ring_addr (b + 128) (unat (ld16 m (avail_idx_addr (b + 128))) mod 8)) = of_nat h"
    unfolding avail_idx_addr_def avail_ring_addr_def ad j_def [symmetric] by (simp add: m'' mem_simps)
  show "m' x = m x" if "x < b \<or> b + 148 \<le> x"
    using that j m3_out [of x] by (auto simp: m'' st_out)
qed

section \<open>The request as the device sees it\<close>

text \<open>
  The addresses of one operation: the queue's two pages at \<open>b\<close>, the request's page at \<open>p\<close>
  and the caller's buffer, pairwise disjoint and within the address space.
\<close>

definition apart :: "nat \<Rightarrow> nat \<Rightarrow> nat \<Rightarrow> nat \<Rightarrow> bool" where
  "apart b p buf n \<longleftrightarrow>
     (b + 8192 \<le> p \<or> p + 4096 \<le> b) \<and> (b + 8192 \<le> buf \<or> buf + n \<le> b) \<and>
     (p + 4096 \<le> buf \<or> buf + n \<le> p) \<and> p + 4096 \<le> 2 ^ 56 \<and> buf + n \<le> 2 ^ 56"

lemma submitted_request:
  assumes q: "desc q = b" "avail q = b + 128" and ap: "apart b p buf (unat sz)" and ids: "three h d t"
    and v: "vq v = b" "vseen v = ld16 m (avail_idx_addr (b + 128))"
    and m': "m' = publish q p h d t buf sz write (write_request p ty sec buf m)"
    and ty: "ty = (if write then 1 else 0)"
  shows "dev_request m' v =
     Some \<lparr>r_head = of_nat h, r_typ = ty, r_sector = unat sec, r_buf = buf, r_len = unat sz, r_status = p + 24\<rparr>"
    "m' (p + 24) = STATUS_PENDING"
    "x < b \<or> b + 148 \<le> x \<Longrightarrow> x < p \<or> p + 25 \<le> x \<Longrightarrow> m' x = m x"
proof -
  let ?m1 = "write_request p ty sec buf m"
  note pr = publish_reads [OF q ids m']
  have out: "m' x = ?m1 x" if "p \<le> x" "x < p + 4096" for x
    using that ap by (intro pr(6)) (auto simp: apart_def)
  then have ag: "agree m' ?m1 p 4096" by (simp add: agree_def)
  have rq: "ld32 m' p = ty" "ld64 m' (p + 8) = sec"
    using agree_ld(2) [OF ag, of p] agree_ld(3) [OF ag, of "p + 8"] write_request_reads by simp_all
  have agb: "agree ?m1 m b 8192"
    using ap by (intro agreeI write_request_reads) (auto simp: apart_def)
  have idx: "ld16 ?m1 (avail_idx_addr (b + 128)) = ld16 m (avail_idx_addr (b + 128))"
    using agree_ld(1) [OF agb] by (simp add: avail_idx_addr_def)
  have un: "unat (of_nat p :: u64) = p" "unat (of_nat buf :: u64) = buf" "unat (of_nat (p + 24) :: u64) = p + 24"
    using ap by (simp_all add: apart_def unat_of_nat del: of_nat_add)
  have ui: "unat (of_nat h :: u16) = h" "unat (of_nat d :: u16) = d" "unat (of_nat t :: u16) = t"
    and lt: "h < 8" "d < 8" "t < 8" using ids by (simp_all add: three_def unat_of_nat)
  show "dev_request m' v =
     Some \<lparr>r_head = of_nat h, r_typ = ty, r_sector = unat sec, r_buf = buf, r_len = unat sz, r_status = p + 24\<rparr>"
    using pr(1-5) [unfolded idx] rq un ui lt ty by (simp add: dev_request_def Let_def v del: of_nat_add)
  show "m' (p + 24) = STATUS_PENDING" using out write_request_reads(3) by simp
  show "m' x = m x" if "x < b \<or> b + 148 \<le> x" "x < p \<or> p + 25 \<le> x"
    using pr(6) [OF that(1)] write_request_reads(4) [OF that(2)] by simp
qed

lemma three_012: "three 0 1 2"
  by (simp add: three_def)

text \<open>What the answer of the device looks like in memory.\<close>

lemma serve_mem_reads:
  assumes ap: "apart (vq v) p (r_buf r) (r_len r)" and st: "r_status r = p + 24"
    and m': "m' = serve_mem m v r w"
  shows "m' (p + 24) = (if in_range v r then 0 else 1)"
    "ld16 m' (used_idx_addr (vq v + 4096)) = ld16 m (used_idx_addr (vq v + 4096)) + 1"
    "ld32 m' (used_ring_addr (vq v + 4096) (unat (ld16 m (used_idx_addr (vq v + 4096))) mod 8)) = ucast (r_head r)"
    "in_range v r \<Longrightarrow> r_typ r = 0 \<Longrightarrow>
       rd_bytes m' (r_buf r) (r_len r) = take (r_len r) (drop (r_sector r * 512) (vdisk v))"
    "agree m' m (vq v) 4096"
    "x < vq v + 4096 \<or> vq v + 4168 \<le> x \<Longrightarrow> x \<noteq> p + 24 \<Longrightarrow> x < r_buf r \<or> r_buf r + r_len r \<le> x \<Longrightarrow> m' x = m x"
    "\<not> (r_typ r = 0 \<and> in_range v r) \<Longrightarrow> rd_bytes m' (r_buf r) (r_len r) = rd_bytes m (r_buf r) (r_len r)"
proof -
  let ?b = "vq v"
  let ?data = "take (r_len r) (drop (r_sector r * 512) (vdisk v))"
  define m1 where "m1 = (if r_typ r = 0 \<and> in_range v r then wr_bytes m (r_buf r) ?data else m)"
  define m2 where "m2 = wr_bytes m1 (p + 24) [if in_range v r then 0 else 1]"
  define u where "u = vq v + 4096"
  define j where "j = unat (ld16 m2 (u + 2)) mod 8"
  have j: "j < 8" by (simp add: j_def)
  have m3: "m' = st16 (st32 (st32 m2 (u + 4 + 8 * j) (ucast (r_head r))) (u + 4 + 8 * j + 4) w)
      (u + 2) (ld16 m2 (u + 2) + 1)"
    unfolding m' serve_mem_def Let_def st m1_def [symmetric] m2_def [symmetric] u_def [symmetric]
      used_idx_addr_def used_ring_addr_def j_def [symmetric] ..
  have m1_out: "m1 x = m x" if "x < r_buf r \<or> r_buf r + r_len r \<le> x" for x
    using that by (auto simp: m1_def wr_bytes_out)
  have m2_out: "m2 x = m x" if "x \<noteq> p + 24" "x < r_buf r \<or> r_buf r + r_len r \<le> x" for x
    using that m1_out [OF that(2)] by (auto simp: m2_def wr_bytes_def)
  have m'_out: "m' x = m2 x" if "x < ?b + 4096 \<or> ?b + 4168 \<le> x" for x
    using that j by (auto simp: m3 u_def st_out)
  have ag: "agree m2 m ?b 8192" using ap by (intro agreeI m2_out) (auto simp: apart_def)
  have ui: "ld16 m2 (u + 2) = ld16 m (u + 2)" using agree_ld(1) [OF ag, of "u + 2"] by (simp add: u_def)
  show "m' (p + 24) = (if in_range v r then 0 else 1)"
    using ap m'_out [of "p + 24"] by (auto simp: apart_def m2_def wr_bytes_def)
  show "ld16 m' (used_idx_addr (?b + 4096)) = ld16 m (used_idx_addr (?b + 4096)) + 1"
    unfolding u_def [symmetric] used_idx_addr_def using ui by (simp add: m3)
  show "ld32 m' (used_ring_addr (?b + 4096) (unat (ld16 m (used_idx_addr (?b + 4096))) mod 8)) = ucast (r_head r)"
    unfolding u_def [symmetric] used_idx_addr_def used_ring_addr_def ui [symmetric] j_def [symmetric]
    by (simp add: m3 mem_simps)
  show "agree m' m ?b 4096"
    using ap by (intro agreeI) (auto simp: m'_out m2_out apart_def)
  show "m' x = m x" if "x < ?b + 4096 \<or> ?b + 4168 \<le> x" "x \<noteq> p + 24" "x < r_buf r \<or> r_buf r + r_len r \<le> x"
    using m'_out [OF that(1)] m2_out [OF that(2,3)] by simp
  have buf: "m' x = m1 x" if "r_buf r \<le> x" "x < r_buf r + r_len r" for x
  proof -
    have "m' x = m2 x" using that ap by (intro m'_out) (auto simp: apart_def)
    moreover have "x < p + 24 \<or> p + 24 + 1 \<le> x" using that ap by (auto simp: apart_def)
    ultimately show ?thesis by (simp add: m2_def wr_bytes_out)
  qed
  show "rd_bytes m' (r_buf r) (r_len r) = ?data" if "in_range v r" "r_typ r = 0"
  proof -
    have "length ?data = r_len r" using that(1) by (simp add: in_range_def)
    then have "rd_bytes m1 (r_buf r) (r_len r) = ?data" using that by (simp add: m1_def rd_wr_same)
    moreover have "rd_bytes m' (r_buf r) (r_len r) = rd_bytes m1 (r_buf r) (r_len r)"
      by (rule rd_bytes_cong) (rule buf)
    ultimately show ?thesis by simp
  qed
  show "rd_bytes m' (r_buf r) (r_len r) = rd_bytes m (r_buf r) (r_len r)" if "\<not> (r_typ r = 0 \<and> in_range v r)"
    using that by (intro rd_bytes_cong) (auto simp: buf m1_def)
qed

section \<open>Polling\<close>

text \<open>A queue whose one request, with head 0, is in flight.\<close>

definition in_flight :: "nat \<Rightarrow> BlockDevice \<Rightarrow> bool" where
  "in_flight b bd \<longleftrightarrow>
     desc (queue bd) = b \<and> avail (queue bd) = b + 128 \<and> used (queue bd) = b + 4096 \<and>
     free (queue bd) = [False, False, False, True, True, True, True, True]"

lemma pending_idle: "ack_used_idx bd = ld16 m (used_idx_addr (used (queue bd))) \<Longrightarrow> pending m bd = Inr bd"
  by (subst pending.simps) simp

text \<open>The three descriptors of the request, from descriptor 0 on.\<close>

definition chained :: "memory \<Rightarrow> nat \<Rightarrow> bool \<Rightarrow> bool" where
  "chained m b write \<longleftrightarrow>
     d_flags (read_desc m b) = 1 \<and> d_next (read_desc m b) = 1 \<and>
     d_flags (read_desc m (b + 16)) = (if write then 1 else 3) \<and> d_next (read_desc m (b + 16)) = 2 \<and>
     d_flags (read_desc m (b + 32)) = 2"

lemma read_desc_agree:
  assumes "agree m m' a n" "a \<le> b" "b + 16 \<le> a + n"
  shows "read_desc m b = read_desc m' b"
  using agree_ld(3) [OF assms(1), of b] agree_ld(2) [OF assms(1), of "b + 8"]
    agree_ld(1) [OF assms(1), of "b + 12"] agree_ld(1) [OF assms(1), of "b + 14"] assms(2,3)
  by (simp add: read_desc_def)

lemma chained_agree: "agree m m' b 4096 \<Longrightarrow> chained m b write = chained m' b write"
  using read_desc_agree [of m m' b 4096 b] read_desc_agree [of m m' b 4096 "b + 16"]
    read_desc_agree [of m m' b 4096 "b + 32"]
  by (simp add: chained_def)

lemma free_published_chain:
  assumes "desc q = b" "length (free q) = 8" "chained m b write"
  shows "free_desc_chain m q 0 = Inr (q\<lparr>free := (free q)[0 := True, 1 := True, 2 := True]\<rparr>)"
proof -
  have "free_chain m (Suc (Suc (Suc n))) 0 q = Inr (q\<lparr>free := (free q)[0 := True, 1 := True, 2 := True]\<rparr>)"
    for n using assms by (simp add: chained_def Let_def VIRTIO_DESC_F_NEXT_def sizeof_Descriptor_def)
  moreover have "VIRTIO_RING_SIZE = Suc (Suc (Suc 5))" by (simp add: VIRTIO_RING_SIZE_def)
  ultimately show ?thesis by (metis free_desc_chain_def)
qed

definition served_dev :: "BlockDevice \<Rightarrow> BlockDevice" where
  "served_dev bd = bd\<lparr>ack_used_idx := ack_used_idx bd + 1,
     queue := (queue bd)\<lparr>req_head := (req_head (queue bd))[0 := 0], free := replicate 8 True\<rparr>\<rparr>"

lemma pending_served:
  assumes fl: "in_flight b bd" and id: "ld32 m (used_ring_addr (b + 4096) (unat (ack_used_idx bd) mod 8)) = 0"
    and idx: "ld16 m (used_idx_addr (b + 4096)) = ack_used_idx bd + 1" and ch: "chained m b write"
  shows "pending m bd = Inr (served_dev bd)"
proof -
  let ?q = "(queue bd)\<lparr>req_head := (req_head (queue bd))[0 := 0]\<rparr>"
  have q: "desc ?q = b" "length (free ?q) = 8" using fl by (simp_all add: in_flight_def)
  have rep: "replicate 8 True = [True, True, True, True, True, True, True, True]"
    by (simp add: numeral_eq_Suc)
  have fr: "free_desc_chain m ?q 0 = Inr (?q\<lparr>free := replicate 8 True\<rparr>)"
    using free_published_chain [OF q ch] fl by (simp add: in_flight_def rep)
  have neq: "ack_used_idx bd \<noteq> ack_used_idx bd + 1" by simp
  have "pending m bd = pending m (served_dev bd)"
    using fl id idx fr neq
    by (subst pending.simps) (simp add: in_flight_def Let_def VIRTIO_RING_SIZE_def served_dev_def)
  also have "\<dots> = Inr (served_dev bd)"
    using fl idx by (intro pending_idle) (simp add: served_dev_def in_flight_def)
  finally show ?thesis .
qed

section \<open>The wait\<close>

lemma blk_deviceD:
  assumes "blk_device B a view rank N"
  shows "rank d < N" "view (snd (wr32 B (a + 0x50) 0 d)) = view d"
    "view d = Some v \<Longrightarrow> dev_request m v = Some r \<Longrightarrow> whole_sectors (r_len r) \<Longrightarrow>
       (\<exists>d'. dma B m d = (m, d') \<and> view d' = Some v \<and> rank d' < rank d) \<or>
       (\<exists>d' w. dma B m d = (serve_mem m v r w, d') \<and> view d' = Some (serve_view m v r))"
  using assms unfolding blk_device_def by blast+

lemma set_dev_self: "BLOCK_DEVICES s ! i = bd \<Longrightarrow> set_dev i bd s = s"
  by (auto simp: set_dev_def)

lemma spin_serves:
  assumes dv: "blk_device B a view rank N" and bd: "BLOCK_DEVICES s ! i = bd" "in_flight b bd"
    and v: "view (hw s) = Some v" "vq v = b" and r: "dev_request (mem s) v = Some r" "r_head r = 0" "r_status r = p + 24"
    and ws: "whole_sectors (r_len r)" and ap: "apart b p (r_buf r) (r_len r)" and st: "mem s (p + 24) = STATUS_PENDING"
    and ack: "ack_used_idx bd = ld16 (mem s) (used_idx_addr (b + 4096))" and ch: "chained (mem s) b write"
    and fuel: "rank (hw s) < fuel"
  shows "\<exists>d w. spin B fuel i p s =
           Inr (set_dev i (served_dev bd) (s\<lparr>mem := serve_mem (mem s) v r w, hw := d\<rparr>)) \<and>
           view d = Some (serve_view (mem s) v r)"
  using v(1) bd(1) r(1) st ack ch fuel
proof (induction fuel arbitrary: s)
  case 0
  then show ?case by simp
next
  case (Suc n)
  from blk_deviceD(3) [OF dv Suc.prems(1,3) ws] show ?case
  proof (elim disjE exE conjE)
    fix d assume d: "dma B (mem s) (hw s) = (mem s, d)" "view d = Some v" "rank d < rank (hw s)"
    let ?s = "s\<lparr>hw := d\<rparr>"
    have "pending (mem s) bd = Inr bd"
      using Suc.prems(5) bd(2) by (intro pending_idle) (simp add: in_flight_def)
    then have "spin B (Suc n) i p s = spin B n i p ?s"
      using d(1) Suc.prems(2,4) set_dev_self [of "s\<lparr>mem := mem s, hw := d\<rparr>" i bd]
      by (simp add: req_status_addr_def Let_def)
    moreover have "\<exists>d' w. spin B n i p ?s =
           Inr (set_dev i (served_dev bd) (?s\<lparr>mem := serve_mem (mem ?s) v r w, hw := d'\<rparr>)) \<and>
           view d' = Some (serve_view (mem ?s) v r)"
      by (rule Suc.IH) (use d Suc.prems in auto)
    ultimately show ?thesis by simp
  next
    fix d w assume d: "dma B (mem s) (hw s) = (serve_mem (mem s) v r w, d)" "view d = Some (serve_view (mem s) v r)"
    note sm = serve_mem_reads [of v p r _ "mem s" w, OF ap [folded v(2)] r(3) refl]
    have "pending (serve_mem (mem s) v r w) bd = Inr (served_dev bd)"
    proof (rule pending_served [OF bd(2)])
      show "ld32 (serve_mem (mem s) v r w) (used_ring_addr (b + 4096) (unat (ack_used_idx bd) mod 8)) = 0"
        using sm(3) Suc.prems(5) r(2) v(2) by simp
      show "ld16 (serve_mem (mem s) v r w) (used_idx_addr (b + 4096)) = ack_used_idx bd + 1"
        using sm(2) Suc.prems(5) v(2) by simp
      show "chained (serve_mem (mem s) v r w) b write"
        using chained_agree [OF sm(5) [unfolded v(2)]] Suc.prems(6) by simp
    qed
    then have "spin B (Suc n) i p s =
        Inr (set_dev i (served_dev bd) (s\<lparr>mem := serve_mem (mem s) v r w, hw := d\<rparr>))"
      using d(1) Suc.prems(2) sm(1)
      by (simp add: Let_def req_status_addr_def set_dev_def STATUS_PENDING_def)
    with d(2) show ?thesis by blast
  qed
qed

section \<open>The invariant of an idle queue\<close>

definition queue_at :: "('d, 'z) vio_state_scheme \<Rightarrow> nat \<Rightarrow> nat" where
  "queue_at s i = desc (queue (BLOCK_DEVICES s ! i))"

definition idle_dev :: "memory \<Rightarrow> nat \<Rightarrow> BlockDevice \<Rightarrow> bool" where
  "idle_dev m b bd \<longleftrightarrow>
     dev bd \<noteq> 0 \<and> desc (queue bd) = b \<and> avail (queue bd) = b + 128 \<and> used (queue bd) = b + 4096 \<and>
     free (queue bd) = replicate 8 True \<and> length (req_head (queue bd)) = 8 \<and>
     ack_used_idx bd = ld16 m (used_idx_addr (b + 4096))"

definition synced :: "memory \<Rightarrow> nat \<Rightarrow> dview \<Rightarrow> bool" where
  "synced m b v \<longleftrightarrow> vq v = b \<and> vseen v = ld16 m (avail_idx_addr (b + 128))"

definition drv_ok :: "linker \<Rightarrow> nat \<Rightarrow> ('d \<Rightarrow> dview option) \<Rightarrow> ('d, 'z) vio_state_scheme \<Rightarrow> bool" where
  "drv_ok L i view s \<longleftrightarrow>
     frames_inv L s \<and> i < 8 \<and> length (BLOCK_DEVICES s) = 8 \<and> (queue_at s i, 2) \<in> held L s \<and>
     idle_dev (mem s) (queue_at s i) (BLOCK_DEVICES s ! i) \<and>
     (\<exists>v. view (hw s) = Some v \<and> synced (mem s) (queue_at s i) v)"

definition disk_of :: "('d \<Rightarrow> dview option) \<Rightarrow> ('d, 'z) vio_state_scheme \<Rightarrow> u8 list" where
  "disk_of view s = (case view (hw s) of Some v \<Rightarrow> vdisk v | None \<Rightarrow> [])"

text \<open>A buffer inside a run in use that is not the queue's.\<close>

definition buffer_in :: "linker \<Rightarrow> nat \<Rightarrow> 'z kmem_scheme \<Rightarrow> nat \<Rightarrow> nat \<Rightarrow> bool" where
  "buffer_in L b s buf n \<longleftrightarrow>
     (\<exists>c k. (c, k) \<in> held L s \<and> (c, k) \<noteq> (b, 2) \<and> c \<le> buf \<and> buf + n \<le> c + k * PAGE_SIZE)"

lemma alloc_all_free:
  assumes "free q = replicate 8 True"
  shows "alloc_desc_chain q = (Some [0, 1, 2], q\<lparr>free := [False, False, False, True, True, True, True, True]\<rparr>)"
proof -
  have "[0..<VIRTIO_RING_SIZE] = 0 # 1 # 2 # [3..<8]"
    by (simp add: VIRTIO_RING_SIZE_def upt_rec)
  moreover have "replicate 8 True = [True, True, True, True, True, True, True, True]"
    by (simp add: numeral_eq_Suc)
  ultimately show ?thesis by (simp add: alloc_desc_chain_def assms)
qed

text \<open>From the request's page to the answer: the middle part of \<open>block_op\<close>.\<close>

definition submit where
  "submit B i buf sz off write req bd s =
     (let s2 = s\<lparr>mem := write_request req (if write then VIRTIO_BLK_T_OUT else VIRTIO_BLK_T_IN)
                          (off div 512) buf (mem s)\<rparr>;
          q1 = (queue bd)\<lparr>free := [False, False, False, True, True, True, True, True]\<rparr>;
          s3 = s2\<lparr>mem := publish q1 req 0 1 2 buf sz write (mem s2)\<rparr>;
          s4 = set_dev i (bd\<lparr>queue := q1\<lparr>req_head := (req_head q1)[0 := req]\<rparr>\<rparr>) s3
      in write_volatile32 B (dev bd + 4 * scale32 QueueNotify) 0 s4)"

lemma block_op_submit:
  assumes "i < 8" "dev (BLOCK_DEVICES s ! i) \<noteq> 0" "\<not> (read_only (BLOCK_DEVICES s ! i) \<and> write)"
    and "allocate L 1 s = Inr (Some p, s1)" "free (queue (BLOCK_DEVICES s ! i)) = replicate 8 True"
  shows "block_op L B fuel i buf sz off write s =
     bind_res (spin B fuel i p (submit B i buf sz off write p (BLOCK_DEVICES s ! i) s1)) (\<lambda>s6.
     bind_res (free_request L p s6) (\<lambda>s7. Inr (mem s6 (req_status_addr p) = 0, s7)))"
  using assms alloc_all_free [OF assms(5)]
  by (auto simp add: block_op_def Let_def alloc_request_def MAX_VIRTIO_DEVICES_def submit_def)

lemma write_volatile32_frame:
  "mem (write_volatile32 B a x s) = mem s" "ALLOC_START (write_volatile32 B a x s) = ALLOC_START s"
  "BLOCK_DEVICES (write_volatile32 B a x s) = BLOCK_DEVICES s"
  "hw (write_volatile32 B a x s) = snd (wr32 B a x (hw s))"
  "slots (write_volatile32 B a x s) = slots s" "current (write_volatile32 B a x s) = current s"
  "NEXT_PID (write_volatile32 B a x s) = NEXT_PID s"
  "VIRTIO_DEVICES (write_volatile32 B a x s) = VIRTIO_DEVICES s"
  "vio_state.more (write_volatile32 B a x s) = vio_state.more s"
  by (simp_all add: write_volatile32_def access_fault_trap_def split: prod.split)

definition request_of :: "nat \<Rightarrow> nat \<Rightarrow> u32 \<Rightarrow> u64 \<Rightarrow> bool \<Rightarrow> blk_req" where
  "request_of p buf sz off write =
     \<lparr>r_head = 0, r_typ = (if write then 1 else 0), r_sector = unat off div 512, r_buf = buf,
      r_len = unat sz, r_status = p + 24\<rparr>"

lemma unat_div512: "unat (off div 512 :: u64) = unat off div 512"
  by (simp add: unat_div_distrib)

lemma submit_spin:
  assumes dv: "blk_device B (dev bd) view rank N" "N \<le> fuel" and ws: "whole_sectors (unat sz)"
    and bd: "BLOCK_DEVICES s ! i = bd" "i < length (BLOCK_DEVICES s)" "idle_dev (mem s) b bd"
    and v: "view (hw s) = Some v" "synced (mem s) b v" and ap: "apart b p buf (unat sz)"
    and s5: "s5 = submit B i buf sz off write p bd s" and r: "r = request_of p buf sz off write"
  shows "\<exists>d w bd'. spin B fuel i p s5 = Inr (set_dev i bd' (s5\<lparr>mem := serve_mem (mem s5) v r w, hw := d\<rparr>)) \<and>
           view d = Some (serve_view (mem s5) v r) \<and>
           bd' = bd\<lparr>ack_used_idx := ack_used_idx bd + 1, queue := queue bd'\<rparr> \<and>
           queue bd' = (queue bd)\<lparr>req_head := (req_head (queue bd))[0 := 0]\<rparr>"
    "dev_request (mem s5) v = Some r"
    "\<And>x. x < b \<or> b + 148 \<le> x \<Longrightarrow> x < p \<or> p + 25 \<le> x \<Longrightarrow> mem s5 x = mem s x"
    "ld16 (mem s5) (avail_idx_addr (b + 128)) = vseen v + 1"
proof -
  let ?q1 = "(queue bd)\<lparr>free := [False, False, False, True, True, True, True, True]\<rparr>"
  let ?bd = "bd\<lparr>queue := ?q1\<lparr>req_head := (req_head ?q1)[0 := p]\<rparr>\<rparr>"
  let ?ty = "if write then 1 else 0 :: u32"
  let ?m1 = "write_request p ?ty (off div 512) buf (mem s)"
  have q1: "desc ?q1 = b" "avail ?q1 = b + 128" using bd(3) by (simp_all add: idle_dev_def)
  have m5: "mem s5 = publish ?q1 p 0 1 2 buf sz write ?m1"
    by (simp add: s5 submit_def Let_def write_volatile32_frame set_dev_def VIRTIO_BLK_T_IN_def VIRTIO_BLK_T_OUT_def)
  have v': "vq v = b" "vseen v = ld16 (mem s) (avail_idx_addr (b + 128))" using v(2) by (simp_all add: synced_def)
  note sr = submitted_request [OF q1 ap three_012 v' m5 refl]
  show req: "dev_request (mem s5) v = Some r" using sr(1) by (simp add: r request_of_def unat_div512)
  show out: "mem s5 x = mem s x" if "x < b \<or> b + 148 \<le> x" "x < p \<or> p + 25 \<le> x" for x
    using sr(3) that by simp
  have agb: "agree ?m1 (mem s) b 8192"
    using ap by (intro agreeI write_request_reads) (auto simp: apart_def)
  note pr = publish_reads [OF q1 three_012 m5, simplified]
  show "ld16 (mem s5) (avail_idx_addr (b + 128)) = vseen v + 1"
    using pr(4) agree_ld(1) [OF agb] v'(2) by (simp add: avail_idx_addr_def)
  have agu: "agree (mem s5) (mem s) (b + 4096) 4096"
    using ap by (intro agreeI out) (auto simp: apart_def)
  have ack: "ack_used_idx ?bd = ld16 (mem s5) (used_idx_addr (b + 4096))"
    using agree_ld(1) [OF agu] bd(3) by (simp add: idle_dev_def used_idx_addr_def)
  have dev5: "BLOCK_DEVICES s5 ! i = ?bd" "view (hw s5) = Some v"
    using bd(1,2) v(1) blk_deviceD(2) [OF dv(1)]
    by (simp_all add: s5 submit_def Let_def write_volatile32_frame set_dev_def scale32_def scaled_def)
  have fl: "in_flight b ?bd" using bd(3) by (simp add: in_flight_def idle_dev_def)
  have ch: "chained (mem s5) b write" using pr(1-3) by (simp add: chained_def)
  have fuel: "rank (hw s5) < fuel" using blk_deviceD(1) [OF dv(1), of "hw s5"] dv(2) by simp
  have rr: "r_head r = 0" "r_status r = p + 24" "whole_sectors (r_len r)" "apart b p (r_buf r) (r_len r)"
    using ap ws by (simp_all add: r request_of_def)
  from spin_serves [OF dv(1) dev5(1) fl dev5(2) v'(1) req rr sr(2) ack ch fuel]
  obtain d w where sp: "spin B fuel i p s5 =
       Inr (set_dev i (served_dev ?bd) (s5\<lparr>mem := serve_mem (mem s5) v r w, hw := d\<rparr>))"
     "view d = Some (serve_view (mem s5) v r)" by blast
  have "served_dev ?bd = bd\<lparr>ack_used_idx := ack_used_idx bd + 1, queue := queue (served_dev ?bd)\<rparr>"
    "queue (served_dev ?bd) = (queue bd)\<lparr>req_head := (req_head (queue bd))[0 := 0]\<rparr>"
    using bd(3) by (simp_all add: served_dev_def idle_dev_def)
  with sp show "\<exists>d w bd'. spin B fuel i p s5 = Inr (set_dev i bd' (s5\<lparr>mem := serve_mem (mem s5) v r w, hw := d\<rparr>)) \<and>
           view d = Some (serve_view (mem s5) v r) \<and>
           bd' = bd\<lparr>ack_used_idx := ack_used_idx bd + 1, queue := queue bd'\<rparr> \<and>
           queue bd' = (queue bd)\<lparr>req_head := (req_head (queue bd))[0 := 0]\<rparr>" by blast
qed

section \<open>The contract of a block operation\<close>

lemma set_descriptors_vio:
  "BLOCK_DEVICES (set_descriptors L ds s) = BLOCK_DEVICES s" "hw (set_descriptors L ds s) = hw s"
  "slots (set_descriptors L ds s) = slots s" "current (set_descriptors L ds s) = current s"
  "NEXT_PID (set_descriptors L ds s) = NEXT_PID s"
  "VIRTIO_DEVICES (set_descriptors L ds s) = VIRTIO_DEVICES s"
  "vio_state.more (set_descriptors L ds s) = vio_state.more s"
  by (simp_all add: set_descriptors_def)

text \<open>A page taken and given back, with the page table untouched in between.\<close>

lemma page_back:
  assumes inv: "frames_inv L s" and w: "window_free (descriptors L s) j 1"
    and low: "ALLOC_START s + j * PAGE_SIZE < heap_end L"
    and s1: "s1 = set_descriptors L (mark_run (descriptors L s) j 1) s"
    and s6: "ALLOC_START s6 = ALLOC_START s" "descriptors L s6 = descriptors L s1"
  shows "deallocate L (ALLOC_START s + j * PAGE_SIZE) s6 = Inr (set_descriptors L (descriptors L s) s6)"
    "frames_inv L s6"
proof -
  have wf: "table_wf (descriptors L s)" using inv by (simp add: frames_inv_def)
  have "j + 1 \<le> npages L" using w by (simp add: window_free_def)
  then have len: "length (mark_run (descriptors L s) j 1) = npages L" by simp
  have ds: "descriptors L s6 = mark_run (descriptors L s) j 1" by (simp only: s6(2) s1 descriptors_set_descriptors [OF len])
  have run: "run_at (descriptors L s6) j 1" unfolding ds by (rule run_at_mark_run_new [OF wf w]) simp
  have wf6: "table_wf (descriptors L s6)" unfolding ds by (rule table_wf_mark_run [OF wf w zero_less_one])
  show inv6: "frames_inv L s6" using inv wf6 s6(1) by (simp add: frames_inv_def)
  have "clear_run (mark_run (descriptors L s) j 1) j 1 = descriptors L s" by (rule clear_mark_run [OF wf w]) simp
  with deallocate_held_eq [OF inv6 run] low show "deallocate L (ALLOC_START s + j * PAGE_SIZE) s6 =
      Inr (set_descriptors L (descriptors L s) s6)" by (simp only: s6(1) ds)
qed

lemma held_apart:
  assumes inv: "frames_inv L s" and al: "allocate L 1 s = Inr (Some p, s1)"
    and b: "(b, 2) \<in> held L s" and buf: "buffer_in L b s buf n"
  shows "apart b p buf n"
proof -
  obtain c k where c: "(c, k) \<in> held L s" "(c, k) \<noteq> (b, 2)" "c \<le> buf" "buf + n \<le> c + k * PAGE_SIZE"
    using buf by (auto simp: buffer_in_def)
  have "b + 2 * PAGE_SIZE \<le> c \<or> c + k * PAGE_SIZE \<le> b" using held_disjoint [OF b c(1)] c(2) by auto
  moreover note held_fresh_disjoint [OF inv al b] held_fresh_disjoint [OF inv al c(1)]
    held_bounds(4) [OF inv c(1)]
    held_bounds(4) [OF allocate_Some(1) [OF inv al], of p 1] allocate_Some(2,5) [OF inv al]
  ultimately show ?thesis using c(3,4) inv by (auto simp: apart_def frames_inv_def PAGE_SIZE_def)
qed

definition io_frame :: "linker \<Rightarrow> nat \<Rightarrow> nat \<Rightarrow> nat \<Rightarrow> ('d, 'z) vio_state_scheme \<Rightarrow> ('d, 'z) vio_state_scheme \<Rightarrow> bool" where
  "io_frame L i buf n s s' \<longleftrightarrow>
     descriptors L s' = descriptors L s \<and> ALLOC_START s' = ALLOC_START s \<and>
     queue_at s' i = queue_at s i \<and> dev (BLOCK_DEVICES s' ! i) = dev (BLOCK_DEVICES s ! i) \<and>
     read_only (BLOCK_DEVICES s' ! i) = read_only (BLOCK_DEVICES s ! i) \<and>
     (\<forall>j. j \<noteq> i \<longrightarrow> BLOCK_DEVICES s' ! j = BLOCK_DEVICES s ! j) \<and>
     slots s' = slots s \<and> current s' = current s \<and> NEXT_PID s' = NEXT_PID s \<and>
     VIRTIO_DEVICES s' = VIRTIO_DEVICES s \<and> vio_state.more s' = vio_state.more s \<and>
     (\<forall>c k x. (c, k) \<in> held L s \<longrightarrow> (c, k) \<noteq> (queue_at s i, 2) \<longrightarrow> c \<le> x \<longrightarrow> x < c + k * PAGE_SIZE \<longrightarrow>
        x < buf \<or> buf + n \<le> x \<longrightarrow> mem s' x = mem s x) \<and>
     (\<forall>x < ALLOC_START s. x \<notin> desc_region L \<longrightarrow> mem s' x = mem s x)"

definition overwrite :: "u8 list \<Rightarrow> nat \<Rightarrow> u8 list \<Rightarrow> u8 list" where
  "overwrite disk a data = take a disk @ data @ drop (a + length data) disk"

lemma submit_frame:
  "ALLOC_START (submit B i buf sz off write p bd s) = ALLOC_START s"
  "slots (submit B i buf sz off write p bd s) = slots s"
  "current (submit B i buf sz off write p bd s) = current s"
  "NEXT_PID (submit B i buf sz off write p bd s) = NEXT_PID s"
  "VIRTIO_DEVICES (submit B i buf sz off write p bd s) = VIRTIO_DEVICES s"
  "vio_state.more (submit B i buf sz off write p bd s) = vio_state.more s"
  "length (BLOCK_DEVICES (submit B i buf sz off write p bd s)) = length (BLOCK_DEVICES s)"
  "k \<noteq> i \<Longrightarrow> BLOCK_DEVICES (submit B i buf sz off write p bd s) ! k = BLOCK_DEVICES s ! k"
  by (simp_all add: submit_def Let_def write_volatile32_frame set_dev_def)

text \<open>What one operation does to the memory, the device and the driver, in one step.\<close>

definition served :: "linker \<Rightarrow> ('d \<Rightarrow> dview option) \<Rightarrow> nat \<Rightarrow> nat \<Rightarrow> nat \<Rightarrow> blk_req \<Rightarrow> dview \<Rightarrow>
    memory \<Rightarrow> memory \<Rightarrow> ('d, 'z) vio_state_scheme \<Rightarrow> ('d, 'z) vio_state_scheme \<Rightarrow> bool" where
  "served L view i b p r v m5 m6 s s' \<longleftrightarrow>
     (\<exists>w. m6 = serve_mem m5 v r w) \<and> view (hw s') = Some (serve_view m5 v r) \<and>
     (\<forall>x. x \<notin> desc_region L \<longrightarrow> mem s' x = m6 x) \<and>
     (\<forall>x. x \<notin> desc_region L \<longrightarrow> x < b \<or> b + 148 \<le> x \<longrightarrow> x < p \<or> p + 25 \<le> x \<longrightarrow> m5 x = mem s x) \<and>
     ld16 m5 (avail_idx_addr (b + 128)) = vseen v + 1 \<and>
     descriptors L s' = descriptors L s \<and> ALLOC_START s' = ALLOC_START s \<and>
     length (BLOCK_DEVICES s') = length (BLOCK_DEVICES s) \<and>
     BLOCK_DEVICES s' ! i = (BLOCK_DEVICES s ! i)\<lparr>ack_used_idx := ack_used_idx (BLOCK_DEVICES s ! i) + 1,
        queue := (queue (BLOCK_DEVICES s ! i))\<lparr>req_head := (req_head (queue (BLOCK_DEVICES s ! i)))[0 := 0]\<rparr>\<rparr> \<and>
     (\<forall>j. j \<noteq> i \<longrightarrow> BLOCK_DEVICES s' ! j = BLOCK_DEVICES s ! j) \<and>
     slots s' = slots s \<and> current s' = current s \<and> NEXT_PID s' = NEXT_PID s \<and>
     VIRTIO_DEVICES s' = VIRTIO_DEVICES s \<and> vio_state.more s' = vio_state.more s"

lemma block_op_served:
  assumes dv: "blk_device B (dev (BLOCK_DEVICES s ! i)) view rank N" "N \<le> fuel"
    and ws: "whole_sectors (unat sz)" and ok: "drv_ok L i view s" and b: "b = queue_at s i" and buf: "buffer_in L b s buf (unat sz)"
    and low: "0 < low_free L s" and ro: "write \<longrightarrow> \<not> read_only (BLOCK_DEVICES s ! i)"
    and v: "view (hw s) = Some v"
  obtains p m5 m6 s' where "block_op L B fuel i buf sz off write s =
        Inr (in_range v (request_of p buf sz off write), s')"
    "apart b p buf (unat sz)" "\<exists>s1. allocate L 1 s = Inr (Some p, s1)"
    "served L view i b p (request_of p buf sz off write) v m5 m6 s s'"
proof -
  let ?bd = "BLOCK_DEVICES s ! i"
  have inv: "frames_inv L s" and i: "i < 8" "length (BLOCK_DEVICES s) = 8" and hb: "(b, 2) \<in> held L s"
    and idle: "idle_dev (mem s) b ?bd" and sy: "synced (mem s) b v"
    using ok v unfolding drv_ok_def b by auto
  obtain j where j: "allocate L 1 s = Inr (Some (ALLOC_START s + j * PAGE_SIZE),
        set_descriptors L (mark_run (descriptors L s) j 1) s)"
    "window_free (descriptors L s) j 1" "ALLOC_START s + j * PAGE_SIZE < heap_end L"
    using low_page [OF inv low] by blast
  define p where "p = ALLOC_START s + j * PAGE_SIZE"
  define s1 where "s1 = set_descriptors L (mark_run (descriptors L s) j 1) s"
  define r where "r = request_of p buf sz off write"
  define s5 where "s5 = submit B i buf sz off write p ?bd s1"
  have al: "allocate L 1 s = Inr (Some p, s1)" using j(1) by (simp add: p_def s1_def)
  note as = allocate_Some [OF inv al]
  have ap: "apart b p buf (unat sz)" by (rule held_apart [OF inv al hb buf])
  have ag: "agree (mem s1) (mem s) b 8192"
    using held_off_table [OF inv hb] by (intro agreeI as(7)) (auto simp: PAGE_SIZE_def)
  have s1: "BLOCK_DEVICES s1 = BLOCK_DEVICES s" "hw s1 = hw s" by (simp_all add: s1_def set_descriptors_vio)
  have idle1: "idle_dev (mem s1) b ?bd" "synced (mem s1) b v"
    using idle sy agree_ld(1) [OF ag, of "b + 4096 + 2"] agree_ld(1) [OF ag, of "b + 128 + 2"]
    by (simp_all add: idle_dev_def synced_def used_idx_addr_def avail_idx_addr_def)
  have bd1: "BLOCK_DEVICES s1 ! i = ?bd" "i < length (BLOCK_DEVICES s1)" "view (hw s1) = Some v"
    using i s1 v by simp_all
  note ss = submit_spin [OF dv(1) dv(2) ws bd1(1,2) idle1(1) bd1(3) idle1(2) ap s5_def r_def]
  obtain d w bd' where sp: "spin B fuel i p s5 = Inr (set_dev i bd' (s5\<lparr>mem := serve_mem (mem s5) v r w, hw := d\<rparr>))"
      "view d = Some (serve_view (mem s5) v r)" and
      bd': "bd' = ?bd\<lparr>ack_used_idx := ack_used_idx ?bd + 1, queue := (queue ?bd)\<lparr>req_head := (req_head (queue ?bd))[0 := 0]\<rparr>\<rparr>"
    using ss(1) by metis
  define s6 where "s6 = set_dev i bd' (s5\<lparr>mem := serve_mem (mem s5) v r w, hw := d\<rparr>)"
  have m6: "mem s6 = serve_mem (mem s5) v r w" by (simp add: s6_def set_dev_def)
  have vr: "vq v = b" "r_buf r = buf" "r_len r = unat sz" "r_status r = p + 24"
    using sy by (simp_all add: synced_def r_def request_of_def)
  have apr: "apart (vq v) p (r_buf r) (r_len r)" using ap by (simp add: vr)
  note sm = serve_mem_reads [OF apr vr(4) m6]
  have "mem s6 x = mem s1 x" if x: "x \<in> desc_region L" for x
  proof -
    obtain c k where c: "(c, k) \<in> held L s" "c \<le> buf" "buf + unat sz \<le> c + k * PAGE_SIZE"
      using buf by (auto simp: buffer_in_def)
    have "(p, 1) \<in> held L s1" using as(2) by simp
    from held_table_cases [OF as(1) this x] held_table_cases [OF inv hb x] held_table_cases [OF inv c(1) x] c
    show ?thesis using sm(6) [of x] ss(3) [of x] unfolding vr by (auto simp: PAGE_SIZE_def PAGE_ORDER_def)
  qed
  then have ds6: "descriptors L s6 = descriptors L s1" by (rule descriptors_frame)
  have as6: "ALLOC_START s6 = ALLOC_START s"
    by (simp add: s6_def set_dev_def s5_def submit_frame s1_def)
  have fr: "deallocate L p s6 = Inr (set_descriptors L (descriptors L s) s6)"
    unfolding p_def by (rule page_back(1) [OF inv j(2,3) s1_def as6 ds6])
  have p0: "p \<noteq> 0" using inv by (simp add: p_def frames_inv_def)
  have ro': "\<not> (read_only ?bd \<and> write)" using ro by blast
  have run: "block_op L B fuel i buf sz off write s = Inr (in_range v r, set_descriptors L (descriptors L s) s6)"
    using block_op_submit [OF i(1) _ ro' al, of B fuel buf sz off] idle sp(1) fr p0 sm(1) unfolding s5_def [symmetric] s6_def [symmetric]
    by (auto simp add: idle_dev_def free_request_def req_status_addr_def)
  have len: "length (descriptors L s) = npages L" by simp
  have out7: "x \<notin> desc_region L \<Longrightarrow> mem (set_descriptors L (descriptors L s) s6) x = mem s6 x" for x
    by (rule mem_set_descriptors_out [OF len])
  have "served L view i b p r v (mem s5) (mem s6) s (set_descriptors L (descriptors L s) s6)"
    unfolding served_def
    using out7 m6 sp(2) ss(3,4) as(7) bd' i as6
    by (auto simp: set_descriptors_vio s6_def set_dev_def s5_def submit_frame s1_def)
  then show thesis using that [OF run [unfolded r_def] ap] al by (simp add: r_def)
qed

lemma fresh_page_apart:
  assumes "frames_inv L s" "allocate L 1 s = Inr (Some p, s1)"
  shows "ALLOC_START s \<le> p" "(c, k) \<in> held L s \<Longrightarrow> p + 4096 \<le> c \<or> c + k * PAGE_SIZE \<le> p"
  using held_fresh_disjoint [OF assms, of c k] held_bounds(3) [OF allocate_Some(1) [OF assms], of p 1]
    allocate_Some(2,5) [OF assms] by auto

text \<open>The addresses an operation works on, and what \<open>served\<close> says of them.\<close>

definition op_places :: "linker \<Rightarrow> 'z kmem_scheme \<Rightarrow> nat \<Rightarrow> nat \<Rightarrow> nat \<Rightarrow> blk_req \<Rightarrow> dview \<Rightarrow> bool" where
  "op_places L s b p buf r v \<longleftrightarrow>
     frames_inv L s \<and> (b, 2) \<in> held L s \<and> (\<exists>s1. allocate L 1 s = Inr (Some p, s1)) \<and>
     buffer_in L b s buf (r_len r) \<and> r_buf r = buf \<and> r_status r = p + 24 \<and> vq v = b"

lemma op_places_apart: "op_places L s b p buf r v \<Longrightarrow> apart (vq v) p (r_buf r) (r_len r)"
  using held_apart unfolding op_places_def by blast

lemma served_memory:
  assumes pl: "op_places L s b p buf r v" and sv: "served L view i b p r v m5 m6 s s'"
  shows "agree (mem s') m6 b 8192" "agree m5 (mem s) (b + 4096) 4096"
    "rd_bytes m5 buf (r_len r) = rd_bytes (mem s) buf (r_len r)"
    "rd_bytes (mem s') buf (r_len r) = rd_bytes m6 buf (r_len r)"
proof -
  note pl' = pl [unfolded op_places_def]
  have inv: "frames_inv L s" and hb: "(b, 2) \<in> held L s" and vr: "r_buf r = buf" "vq v = b" using pl' by auto
  have ap: "apart b p buf (r_len r)" using op_places_apart [OF pl] by (simp add: vr)
  obtain c k where c: "(c, k) \<in> held L s" "c \<le> buf" "buf + r_len r \<le> c + k * PAGE_SIZE"
    using pl' by (auto simp: buffer_in_def)
  have off_b: "x \<notin> desc_region L" if "b \<le> x" "x < b + 8192" for x
    using held_table_cases [OF inv hb, of x] that by auto
  have off_buf: "x \<notin> desc_region L" if "buf \<le> x" "x < buf + r_len r" for x
    using held_table_cases [OF inv c(1), of x] that c(2,3) by auto
  have m5: "m5 x = mem s x" if "x \<notin> desc_region L" "x < b \<or> b + 148 \<le> x" "x < p \<or> p + 25 \<le> x" for x
    using sv that unfolding served_def by blast
  have m': "mem s' x = m6 x" if "x \<notin> desc_region L" for x using sv that unfolding served_def by blast
  show "agree (mem s') m6 b 8192" using m' off_b by (intro agreeI) auto
  show "agree m5 (mem s) (b + 4096) 4096" using ap off_b by (intro agreeI m5) (auto simp: apart_def)
  show "rd_bytes m5 buf (r_len r) = rd_bytes (mem s) buf (r_len r)"
    using ap off_buf by (intro rd_bytes_cong m5) (auto simp: apart_def)
  show "rd_bytes (mem s') buf (r_len r) = rd_bytes m6 buf (r_len r)"
    using off_buf by (intro rd_bytes_cong m') auto
qed

lemma served_queue_at: "served L view i b p r v m5 m6 s s' \<Longrightarrow> queue_at s' i = queue_at s i"
  by (simp add: served_def queue_at_def)

lemma served_drv_ok:
  assumes pl: "op_places L s b p buf r v" and sv: "served L view i b p r v m5 m6 s s'"
    and ok: "drv_ok L i view s" and b: "b = queue_at s i"
  shows "drv_ok L i view s'"
proof -
  note sv' = sv [unfolded served_def] and agb = served_memory(1) [OF pl sv] and agu = served_memory(2) [OF pl sv]
  obtain w where m6: "m6 = serve_mem m5 v r w" using sv' by blast
  have vr: "vq v = b" "r_status r = p + 24" and inv: "frames_inv L s" using pl by (simp_all add: op_places_def)
  note sm = serve_mem_reads [OF op_places_apart [OF pl] vr(2) m6, unfolded vr]
  have "ld16 (mem s') (used_idx_addr (b + 4096)) = ld16 (mem s) (used_idx_addr (b + 4096)) + 1"
    using sm(2) agree_ld(1) [OF agb, of "b + 4096 + 2"] agree_ld(1) [OF agu, of "b + 4096 + 2"]
    by (simp add: used_idx_addr_def)
  then have "idle_dev (mem s') b (BLOCK_DEVICES s' ! i)"
    using sv' ok by (simp add: drv_ok_def idle_dev_def b)
  moreover have "ld16 (mem s') (avail_idx_addr (b + 128)) = vseen v + 1"
    using sv' agree_ld(1) [OF agb, of "b + 128 + 2"] agree_ld(1) [OF sm(5), of "b + 128 + 2"]
    by (simp add: avail_idx_addr_def)
  then have "synced (mem s') b (serve_view m5 v r)" by (simp add: synced_def serve_view_def vr)
  moreover have "held L s' = held L s" "frames_inv L s'" using sv' inv by (simp_all add: held_def frames_inv_def)
  ultimately show ?thesis using ok sv' served_queue_at [OF sv] by (simp add: drv_ok_def b)
qed

lemma served_io_frame:
  assumes pl: "op_places L s b p buf r v" and sv: "served L view i b p r v m5 m6 s s'" and b: "b = queue_at s i"
  shows "io_frame L i buf (r_len r) s s'"
proof -
  note sv' = sv [unfolded served_def] and pl' = pl [unfolded op_places_def]
  obtain w where m6: "m6 = serve_mem m5 v r w" using sv' by blast
  have inv: "frames_inv L s" and hb: "(b, 2) \<in> held L s" and vr: "vq v = b" "r_buf r = buf" "r_status r = p + 24"
    using pl' by auto
  obtain s1 where s1: "allocate L 1 s = Inr (Some p, s1)" using pl' by blast
  obtain c k where c: "(c, k) \<in> held L s" "c \<le> buf" using pl' by (auto simp: buffer_in_def)
  note sm = serve_mem_reads [OF op_places_apart [OF pl] vr(3) m6, unfolded vr]
  have out: "mem s' x = mem s x" if "x \<notin> desc_region L" "x < b \<or> b + 8192 \<le> x" "x < p \<or> p + 4096 \<le> x"
      "x < buf \<or> buf + r_len r \<le> x" for x
  proof -
    have "m6 x = m5 x" using that by (intro sm(6)) auto
    moreover have "m5 x = mem s x" "mem s' x = m6 x" using sv' that by auto
    ultimately show ?thesis by simp
  qed
  have "mem s' x = mem s x" if "(c, k) \<in> held L s" "(c, k) \<noteq> (b, 2)" "c \<le> x" "x < c + k * PAGE_SIZE"
      "x < buf \<or> buf + r_len r \<le> x" for c k x
    using that held_table_cases [OF inv that(1), of x] fresh_page_apart(2) [OF inv s1 that(1)]
      held_disjoint [OF that(1) hb] by (intro out) auto
  moreover have "mem s' x = mem s x" if "x < ALLOC_START s" "x \<notin> desc_region L" for x
    using that fresh_page_apart(1) [OF inv s1] held_bounds(3) [OF inv hb] held_bounds(3) [OF inv c(1)] c(2)
    by (intro out) auto
  ultimately show ?thesis using sv' served_queue_at [OF sv] by (simp add: io_frame_def b)
qed

lemma served_data:
  assumes pl: "op_places L s b p buf r v" and sv: "served L view i b p r v m5 m6 s s'"
    and v: "view (hw s) = Some v" and ty: "r_typ r = (if write then 1 else 0)"
  shows "disk_of view s' = (if write \<and> in_range v r
       then overwrite (disk_of view s) (r_sector r * 512) (rd_bytes (mem s) buf (r_len r)) else disk_of view s)"
    "rd_bytes (mem s') buf (r_len r) = (if \<not> write \<and> in_range v r
       then take (r_len r) (drop (r_sector r * 512) (disk_of view s)) else rd_bytes (mem s) buf (r_len r))"
proof -
  note sv' = sv [unfolded served_def] and md = served_memory [OF pl sv]
  obtain w where m6: "m6 = serve_mem m5 v r w" using sv' by blast
  have vr: "r_buf r = buf" "r_status r = p + 24" using pl by (simp_all add: op_places_def)
  note sm = serve_mem_reads [OF op_places_apart [OF pl] vr(2) m6, unfolded vr]
  show "disk_of view s' = (if write \<and> in_range v r
       then overwrite (disk_of view s) (r_sector r * 512) (rd_bytes (mem s) buf (r_len r)) else disk_of view s)"
    using sv' v md(3) ty by (simp add: disk_of_def serve_view_def overwrite_def vr)
  show "rd_bytes (mem s') buf (r_len r) = (if \<not> write \<and> in_range v r
       then take (r_len r) (drop (r_sector r * 512) (disk_of view s)) else rd_bytes (mem s) buf (r_len r))"
    using sm(4,7) v md(3,4) ty by (simp add: disk_of_def)
qed

text \<open>
  With a device behind it, an idle driver completes every request: the answer tells whether the
  request, whole sectors, lies on the disk, a read delivers the bytes of the disk, a write replaces them, the
  request's page is given back and the queue is idle again.
\<close>

lemma block_op_spec:
  assumes dv: "blk_device B (dev (BLOCK_DEVICES s ! i)) view rank N" "N \<le> fuel"
    and ws: "whole_sectors (unat sz)" and ok: "drv_ok L i view s" and buf: "buffer_in L (queue_at s i) s buf (unat sz)"
    and low: "0 < low_free L s" and ro: "write \<longrightarrow> \<not> read_only (BLOCK_DEVICES s ! i)"
    and fits: "fits \<longleftrightarrow> unat off div 512 * 512 + unat sz \<le> length (disk_of view s)"
  obtains s' where "block_op L B fuel i buf sz off write s = Inr (fits, s')"
    "drv_ok L i view s'" "io_frame L i buf (unat sz) s s'"
    "disk_of view s' = (if write \<and> fits
       then overwrite (disk_of view s) (unat off div 512 * 512) (rd_bytes (mem s) buf (unat sz)) else disk_of view s)"
    "rd_bytes (mem s') buf (unat sz) = (if \<not> write \<and> fits
       then take (unat sz) (drop (unat off div 512 * 512) (disk_of view s)) else rd_bytes (mem s) buf (unat sz))"
proof -
  define b where "b = queue_at s i"
  obtain v where v: "view (hw s) = Some v" "synced (mem s) b v" using ok by (auto simp: drv_ok_def b_def)
  obtain p m5 m6 s' where run: "block_op L B fuel i buf sz off write s =
        Inr (in_range v (request_of p buf sz off write), s')" and al: "\<exists>s1. allocate L 1 s = Inr (Some p, s1)"
    and sv: "served L view i b p (request_of p buf sz off write) v m5 m6 s s'"
    by (rule block_op_served [OF dv ws ok b_def buf [folded b_def] low ro v(1), of off])
  let ?r = "request_of p buf sz off write"
  have r: "r_len ?r = unat sz" "r_sector ?r = unat off div 512" "r_typ ?r = (if write then 1 else 0)"
    by (simp_all add: request_of_def)
  have inr: "in_range v ?r = fits" using fits v(1) by (simp add: in_range_def r disk_of_def)
  have pl: "op_places L s b p buf ?r v"
    using ok al buf v(2) by (simp add: op_places_def drv_ok_def request_of_def synced_def b_def)
  show thesis
    using that [OF run [unfolded inr] served_drv_ok [OF pl sv ok b_def]] served_io_frame [OF pl sv b_def]
      served_data [OF pl sv v(1) r(3)] by (simp only: r inr)
qed

section \<open>A device that answers at once\<close>

definition instant_bus :: "dview option bus" where
  "instant_bus =
     \<lparr>rd32 = (\<lambda>_ d. (0, True, d)), wr32 = (\<lambda>_ _ d. (True, d)),
      dma = (\<lambda>m d. case d of
         None \<Rightarrow> (m, d)
       | Some v \<Rightarrow> (case dev_request m v of
             None \<Rightarrow> (m, d)
           | Some r \<Rightarrow> (serve_mem m v r 0, Some (serve_view m v r))))\<rparr>"

lemma instant_bus_device: "blk_device instant_bus a (\<lambda>d. d) (\<lambda>_. 0) 1"
  by (auto simp: blk_device_def instant_bus_def split: option.split)

text \<open>A machine with sixteen heap pages: the queue in the first two, the rest as given.\<close>

definition blk_layout :: linker where
  "blk_layout = demo_layout\<lparr>heap_start := 0x1000, heap_size := 0x10000\<rparr>"

definition blk_queue :: QueueState where
  "blk_queue = QueueState_empty\<lparr>desc := 0x2000, avail := 0x2080, used := 0x3000\<rparr>"

definition blk_machine :: "u8 list \<Rightarrow> u8 list \<Rightarrow> dview option vio_state" where
  "blk_machine ds disk =
     \<lparr>mem = wr_bytes (\<lambda>_. 0) 0x1000 (1 # 3 # ds), ALLOC_START = 0x2000,
      slots = slots idle_procs, current = current idle_procs, NEXT_PID = NEXT_PID idle_procs,
      BLOCK_DEVICES = \<lparr>dev = 0x10001000, queue = blk_queue, ack_used_idx = 0, read_only = False\<rparr> #
        replicate 7 BlockDevice_empty,
      VIRTIO_DEVICES = Some \<lparr>kind = Block\<rparr> # replicate 7 None, ACCESS_FAULT_SEEN = False,
      hw = Some \<lparr>vq = 0x2000, vseen = 0, vdisk = disk\<rparr>\<rparr>"

lemma blk_layout_sel [simp]: "heap_start blk_layout = 0x1000" "heap_size blk_layout = 0x10000"
  by (simp_all add: blk_layout_def)

lemma blk_machine_descriptors: "length ds = 14 \<Longrightarrow> descriptors blk_layout (blk_machine ds disk) = 1 # 3 # ds"
  using rd_wr_same [of 16 "1 # 3 # ds" "\<lambda>_. 0" "0x1000"] by (simp add: descriptors_def blk_machine_def)

lemma zero_ld16: "m a = 0 \<Longrightarrow> m (a + 1) = 0 \<Longrightarrow> ld16 m a = 0"
  by (simp add: ld16_def rd_bytes_def upt_rec)

lemma blk_machine_ok:
  assumes len: "length ds = 14" and wf: "table_wf (1 # 3 # ds)"
  shows "drv_ok blk_layout 0 (\<lambda>d. d) (blk_machine ds disk)"
proof -
  let ?s = "blk_machine ds disk"
  note ds = blk_machine_descriptors [OF len, of disk]
  have "run_at (1 # 3 # ds) 0 2" by (simp add: run_at_def less_Suc_eq)
  then have "(0x2000, 2) \<in> held blk_layout ?s" using heldI [of blk_layout ?s 0 2] by (simp add: ds) (simp add: blk_machine_def)
  moreover have "frames_inv blk_layout ?s" using wf by (simp add: frames_inv_def ds) (simp add: blk_machine_def)
  moreover have "mem ?s a = 0" if "0x2000 \<le> a" for a using that len by (simp add: blk_machine_def wr_bytes_out)
  then have "ld16 (mem ?s) a = 0" if "0x2000 \<le> a" for a using that by (intro zero_ld16) auto
  ultimately show ?thesis
    by (simp add: drv_ok_def queue_at_def idle_dev_def synced_def) (simp add: blk_machine_def blk_queue_def QueueState_empty_def
        used_idx_addr_def avail_idx_addr_def VIRTIO_RING_SIZE_def)
qed

definition buffer_page :: "u8 list" where
  "buffer_page = [3, 0, 0, 0, 0, 0, 0, 0, 0, 0, 0, 0, 0, 0]"

lemma buffer_page_wf: "table_wf (1 # 3 # buffer_page)"
  unfolding table_wf_def buffer_page_def by (auto simp: less_Suc_eq nth_Cons' split: if_splits)

lemma buffer_page_machine:
  "drv_ok blk_layout 0 (\<lambda>d. d) (blk_machine buffer_page disk)"
  "buffer_in blk_layout 0x2000 (blk_machine buffer_page disk) 0x4000 512"
  "0 < low_free blk_layout (blk_machine buffer_page disk)"
proof -
  let ?s = "blk_machine buffer_page disk"
  have len: "length buffer_page = 14" by (simp add: buffer_page_def)
  note ds = blk_machine_descriptors [OF len, of disk]
  show "drv_ok blk_layout 0 (\<lambda>d. d) ?s" by (rule blk_machine_ok [OF len buffer_page_wf])
  have "run_at (1 # 3 # buffer_page) 2 1" by (simp add: run_at_def buffer_page_def)
  then have "(0x4000, 1) \<in> held blk_layout ?s"
    using heldI [of blk_layout ?s 2 1] by (simp add: ds) (simp add: blk_machine_def)
  then show "buffer_in blk_layout 0x2000 ?s 0x4000 512" by (force simp: buffer_in_def)
  have "descriptors blk_layout ?s ! 3 = 0" unfolding ds by (simp add: buffer_page_def)
  moreover have "ALLOC_START ?s = 0x2000" by (simp add: blk_machine_def)
  ultimately show "0 < low_free blk_layout ?s" by (intro low_freeI [of 3]) (simp_all add: is_taken_def)
qed

section \<open>Properties\<close>

text \<open>
  C26: What the driver writes is what a device reads. For every descriptor chain that
  \<open>alloc_desc_chain\<close> hands out, the descriptors and the available ring that \<open>block_op\<close> writes
  decode, by the rules a virtio device follows, to exactly the request that was asked for:
  direction, sector, buffer, length and the address of the status byte.
\<close>

lemma block_request_decodes:
  assumes chain: "alloc_desc_chain q0 = (Some ids, q)" "length (free q0) = VIRTIO_RING_SIZE"
    and q: "desc q0 = b" "avail q0 = b + virtqueue_desc_bytes" and ap: "apart b p buf (unat sz)"
    and v: "synced m b v"
    and m': "m' = publish q p (ids ! 0) (ids ! 1) (ids ! 2) buf sz write
                   (write_request p (if write then VIRTIO_BLK_T_OUT else VIRTIO_BLK_T_IN) sec buf m)"
  shows "dev_request m' v =
     Some \<lparr>r_head = of_nat (ids ! 0), r_typ = (if write then VIRTIO_BLK_T_OUT else VIRTIO_BLK_T_IN),
           r_sector = unat sec, r_buf = buf, r_len = unat sz, r_status = req_status_addr p\<rparr>"
proof -
  note al = alloc_desc_chain_some [OF chain(2,1)]
  have "ids ! k < 8" if "k < 3" for k
    using subsetD [OF al(3) nth_mem, of k] that by (simp add: al(1) VIRTIO_RING_SIZE_def)
  then have th: "three (ids ! 0) (ids ! 1) (ids ! 2)"
    using al(1,2) by (simp add: three_def nth_eq_iff_index_eq)
  have q': "desc q = b" "avail q = b + 128" using al(4,5) q
    by (simp_all add: virtqueue_desc_bytes_def sizeof_Descriptor_def VIRTIO_RING_SIZE_def)
  have v': "vq v = b" "vseen v = ld16 m (avail_idx_addr (b + 128))" using v by (simp_all add: synced_def)
  have ty: "(if write then VIRTIO_BLK_T_OUT else VIRTIO_BLK_T_IN) = (if write then 1 else 0)"
    by (simp add: VIRTIO_BLK_T_IN_def VIRTIO_BLK_T_OUT_def)
  show ?thesis unfolding req_status_addr_def by (rule submitted_request(1) [OF q' ap th v' m' ty])
qed

theorem block_request_decodes_witness:
  "dev_request (publish (blk_queue\<lparr>free := [False, False, False, True, True, True, True, True]\<rparr>)
       0x5000 0 1 2 0x4000 512 True (write_request 0x5000 VIRTIO_BLK_T_OUT 3 0x4000 (\<lambda>_. 0)))
     \<lparr>vq = 0x2000, vseen = 0, vdisk = []\<rparr> =
   Some \<lparr>r_head = 0, r_typ = 1, r_sector = 3, r_buf = 0x4000, r_len = 512, r_status = 0x5018\<rparr>"
proof -
  let ?q = "blk_queue\<lparr>free := [False, False, False, True, True, True, True, True]\<rparr>"
  let ?v = "\<lparr>vq = 0x2000, vseen = 0, vdisk = []\<rparr>"
  have "alloc_desc_chain blk_queue = (Some [0, 1, 2], ?q)"
    by (rule alloc_all_free) (simp add: blk_queue_def QueueState_empty_def VIRTIO_RING_SIZE_def)
  moreover have "length (free blk_queue) = VIRTIO_RING_SIZE" "desc blk_queue = 0x2000"
    "avail blk_queue = 0x2000 + virtqueue_desc_bytes"
    by (simp_all add: blk_queue_def QueueState_empty_def VIRTIO_RING_SIZE_def virtqueue_desc_bytes_def sizeof_Descriptor_def)
  moreover have "apart 0x2000 0x5000 0x4000 (unat (512 :: u32))" by (simp add: apart_def)
  moreover have "synced (\<lambda>_. 0) 0x2000 ?v" by (simp add: synced_def zero_ld16)
  ultimately show ?thesis
    using block_request_decodes [of blk_queue "[0, 1, 2]" ?q "0x2000" "0x5000" "0x4000" 512 "\<lambda>_. 0" ?v _ True 3, OF _ _ _ _ _ _ refl]
    by (simp add: VIRTIO_BLK_T_OUT_def req_status_addr_def)
qed

text \<open>
  C24: With a block device behind the queue, \<open>block_read\<close> of one or more whole sectors returns; it answers
  \<open>true\<close> exactly when the sectors lie on the disk, and then the buffer holds the bytes of the disk from the sector
  of the offset on. The disk is unchanged, the request's page is given back, the queue is idle
  again, and no other memory in use is touched.
\<close>

lemma block_read_delivers:
  assumes dv: "blk_device B (dev (BLOCK_DEVICES s ! i)) view rank N" "N \<le> fuel"
    and ws: "whole_sectors (unat sz)" and ok: "drv_ok L i view s" and buf: "buffer_in L (queue_at s i) s buf (unat sz)"
    and low: "0 < low_free L s"
    and fits: "fits \<longleftrightarrow> unat off div 512 * 512 + unat sz \<le> length (disk_of view s)"
  shows "\<exists>s'. block_read L B fuel i buf sz off s = Inr (fits, s') \<and>
     (fits \<longrightarrow> rd_bytes (mem s') buf (unat sz) = take (unat sz) (drop (unat off div 512 * 512) (disk_of view s))) \<and>
     disk_of view s' = disk_of view s \<and> drv_ok L i view s' \<and> io_frame L i buf (unat sz) s s'"
proof -
  obtain s' where "block_op L B fuel i buf sz off False s = Inr (fits, s')"
    "drv_ok L i view s'" "io_frame L i buf (unat sz) s s'" "disk_of view s' = disk_of view s"
    "rd_bytes (mem s') buf (unat sz) = (if fits
       then take (unat sz) (drop (unat off div 512 * 512) (disk_of view s)) else rd_bytes (mem s) buf (unat sz))"
    using block_op_spec [OF dv ws ok buf low _ fits, of False] by auto
  then show ?thesis by (auto simp: block_read_def)
qed

theorem block_read_delivers_witness:
  "\<exists>s'. block_read blk_layout instant_bus 1 0 0x4000 512 512 (blk_machine buffer_page (replicate 512 1 @ replicate 512 2)) =
          Inr (True, s') \<and> rd_bytes (mem s') 0x4000 512 = replicate 512 2"
proof -
  let ?disk = "replicate 512 1 @ replicate 512 2 :: u8 list"
  let ?s = "blk_machine buffer_page ?disk"
  have q: "queue_at ?s 0 = 0x2000" "disk_of (\<lambda>d. d) ?s = ?disk"
    by (simp_all add: queue_at_def disk_of_def blk_machine_def blk_queue_def)
  from block_read_delivers [OF instant_bus_device, of 1 512 blk_layout 0 ?s "0x4000" True 512]
  show ?thesis using buffer_page_machine [of ?disk] by (auto simp: q whole_sectors_def)
qed

text \<open>
  C25: What was written is read back. After a \<open>block_write\<close> of whole sectors within the disk, a \<open>block_read\<close> of
  the same length and offset into any buffer in use returns \<open>true\<close> and fills that buffer with
  the bytes written; both operations leave the driver idle.
\<close>

lemma block_write_then_read:
  assumes dv: "blk_device B (dev (BLOCK_DEVICES s ! i)) view rank N" "N \<le> fuel"
    and ws: "whole_sectors (unat sz)" and ok: "drv_ok L i view s" and low: "0 < low_free L s" and ro: "\<not> read_only (BLOCK_DEVICES s ! i)"
    and src: "buffer_in L (queue_at s i) s src (unat sz)" and dst: "buffer_in L (queue_at s i) s dst (unat sz)"
    and fits: "unat off div 512 * 512 + unat sz \<le> length (disk_of view s)"
  shows "\<exists>s1 s2. block_write L B fuel i src sz off s = Inr (True, s1) \<and>
     block_read L B fuel i dst sz off s1 = Inr (True, s2) \<and>
     rd_bytes (mem s2) dst (unat sz) = rd_bytes (mem s) src (unat sz) \<and> drv_ok L i view s2"
proof -
  let ?o = "unat off div 512 * 512"
  obtain s1 where w: "block_op L B fuel i src sz off True s = Inr (True, s1)" "drv_ok L i view s1"
    "io_frame L i src (unat sz) s s1"
    "disk_of view s1 = overwrite (disk_of view s) ?o (rd_bytes (mem s) src (unat sz))"
    using block_op_spec [OF dv ws ok src low, of True True off] ro fits by auto
  note fr = w(3) [unfolded io_frame_def]
  have h: "held L s1 = held L s" using fr by (simp add: held_def)
  have b1: "buffer_in L (queue_at s1 i) s1 dst (unat sz)" using dst fr h by (simp add: buffer_in_def)
  have l1: "0 < low_free L s1" using low fr low_free_cong [of L s1 s] by simp
  have d1: "blk_device B (dev (BLOCK_DEVICES s1 ! i)) view rank N" using dv(1) fr by simp
  have "length (disk_of view s1) = length (disk_of view s)" using fits by (simp add: w(4) overwrite_def)
  then obtain s2 where r: "block_op L B fuel i dst sz off False s1 = Inr (True, s2)" "drv_ok L i view s2"
    "rd_bytes (mem s2) dst (unat sz) = take (unat sz) (drop ?o (disk_of view s1))"
    using block_op_spec [OF d1 dv(2) ws w(2) b1 l1, of False True off] fits by auto
  have "take (unat sz) (drop ?o (disk_of view s1)) = rd_bytes (mem s) src (unat sz)"
    using fits by (simp add: w(4) overwrite_def min_def)
  with w(1) r show ?thesis by (simp add: block_write_def block_read_def)
qed

theorem block_write_then_read_witness:
  "\<exists>s1 s2. block_write blk_layout instant_bus 1 0 0x4000 512 0 (blk_machine buffer_page (replicate 512 9)) = Inr (True, s1) \<and>
     block_read blk_layout instant_bus 1 0 0x4000 512 0 s1 = Inr (True, s2) \<and>
     rd_bytes (mem s2) 0x4000 512 = replicate 512 0"
proof -
  let ?s = "blk_machine buffer_page (replicate 512 9)"
  have q: "queue_at ?s 0 = 0x2000" "disk_of (\<lambda>d. d) ?s = replicate 512 9" "\<not> read_only (BLOCK_DEVICES ?s ! 0)"
    by (simp_all add: queue_at_def disk_of_def blk_machine_def blk_queue_def)
  have z: "rd_bytes (mem ?s) 0x4000 512 = replicate 512 0"
    by (rule nth_equalityI) (simp_all add: blk_machine_def wr_bytes_out buffer_page_def)
  from block_write_then_read [OF instant_bus_device, of 1 512 blk_layout 0 ?s "0x4000" "0x4000" 0]
  show ?thesis using buffer_page_machine [of "replicate 512 9"] by (auto simp: q z whole_sectors_def)
qed

end
