(* ===== verification/Minix.thy ===== *)
theory Minix
  imports BlockIO
begin

text \<open>
  The Minix 3 reader (\<open>src/fs/minix3\<close>): the scratch buffers, the on-disk structures, \<open>mount\<close>,
  \<open>read_inode\<close> and \<open>read_file\<close>.

  The functions take the block read they issue as an argument \<open>rd\<close> of buffer, size and offset;
  the kernel's is \<open>block_read\<close> of the mounted device. A filesystem error is a value (\<open>FsError\<close>),
  a panic or a write outside the caller's slice is a fault. The loops over zone pointers keep
  the three counters of the source (\<open>logical\<close>, \<open>cur_offset\<close>, \<open>written\<close>); an early
  \<open>return Ok(written)\<close> is the value \<open>Return\<close>. The sums of \<open>logical\<close> stay below \<open>2 ^ 36\<close> and
  the products of zone numbers below \<open>2 ^ 43\<close>, so these are written without overflow checks.
\<close>

section \<open>Constants and on-disk structures\<close>

definition BLOCK_SIZE :: nat where "BLOCK_SIZE = 1024"
definition MINIX_MAGIC :: u16 where "MINIX_MAGIC = 0x4d5a"
definition ROOT_INODE :: u32 where "ROOT_INODE = 1"
definition NUM_DIRECT_ZONES :: nat where "NUM_DIRECT_ZONES = 7"
definition INDIRECT_PTRS_PER_BLOCK :: nat where "INDIRECT_PTRS_PER_BLOCK = BLOCK_SIZE div 4"
definition MAX_NAME_LEN :: nat where "MAX_NAME_LEN = 60"
definition DIRENT_SIZE :: nat where "DIRENT_SIZE = 64"

lemmas minix_consts =
  BLOCK_SIZE_def MINIX_MAGIC_def ROOT_INODE_def NUM_DIRECT_ZONES_def INDIRECT_PTRS_PER_BLOCK_def
  MAX_NAME_LEN_def DIRENT_SIZE_def

datatype FsError = BadMagic | BlockReadFailed | OutOfMemory | InodeOutOfRange | BufferTooSmall

record SuperBlock =
  ninodes :: u32
  pad0 :: u16
  imap_blocks :: u16
  zmap_blocks :: u16
  first_data_zone :: u16
  log_zone_size :: u16
  pad1 :: u16
  max_size :: u32
  sb_zones :: u32
  magic :: u16
  pad2 :: u16
  block_size :: u16
  disk_version :: u8

definition read_SuperBlock :: "memory \<Rightarrow> nat \<Rightarrow> SuperBlock" where
  "read_SuperBlock m a =
     \<lparr>ninodes = ld32 m a, pad0 = ld16 m (a + 4), imap_blocks = ld16 m (a + 6), zmap_blocks = ld16 m (a + 8),
      first_data_zone = ld16 m (a + 10), log_zone_size = ld16 m (a + 12), pad1 = ld16 m (a + 14),
      max_size = ld32 m (a + 16), sb_zones = ld32 m (a + 20), magic = ld16 m (a + 24), pad2 = ld16 m (a + 26),
      block_size = ld16 m (a + 28), disk_version = m (a + 30)\<rparr>"

record Inode =
  mode :: u16
  nlinks :: u16
  uid :: u16
  gid :: u16
  isize :: u32
  atime :: u32
  mtime :: u32
  ctime :: u32
  zones :: "u32 list"

definition sizeof_Inode :: nat where "sizeof_Inode = 64"

definition read_Inode :: "memory \<Rightarrow> nat \<Rightarrow> Inode" where
  "read_Inode m a =
     \<lparr>mode = ld16 m a, nlinks = ld16 m (a + 2), uid = ld16 m (a + 4), gid = ld16 m (a + 6),
      isize = ld32 m (a + 8), atime = ld32 m (a + 12), mtime = ld32 m (a + 16), ctime = ld32 m (a + 20),
      zones = map (\<lambda>i. ld32 m (a + 24 + 4 * i)) [0..<10]\<rparr>"

definition TYPE_MASK :: u16 where "TYPE_MASK = 0xF000"
definition REGULAR :: u16 where "REGULAR = 0x8000"
definition DIRECTORY :: u16 where "DIRECTORY = 0x4000"

definition is_dir :: "Inode \<Rightarrow> bool" where "is_dir i \<longleftrightarrow> mode i AND TYPE_MASK = DIRECTORY"
definition is_regular :: "Inode \<Rightarrow> bool" where "is_regular i \<longleftrightarrow> mode i AND TYPE_MASK = REGULAR"

section \<open>Buffers\<close>

record Buffer =
  buf_ptr :: nat
  buf_pages :: nat

definition Buffer_new :: "linker \<Rightarrow> nat \<Rightarrow> 'z kmem_scheme \<Rightarrow> (Buffer option \<times> 'z kmem_scheme) res" where
  "Buffer_new L bytes s =
     (let n = max (div_ceil bytes PAGE_SIZE) 1 in
      bind_res (allocate L n s) (\<lambda>(r, s1).
      case r of None \<Rightarrow> Inr (None, s1) | Some p \<Rightarrow> Inr (Some \<lparr>buf_ptr = p, buf_pages = n\<rparr>, s1)))"

definition Buffer_drop :: "linker \<Rightarrow> Buffer \<Rightarrow> 'z kmem_scheme \<Rightarrow> 'z kmem_scheme res" where
  "Buffer_drop L b s = deallocate L (buf_ptr b) s"

text \<open>A buffer in scope: dropped when the rest of the function ends, by whichever path.\<close>

type_synonym ('a, 's) fs_res = "((FsError + 'a) \<times> 's) res"

definition with_buffer ::
  "linker \<Rightarrow> nat \<Rightarrow> (nat \<Rightarrow> 'z kmem_scheme \<Rightarrow> ('a, 'z kmem_scheme) fs_res) \<Rightarrow>
   'z kmem_scheme \<Rightarrow> ('a, 'z kmem_scheme) fs_res"
where
  "with_buffer L bytes k s =
     bind_res (Buffer_new L bytes s) (\<lambda>(r, s1).
     case r of
       None \<Rightarrow> Inr (Inl OutOfMemory, s1)
     | Some b \<Rightarrow>
         bind_res (k (buf_ptr b) s1) (\<lambda>(x, s2).
         bind_res (Buffer_drop L b s2) (\<lambda>s3. Inr (x, s3))))"

text \<open>The \<open>?\<close> operator.\<close>

definition try_fs :: "('a, 's) fs_res \<Rightarrow> ('a \<Rightarrow> 's \<Rightarrow> ('b, 's) fs_res) \<Rightarrow> ('b, 's) fs_res" where
  "try_fs r k = bind_res r (\<lambda>(x, s). case x of Inl e \<Rightarrow> Inr (Inl e, s) | Inr v \<Rightarrow> k v s)"

section \<open>Mounting and inodes\<close>

record Fs =
  fs_dev :: nat
  sb :: SuperBlock

type_synonym 's block_reader = "nat \<Rightarrow> u32 \<Rightarrow> u64 \<Rightarrow> 's \<Rightarrow> (bool \<times> 's) res"

definition read_block ::
  "'z kmem_scheme block_reader \<Rightarrow> nat \<Rightarrow> nat \<Rightarrow> 'z kmem_scheme \<Rightarrow> (unit, 'z kmem_scheme) fs_res"
where
  "read_block rd buf off s =
     bind_res (rd buf (of_nat BLOCK_SIZE) (of_nat off) s) (\<lambda>(ok, s1).
     Inr (if ok then Inr () else Inl BlockReadFailed, s1))"

definition mount_with ::
  "linker \<Rightarrow> 'z kmem_scheme block_reader \<Rightarrow> nat \<Rightarrow> 'z kmem_scheme \<Rightarrow> (Fs, 'z kmem_scheme) fs_res"
where
  "mount_with L rd d =
     with_buffer L BLOCK_SIZE (\<lambda>buf s.
       try_fs (read_block rd buf BLOCK_SIZE s) (\<lambda>_ s1.
       let b = read_SuperBlock (mem s1) buf in
       if magic b \<noteq> MINIX_MAGIC then Inr (Inl BadMagic, s1)
       else Inr (Inr \<lparr>fs_dev = d, sb = b\<rparr>, s1)))"

definition inode_table_offset :: "Fs \<Rightarrow> nat" where
  "inode_table_offset f = (2 + unat (imap_blocks (sb f)) + unat (zmap_blocks (sb f))) * BLOCK_SIZE"

definition read_inode_with ::
  "linker \<Rightarrow> 'z kmem_scheme block_reader \<Rightarrow> Fs \<Rightarrow> u32 \<Rightarrow> 'z kmem_scheme \<Rightarrow> (Inode, 'z kmem_scheme) fs_res"
where
  "read_inode_with L rd f num s =
     (if num = 0 \<or> num > ninodes (sb f) then Inr (Inl InodeOutOfRange, s)
      else
        let inode_off = inode_table_offset f + (unat num - 1) * sizeof_Inode;
            block_off = unat (of_nat inode_off AND NOT (of_nat BLOCK_SIZE - 1) :: u64);
            within = inode_off - block_off
        in with_buffer L BLOCK_SIZE (\<lambda>buf s1.
             try_fs (read_block rd buf block_off s1) (\<lambda>_ s2.
             Inr (Inr (read_Inode (mem s2) (buf + within)), s2))) s)"

section \<open>Reading a file\<close>

datatype flow = Return nat | Go nat nat nat

definition read_indirect_zone ::
  "'z kmem_scheme block_reader \<Rightarrow> u32 \<Rightarrow> nat \<Rightarrow> 'z kmem_scheme \<Rightarrow> (unit, 'z kmem_scheme) fs_res"
where
  "read_indirect_zone rd zone into s = read_block rd into (unat zone * BLOCK_SIZE) s"

text \<open>The closure \<open>copy_zone\<close>; the answer is whether to go on, with the new \<open>cur_offset\<close> and \<open>written\<close>.\<close>

definition copy_zone ::
  "'z kmem_scheme block_reader \<Rightarrow> nat \<Rightarrow> nat \<Rightarrow> nat \<Rightarrow> nat \<Rightarrow> u32 \<Rightarrow> nat \<Rightarrow> nat \<Rightarrow> nat \<Rightarrow> 'z kmem_scheme \<Rightarrow>
   (bool \<times> nat \<times> nat, 'z kmem_scheme) fs_res"
where
  "copy_zone rd block_buf out out_len fin zone logical_byte_start cur_offset written s =
     (if zone = 0 then
        let cur1 = logical_byte_start + BLOCK_SIZE in Inr (Inr (cur1 < fin, cur1, written), s)
      else
        let block_start = logical_byte_start; block_end = block_start + BLOCK_SIZE in
        if block_end \<le> cur_offset then Inr (Inr (True, cur_offset, written), s)
        else try_fs (read_block rd block_buf (unat zone * BLOCK_SIZE) s) (\<lambda>_ s1.
             bind_res (usize_sub cur_offset block_start) (\<lambda>in_block.
             bind_res (usize_sub fin cur_offset) (\<lambda>rest.
             let chunk = min (BLOCK_SIZE - in_block) rest in
             if written + chunk \<le> out_len then
               let s2 = s1\<lparr>mem := wr_bytes (mem s1) (out + written) (rd_bytes (mem s1) (block_buf + in_block) chunk)\<rparr>;
                   cur1 = cur_offset + chunk
               in Inr (Inr (cur1 < fin, cur1, written + chunk), s2)
             else Inl OutOfObject))))"

text \<open>A loop over the zone pointers of one level; \<open>get\<close> reads a pointer from memory.\<close>

fun copy_zones ::
  "(u32 \<Rightarrow> nat \<Rightarrow> nat \<Rightarrow> nat \<Rightarrow> 'z kmem_scheme \<Rightarrow> (bool \<times> nat \<times> nat, 'z kmem_scheme) fs_res) \<Rightarrow>
   (nat \<Rightarrow> memory \<Rightarrow> u32) \<Rightarrow> nat \<Rightarrow> nat list \<Rightarrow> nat \<Rightarrow> nat \<Rightarrow> nat \<Rightarrow> 'z kmem_scheme \<Rightarrow>
   (flow, 'z kmem_scheme) fs_res"
where
  "copy_zones copy get fin [] cur written logical s = Inr (Inr (Go cur written logical), s)"
| "copy_zones copy get fin (i # is) cur written logical s =
     (if cur \<ge> fin then Inr (Inr (Return written), s)
      else try_fs (copy (get i (mem s)) logical cur written s) (\<lambda>(more, cur1, written1) s1.
           if \<not> more then Inr (Inr (Return written1), s1)
           else copy_zones copy get fin is cur1 written1 (logical + BLOCK_SIZE) s1))"

definition then_go ::
  "(flow, 's) fs_res \<Rightarrow> (nat \<Rightarrow> nat \<Rightarrow> nat \<Rightarrow> 's \<Rightarrow> (flow, 's) fs_res) \<Rightarrow> (flow, 's) fs_res"
where
  "then_go r k =
     try_fs r (\<lambda>x s. case x of Return w \<Rightarrow> Inr (Inr (Return w), s) | Go cur written logical \<Rightarrow> k cur written logical s)"

definition ptr_at :: "nat \<Rightarrow> nat \<Rightarrow> memory \<Rightarrow> u32" where
  "ptr_at buf i m = ld32 m (buf + 4 * i)"

text \<open>
  The loops over double and triple indirect blocks. A zero pointer skips its range; the double loop
  and the outer triple loop then stop when the window is complete, the inner triple loop does not.
\<close>

fun dind_loop where
  "dind_loop single rd dind ind fin [] cur written logical s = Inr (Inr (Go cur written logical), s)"
| "dind_loop single rd dind ind fin (i # is) cur written logical s =
     (let dz = ptr_at dind i (mem s) in
      if dz = 0 then
        let logical1 = logical + INDIRECT_PTRS_PER_BLOCK * BLOCK_SIZE in
        if cur \<ge> fin then Inr (Inr (Go cur written logical1), s)
        else dind_loop single rd dind ind fin is cur written logical1 s
      else try_fs (read_indirect_zone rd dz ind s) (\<lambda>_ s1.
           then_go (single cur written logical s1) (dind_loop single rd dind ind fin is)))"

fun tind_inner where
  "tind_inner single rd dind ind [] cur written logical s = Inr (Inr (Go cur written logical), s)"
| "tind_inner single rd dind ind (j # js) cur written logical s =
     (let dz = ptr_at dind j (mem s) in
      if dz = 0 then tind_inner single rd dind ind js cur written (logical + INDIRECT_PTRS_PER_BLOCK * BLOCK_SIZE) s
      else try_fs (read_indirect_zone rd dz ind s) (\<lambda>_ s1.
           then_go (single cur written logical s1) (tind_inner single rd dind ind js)))"

fun tind_loop where
  "tind_loop single rd tind dind ind fin [] cur written logical s = Inr (Inr (Go cur written logical), s)"
| "tind_loop single rd tind dind ind fin (i # is) cur written logical s =
     (let tz = ptr_at tind i (mem s) in
      if tz = 0 then
        let logical1 = logical + INDIRECT_PTRS_PER_BLOCK * INDIRECT_PTRS_PER_BLOCK * BLOCK_SIZE in
        if cur \<ge> fin then Inr (Inr (Go cur written logical1), s)
        else tind_loop single rd tind dind ind fin is cur written logical1 s
      else try_fs (read_indirect_zone rd tz dind s) (\<lambda>_ s1.
           then_go (tind_inner single rd dind ind [0..<INDIRECT_PTRS_PER_BLOCK] cur written logical s1)
             (tind_loop single rd tind dind ind fin is)))"

definition read_zones ::
  "'z kmem_scheme block_reader \<Rightarrow> Inode \<Rightarrow> nat \<Rightarrow> nat \<Rightarrow> nat \<Rightarrow> nat \<Rightarrow> nat \<Rightarrow> nat \<Rightarrow> nat \<Rightarrow> nat \<Rightarrow>
   'z kmem_scheme \<Rightarrow> (flow, 'z kmem_scheme) fs_res"
where
  "read_zones rd inode fin out out_len block_buf ind dind tind offset s =
     (let copy = copy_zone rd block_buf out out_len fin;
          single = copy_zones copy (ptr_at ind) fin [0..<INDIRECT_PTRS_PER_BLOCK];
          zone = (\<lambda>i. zones inode ! i)
      in then_go (copy_zones copy (\<lambda>i _. zone i) fin [0..<NUM_DIRECT_ZONES] offset 0 0 s) (\<lambda>cur written logical s1.
         then_go
           (if cur < fin \<and> zone NUM_DIRECT_ZONES \<noteq> 0
            then try_fs (read_indirect_zone rd (zone NUM_DIRECT_ZONES) ind s1) (\<lambda>_ s2. single cur written logical s2)
            else Inr (Inr (Go cur written (logical + INDIRECT_PTRS_PER_BLOCK * BLOCK_SIZE)), s1)) (\<lambda>cur written logical s2.
         then_go
           (if cur < fin \<and> zone (NUM_DIRECT_ZONES + 1) \<noteq> 0
            then try_fs (read_indirect_zone rd (zone (NUM_DIRECT_ZONES + 1)) dind s2) (\<lambda>_ s3.
                 dind_loop single rd dind ind fin [0..<INDIRECT_PTRS_PER_BLOCK] cur written logical s3)
            else Inr (Inr (Go cur written logical), s2)) (\<lambda>cur written logical s3.
         if cur < fin \<and> zone (NUM_DIRECT_ZONES + 2) \<noteq> 0
         then try_fs (read_indirect_zone rd (zone (NUM_DIRECT_ZONES + 2)) tind s3) (\<lambda>_ s4.
              tind_loop single rd tind dind ind fin [0..<INDIRECT_PTRS_PER_BLOCK] cur written logical s4)
         else Inr (Inr (Go cur written logical), s3)))))"

fun flow_written :: "flow \<Rightarrow> nat" where
  "flow_written (Return w) = w"
| "flow_written (Go cur written logical) = written"

definition read_file_with ::
  "linker \<Rightarrow> 'z kmem_scheme block_reader \<Rightarrow> Inode \<Rightarrow> u32 \<Rightarrow> nat \<Rightarrow> nat \<Rightarrow> 'z kmem_scheme \<Rightarrow>
   (nat, 'z kmem_scheme) fs_res"
where
  "read_file_with L rd inode offset out out_len s =
     (if offset \<ge> isize inode then Inr (Inr 0, s)
      else
        let want = unat (min (of_nat out_len) (isize inode - offset)) in
        if want = 0 then Inr (Inr 0, s)
        else
          let fin = unat offset + want in
          with_buffer L BLOCK_SIZE (\<lambda>block_buf.
          with_buffer L BLOCK_SIZE (\<lambda>ind.
          with_buffer L BLOCK_SIZE (\<lambda>dind.
          with_buffer L BLOCK_SIZE (\<lambda>tind s1.
            try_fs (read_zones rd inode fin out out_len block_buf ind dind tind (unat offset) s1) (\<lambda>x s2.
            Inr (Inr (flow_written x), s2)))))) s)"

text \<open>The entry points on the kernel's block driver.\<close>

definition mount ::
  "linker \<Rightarrow> 'd bus \<Rightarrow> nat \<Rightarrow> nat \<Rightarrow> ('d, 'z) vio_state_scheme \<Rightarrow> (Fs, ('d, 'z) vio_state_scheme) fs_res"
where
  "mount L B fuel d = mount_with L (block_read L B fuel d) d"

definition read_inode ::
  "linker \<Rightarrow> 'd bus \<Rightarrow> nat \<Rightarrow> Fs \<Rightarrow> u32 \<Rightarrow> ('d, 'z) vio_state_scheme \<Rightarrow> (Inode, ('d, 'z) vio_state_scheme) fs_res"
where
  "read_inode L B fuel f num = read_inode_with L (block_read L B fuel (fs_dev f)) f num"

definition read_file ::
  "linker \<Rightarrow> 'd bus \<Rightarrow> nat \<Rightarrow> Fs \<Rightarrow> Inode \<Rightarrow> u32 \<Rightarrow> nat \<Rightarrow> nat \<Rightarrow>
   ('d, 'z) vio_state_scheme \<Rightarrow> (nat, ('d, 'z) vio_state_scheme) fs_res"
where
  "read_file L B fuel f inode offset out out_len =
     read_file_with L (block_read L B fuel (fs_dev f)) inode offset out out_len"

section \<open>Directory entries\<close>

record DirEntry =
  de_inode :: u32
  de_name :: "u8 list"

definition read_DirEntry :: "memory \<Rightarrow> nat \<Rightarrow> DirEntry" where
  "read_DirEntry m a = \<lparr>de_inode = ld32 m a, de_name = rd_bytes m (a + 4) MAX_NAME_LEN\<rparr>"

text \<open>
  \<open>core::str::from_utf8\<close>: the well-formed byte sequences of UTF-8, without overlong forms,
  surrogates and code points past \<open>10FFFF\<close>.
\<close>

definition cont_byte :: "u8 \<Rightarrow> bool" where "cont_byte b \<longleftrightarrow> 0x80 \<le> b \<and> b \<le> 0xBF"

fun utf8 :: "u8 list \<Rightarrow> bool" where
  "utf8 [] = True"
| "utf8 (a # bs) =
     (if a < 0x80 then utf8 bs
      else if 0xC2 \<le> a \<and> a \<le> 0xDF then
        (case bs of b # r \<Rightarrow> cont_byte b \<and> utf8 r | _ \<Rightarrow> False)
      else if 0xE0 \<le> a \<and> a \<le> 0xEF then
        (case bs of
           b # c # r \<Rightarrow>
             cont_byte b \<and> (a = 0xE0 \<longrightarrow> 0xA0 \<le> b) \<and> (a = 0xED \<longrightarrow> b \<le> 0x9F) \<and> cont_byte c \<and> utf8 r
         | _ \<Rightarrow> False)
      else if 0xF0 \<le> a \<and> a \<le> 0xF4 then
        (case bs of
           b # c # d # r \<Rightarrow>
             cont_byte b \<and> (a = 0xF0 \<longrightarrow> 0x90 \<le> b) \<and> (a = 0xF4 \<longrightarrow> b \<le> 0x8F) \<and> cont_byte c \<and> cont_byte d \<and> utf8 r
         | _ \<Rightarrow> False)
      else False)"

text \<open>The bytes of the literal returned for a name that is not valid UTF-8.\<close>

definition bad_utf8 :: "u8 list" where
  "bad_utf8 = [0x3c, 0x62, 0x61, 0x64, 0x20, 0x75, 0x74, 0x66, 0x38, 0x3e]"

definition name_str :: "DirEntry \<Rightarrow> u8 list" where
  "name_str de =
     (let len = (case position (\<lambda>b. b = 0) (de_name de) of Some i \<Rightarrow> i | None \<Rightarrow> length (de_name de));
          name = take len (de_name de)
      in if utf8 name then name else bad_utf8)"

end
