(* ===== verification/Syscall.thy ===== *)
theory Syscall
  imports TrapState Minix
begin

text \<open>
  System calls (\<open>src/process/syscall.rs\<close>): the dispatcher on register \<open>a0\<close>, with the file read
  through the Minix reader and the exit that reschedules at once. The loop that parks the hart
  when no process is left is the fault \<open>Diverges\<close>.
\<close>

text \<open>
  \<open>from_raw_parts_mut\<close> in the dev profile checks that the pointer is not null. Every error of the
  filesystem becomes the count 0.
\<close>

definition sys_read ::
  "linker \<Rightarrow> 'd bus \<Rightarrow> nat \<Rightarrow> nat \<Rightarrow> u32 \<Rightarrow> nat \<Rightarrow> u32 \<Rightarrow> u32 \<Rightarrow>
   ('d, 'z) vio_state_scheme \<Rightarrow> (nat \<times> ('d, 'z) vio_state_scheme) res"
where
  "sys_read L B fuel dv inode buffer sz offset s =
     bind_res (mount L B fuel dv s) (\<lambda>(r, s1).
     case r of
       Inl _ \<Rightarrow> Inr (0, s1)
     | Inr fs \<Rightarrow>
         bind_res (read_inode L B fuel fs inode s1) (\<lambda>(r, s2).
         case r of
           Inl _ \<Rightarrow> Inr (0, s2)
         | Inr node \<Rightarrow>
             bind_res (assert_res (buffer \<noteq> 0)) (\<lambda>_.
             bind_res (read_file L B fuel fs node offset buffer (unat sz) s2) (\<lambda>(r, s3).
             Inr (case r of Inl _ \<Rightarrow> 0 | Inr n \<Rightarrow> n, s3)))))"

definition step_past :: "u64 \<Rightarrow> 's \<Rightarrow> (u64 \<times> 's) res" where
  "step_past epc s = bind_res (u64_add epc 4) (\<lambda>p. Inr (p, s))"

definition do_syscall ::
  "linker \<Rightarrow> 'd soc \<Rightarrow> nat \<Rightarrow> u64 \<Rightarrow> frame_ptr \<Rightarrow> ('d, 'z) trap_state_scheme \<Rightarrow>
   (u64 \<times> ('d, 'z) trap_state_scheme) res"
where
  "do_syscall L M fuel epc fp s =
     (case frame_of fp s of
        None \<Rightarrow> Inl OutOfObject
      | Some f \<Rightarrow>
          let num = regs f ! 10 in
          if num = 1 then step_past epc s
          else if num = 63 then
            bind_res (sys_read L (bus.truncate M) fuel (unat (regs f ! 11)) (ucast (regs f ! 12))
                        (unat (regs f ! 13)) (ucast (regs f ! 14)) (ucast (regs f ! 15)) s) (\<lambda>(n, s1).
            step_past epc (set_frame fp (f\<lparr>regs := (regs f)[10 := of_nat n]\<rparr>) s1))
          else if num = 93 then
            bind_res (exit_current s) (\<lambda>(r, s1).
            bind_res (case r of
                        None \<Rightarrow> Inr s1
                      | Some p \<Rightarrow> println M fuel (bytes ''process '' @ dec (unat p) @ bytes '' exited'') s1) (\<lambda>s2.
            bind_res (schedule epc s2) (\<lambda>(r, s3).
            case r of
              Some (next_frame, next_pc) \<Rightarrow> Inr (next_pc, s3\<lparr>mscratch := next_frame\<rparr>)
            | None \<Rightarrow> Inl Diverges)))
          else bind_res (println M fuel (bytes ''unknown syscall '' @ dec (unat num)) s) (\<lambda>s1. step_past epc s1))"

end
