(* ===== verification/Trap.thy ===== *)
theory Trap
  imports Syscall
begin

text \<open>
  The trap dispatcher (\<open>src/arch/riscv64/trap.rs\<close>): \<open>m_trap\<close> with every cause, external
  interrupts and the console echo with its escape-sequence state machine. A \<open>panic!\<close> is the
  fault \<open>ExplicitPanic\<close> with its message.
\<close>

section \<open>External interrupts\<close>

definition echo_uart ::
  "'d soc \<Rightarrow> nat \<Rightarrow> ('d, 'z) trap_state_scheme \<Rightarrow> ('d, 'z) trap_state_scheme res"
where
  "echo_uart M fuel s =
     (case get M UART_BASE (hw s) of (r, d) \<Rightarrow>
      let s1 = s\<lparr>hw := d\<rparr> in
      case r of
        None \<Rightarrow> Inr s1
      | Some c \<Rightarrow>
          (case ESC_STATE s1 of
             Idle \<Rightarrow>
               if c = 0x08 \<or> c = 0x7f then print M fuel [8, 32, 8] s1
               else if c = 13 \<or> c = 10 then println M fuel [] s1
               else if c = 0x1b then Inr (s1\<lparr>ESC_STATE := EscSeen\<rparr>)
               else print M fuel (char_bytes c) s1
           | EscSeen \<Rightarrow> Inr (s1\<lparr>ESC_STATE := if c = 0x5b then CsiOpen else Idle\<rparr>)
           | CsiOpen \<Rightarrow>
               bind_res
                 (if c = 0x41 then println M fuel (bytes ''up arrow!'') s1
                  else if c = 0x42 then println M fuel (bytes ''down arrow!'') s1
                  else if c = 0x43 then println M fuel (bytes ''right arrow!'') s1
                  else if c = 0x44 then println M fuel (bytes ''left arrow!'') s1
                  else Inr s1)
                 (\<lambda>s2. Inr (s2\<lparr>ESC_STATE := Idle\<rparr>))))"

definition handle_external ::
  "'d soc \<Rightarrow> nat \<Rightarrow> ('d, 'z) trap_state_scheme \<Rightarrow> ('d, 'z) trap_state_scheme res"
where
  "handle_external M fuel s =
     (case plic_next (bus.truncate M) s of
        (None, s1) \<Rightarrow> Inr s1
      | (Some src, s1) \<Rightarrow>
          bind_res
            (if src = UART0_IRQ then echo_uart M fuel s1
             else bind_res (pending_by_irq (bus.truncate M) src s1) (\<lambda>(serviced, s2).
                  if serviced then Inr s2
                  else println M fuel (bytes ''non-UART external interrupt: '' @ dec (unat src)) s2))
            (\<lambda>s3. Inr (plic_complete (bus.truncate M) src s3)))"

section \<open>The dispatcher\<close>

definition fault_msg :: "string \<Rightarrow> u64 \<Rightarrow> u64 \<Rightarrow> u64 \<Rightarrow> u8 list" where
  "fault_msg what hart epc tval =
     bytes what @ bytes '' cpu#'' @ dec (unat hart) @ bytes '' epc=0x'' @ hex (unat epc) @
     bytes '' tval=0x'' @ hex (unat tval)"

definition report_fault ::
  "'d soc \<Rightarrow> nat \<Rightarrow> string \<Rightarrow> u64 \<Rightarrow> u64 \<Rightarrow> u64 \<Rightarrow> ('d, 'z) trap_state_scheme \<Rightarrow>
   (u64 \<times> ('d, 'z) trap_state_scheme) res"
where
  "report_fault M fuel what hart epc tval s =
     bind_res (println M fuel (fault_msg what hart epc tval) s) (\<lambda>s1. step_past epc s1)"

definition unhandled :: "string \<Rightarrow> u64 \<Rightarrow> u64 \<Rightarrow> fault" where
  "unhandled what hart cause_num =
     ExplicitPanic (bytes what @ bytes '' cpu#'' @ dec (unat hart) @ bytes '' cause '' @ dec (unat cause_num))"

definition m_trap ::
  "linker \<Rightarrow> 'd soc \<Rightarrow> nat \<Rightarrow> u64 \<Rightarrow> u64 \<Rightarrow> u64 \<Rightarrow> u64 \<Rightarrow> u64 \<Rightarrow> frame_ptr \<Rightarrow>
   ('d, 'z) trap_state_scheme \<Rightarrow> (u64 \<times> ('d, 'z) trap_state_scheme) res"
where
  "m_trap L M fuel epc tval cause hart status fp s =
     (let is_async = (drop_bit 63 cause AND 1 = 1);
          cause_num = cause AND 0xfff
      in if is_async then
           if cause_num = 3 then
             bind_res (println M fuel (bytes ''machine software interrupt cpu#'' @ dec (unat hart)) s)
               (\<lambda>s1. Inr (epc, s1))
           else if cause_num = 7 then
             bind_res (rearm_timer M s) (\<lambda>s1.
             bind_res (schedule epc s1) (\<lambda>(r, s2).
             case r of
               Some (next_frame, next_pc) \<Rightarrow> Inr (next_pc, s2\<lparr>mscratch := next_frame\<rparr>)
             | None \<Rightarrow> Inr (epc, s2)))
           else if cause_num = 11 then bind_res (handle_external M fuel s) (\<lambda>s1. Inr (epc, s1))
           else Inl (unhandled ''unhandled async trap'' hart cause_num)
         else
           if cause_num = 2 then Inl (ExplicitPanic (fault_msg ''illegal instruction'' hart epc tval))
           else if cause_num = 8 \<or> cause_num = 9 then do_syscall L M fuel epc fp s
           else if cause_num = 11 then
             Inl (ExplicitPanic (bytes ''ecall from M-mode cpu#'' @ dec (unat hart) @ bytes '' epc=0x'' @ hex (unat epc)))
           else if cause_num = 12 then report_fault M fuel ''instruction page fault'' hart epc tval s
           else if cause_num = 13 then report_fault M fuel ''load page fault'' hart epc tval s
           else if cause_num = 5 \<or> cause_num = 7 then step_past epc (access_fault_trap s)
           else if cause_num = 15 then report_fault M fuel ''store page fault'' hart epc tval s
           else Inl (unhandled ''unhandled sync trap'' hart cause_num))"

end
