(* ===== verification/Elf.thy ===== *)
theory Elf
  imports Prelude
begin

text \<open>
  The ELF64 parser (\<open>src/exec/elf.rs\<close>).

  A file image is a slice: the address it starts at and its bytes. \<open>parse\<close> gives the header
  or an \<open>ElfError\<close>; \<open>program_headers\<close> is the iterator's items, each of which is a read
  through a raw pointer and so may leave the buffer (\<open>OutOfObject\<close>) or be misaligned.
  \<open>header_bytes\<close> and \<open>phdr_bytes\<close> are the encodings of the two structures.
\<close>

section \<open>Data\<close>

definition MAGIC :: u32 where "MAGIC = 0x464c457f"
definition MACHINE_RISCV :: u16 where "MACHINE_RISCV = 0xf3"
definition TYPE_EXEC :: u16 where "TYPE_EXEC = 2"
definition PT_LOAD :: u32 where "PT_LOAD = 1"
definition PROG_EXECUTE :: u32 where "PROG_EXECUTE = 1"
definition PROG_WRITE :: u32 where "PROG_WRITE = 2"
definition PROG_READ :: u32 where "PROG_READ = 4"

record Header =
  magic :: u32
  bitsize :: u8
  endian :: u8
  ident_abi_version :: u8
  target_platform :: u8
  abi_version :: u8
  padding :: "u8 list"
  obj_type :: u16
  machine :: u16
  version :: u32
  entry_addr :: u64
  phoff :: u64
  shoff :: u64
  hdr_flags :: u32
  ehsize :: u16
  phentsize :: u16
  phnum :: u16
  shentsize :: u16
  shnum :: u16
  shstrndx :: u16

record ProgramHeader =
  seg_type :: u32
  flags :: u32
  off :: u64
  vaddr :: u64
  paddr :: u64
  filesz :: u64
  memsz :: u64
  align :: u64

datatype ElfError = BadMagic | NotRiscv | NotExecutable | Truncated

definition sizeof_Header :: nat where "sizeof_Header = 64"
definition sizeof_ProgramHeader :: nat where "sizeof_ProgramHeader = 56"

lemma elf_sizes [simp]: "sizeof_Header = 64" "sizeof_ProgramHeader = 56"
  by (simp_all add: sizeof_Header_def sizeof_ProgramHeader_def)

section \<open>Operations\<close>

text \<open>The fields at their \<open>repr(C)\<close> offsets.\<close>

definition read_Header :: "u8 list \<Rightarrow> Header" where
  "read_Header b =
     \<lparr>magic = le_u32 b 0, bitsize = b ! 4, endian = b ! 5, ident_abi_version = b ! 6,
      target_platform = b ! 7, abi_version = b ! 8, padding = take 7 (drop 9 b),
      obj_type = le_u16 b 16, machine = le_u16 b 18, version = le_u32 b 20,
      entry_addr = le_u64 b 24, phoff = le_u64 b 32, shoff = le_u64 b 40,
      hdr_flags = le_u32 b 48, ehsize = le_u16 b 52, phentsize = le_u16 b 54, phnum = le_u16 b 56,
      shentsize = le_u16 b 58, shnum = le_u16 b 60, shstrndx = le_u16 b 62\<rparr>"

definition read_ProgramHeader :: "u8 list \<Rightarrow> ProgramHeader" where
  "read_ProgramHeader b =
     \<lparr>seg_type = le_u32 b 0, flags = le_u32 b 4, off = le_u64 b 8, vaddr = le_u64 b 16,
      paddr = le_u64 b 24, filesz = le_u64 b 32, memsz = le_u64 b 40, align = le_u64 b 48\<rparr>"

definition parse :: "nat \<Rightarrow> u8 list \<Rightarrow> (ElfError + Header) res" where
  "parse base buf =
     (if length buf < sizeof_Header then Inr (Inl Truncated)
      else if base mod 8 \<noteq> 0 then Inl Misaligned
      else let hdr = read_Header buf in
        if magic hdr \<noteq> MAGIC then Inr (Inl BadMagic)
        else if machine hdr \<noteq> MACHINE_RISCV then Inr (Inl NotRiscv)
        else if obj_type hdr \<noteq> TYPE_EXEC then Inr (Inl NotExecutable)
        else bind_res (usize_mul (unat (phnum hdr)) (unat (phentsize hdr))) (\<lambda>sz.
             case usize_add (unat (phoff hdr)) sz of
               Inl _ \<Rightarrow> Inr (Inl Truncated)
             | Inr ph_end \<Rightarrow>
                 if ph_end > length buf then Inr (Inl Truncated) else Inr (Inr hdr)))"

definition program_header :: "nat \<Rightarrow> u8 list \<Rightarrow> Header \<Rightarrow> nat \<Rightarrow> ProgramHeader res" where
  "program_header base buf hdr i =
     bind_res (usize_mul i sizeof_ProgramHeader) (\<lambda>x.
     bind_res (usize_add (unat (phoff hdr)) x) (\<lambda>offset.
     if (base + offset) mod 8 \<noteq> 0 then Inl Misaligned
     else if offset + sizeof_ProgramHeader > length buf then Inl OutOfObject
     else Inr (read_ProgramHeader (drop offset buf))))"

definition program_headers :: "nat \<Rightarrow> u8 list \<Rightarrow> Header \<Rightarrow> ProgramHeader res list" where
  "program_headers base buf hdr = map (program_header base buf hdr) [0..<unat (phnum hdr)]"

section \<open>Encodings\<close>

definition header_bytes :: "Header \<Rightarrow> u8 list" where
  "header_bytes h =
     le_bytes 4 (unat (magic h)) @
     [bitsize h, endian h, ident_abi_version h, target_platform h, abi_version h] @ padding h @
     le_bytes 2 (unat (obj_type h)) @ le_bytes 2 (unat (machine h)) @ le_bytes 4 (unat (version h)) @
     le_bytes 8 (unat (entry_addr h)) @ le_bytes 8 (unat (phoff h)) @ le_bytes 8 (unat (shoff h)) @
     le_bytes 4 (unat (hdr_flags h)) @ le_bytes 2 (unat (ehsize h)) @ le_bytes 2 (unat (phentsize h)) @
     le_bytes 2 (unat (phnum h)) @ le_bytes 2 (unat (shentsize h)) @ le_bytes 2 (unat (shnum h)) @
     le_bytes 2 (unat (shstrndx h))"

definition phdr_bytes :: "ProgramHeader \<Rightarrow> u8 list" where
  "phdr_bytes p =
     le_bytes 4 (unat (seg_type p)) @ le_bytes 4 (unat (flags p)) @ le_bytes 8 (unat (off p)) @
     le_bytes 8 (unat (vaddr p)) @ le_bytes 8 (unat (paddr p)) @ le_bytes 8 (unat (filesz p)) @
     le_bytes 8 (unat (memsz p)) @ le_bytes 8 (unat (align p))"

lemma length_phdr_bytes [simp]: "length (phdr_bytes p) = 56"
  by (simp add: phdr_bytes_def)

lemma length_header_bytes: "length (padding h) = 7 \<Longrightarrow> length (header_bytes h) = 64"
  by (simp add: header_bytes_def)

lemma read_phdr_bytes: "read_ProgramHeader (phdr_bytes p @ rest) = p"
  by (simp add: read_ProgramHeader_def phdr_bytes_def le_word_skip)

lemma read_header_bytes:
  assumes "length (padding h) = 7"
  shows "read_Header (header_bytes h @ rest) = h"
  using assms by (simp add: read_Header_def header_bytes_def le_word_skip le_word_Cons nth_append)

text \<open>Conversely the encoding of what was read is what the file has.\<close>

lemma elf_word_bytes:
  "k + 2 \<le> length b \<Longrightarrow> le_bytes 2 (unat (le_u16 b k)) = take 2 (drop k b)"
  "k + 4 \<le> length b \<Longrightarrow> le_bytes 4 (unat (le_u32 b k)) = take 4 (drop k b)"
  "k + 8 \<le> length b \<Longrightarrow> le_bytes 8 (unat (le_u64 b k)) = take 8 (drop k b)"
proof -
  have bound: "le_val (take n (drop k b)) < 256 ^ n" "le_bytes n (le_val (take n (drop k b))) = take n (drop k b)"
    if "k + n \<le> length b" for n
  proof -
    have "length (take n (drop k b)) = n" using that by simp
    then show "le_val (take n (drop k b)) < 256 ^ n" "le_bytes n (le_val (take n (drop k b))) = take n (drop k b)"
      using le_val_bound [of "take n (drop k b)"] le_bytes_le_val [of "take n (drop k b)"] by (simp_all only:)
  qed
  show "k + 2 \<le> length b \<Longrightarrow> le_bytes 2 (unat (le_u16 b k)) = take 2 (drop k b)"
    using bound [of 2] by (simp add: le_u16_def unat_of_nat)
  show "k + 4 \<le> length b \<Longrightarrow> le_bytes 4 (unat (le_u32 b k)) = take 4 (drop k b)"
    using bound [of 4] by (simp add: le_u32_def unat_of_nat)
  show "k + 8 \<le> length b \<Longrightarrow> le_bytes 8 (unat (le_u64 b k)) = take 8 (drop k b)"
    using bound [of 8] by (simp add: le_u64_def unat_of_nat)
qed

lemma take_join:
  "k = n \<Longrightarrow> take n b @ take m (drop k b) @ xs = take (n + m) b @ xs" "k = n \<Longrightarrow> take n b @ take m (drop k b) = take (n + m) b"
  by (simp_all add: take_add)

lemma header_bytes_read:
  assumes "64 \<le> length b"
  shows "header_bytes (read_Header b) = take 64 b"
proof -
  have five: "[b ! 4, b ! 5, b ! 6, b ! 7, b ! 8] = take 5 (drop 4 b)"
    using assms by (intro nth_equalityI) (auto simp: less_Suc_eq nth_Cons')
  have four: "le_bytes 4 (unat (le_u32 b 0)) = take 4 b" using elf_word_bytes(2) [of 0 b] assms by simp
  show ?thesis using assms
    by (simp add: header_bytes_def read_Header_def four five [simplified] elf_word_bytes del: append_Cons append.simps) (simp add: take_join five)
qed

section \<open>Properties\<close>

text \<open>The header table of the file ends inside it.\<close>

definition table_fits :: "Header \<Rightarrow> nat \<Rightarrow> bool" where
  "table_fits h n \<longleftrightarrow> unat (phoff h) + unat (phnum h) * unat (phentsize h) \<le> n"

lemma u16_product: "unat (a :: u16) * unat (b :: u16) < 2 ^ 32"
proof -
  have "unat a < 2 ^ 16" "unat b < 2 ^ 16"
    using unsigned_less [of a, where ?'a = nat] unsigned_less [of b, where ?'a = nat] by simp_all
  then have "unat a * unat b < 2 ^ 16 * 2 ^ 16" by (rule mult_strict_mono) auto
  then show ?thesis by simp
qed

lemma parse_cases:
  assumes "base mod 8 = 0" "length buf < 2 ^ 64"
  shows "parse base buf = Inr
    (if length buf < 64 then Inl Truncated
     else if magic (read_Header buf) \<noteq> MAGIC then Inl BadMagic
     else if machine (read_Header buf) \<noteq> MACHINE_RISCV then Inl NotRiscv
     else if obj_type (read_Header buf) \<noteq> TYPE_EXEC then Inl NotExecutable
     else if \<not> table_fits (read_Header buf) (length buf) then Inl Truncated
     else Inr (read_Header buf))"
proof -
  let ?h = "read_Header buf"
  have "unat (phnum ?h) * unat (phentsize ?h) < 2 ^ 64" using u16_product [of "phnum ?h" "phentsize ?h"] by simp
  then show ?thesis
    using assms by (auto simp: parse_def Let_def table_fits_def usize_add_def)
qed

definition demo_header :: Header where
  "demo_header =
     \<lparr>magic = MAGIC, bitsize = 2, endian = 1, ident_abi_version = 1, target_platform = 0,
      abi_version = 0, padding = replicate 7 0, obj_type = TYPE_EXEC, machine = MACHINE_RISCV,
      version = 1, entry_addr = 0x10000, phoff = 64, shoff = 0, hdr_flags = 0, ehsize = 64,
      phentsize = 56, phnum = 1, shentsize = 0, shnum = 0, shstrndx = 0\<rparr>"

text \<open>
  C21: \<open>parse\<close> decides a file format. On an aligned buffer it never faults, and it accepts a file with
  the header \<open>h\<close> exactly when the file begins with the encoding of \<open>h\<close>, \<open>h\<close> describes an executable
  for RISC-V, and the table that \<open>h\<close> declares, \<open>phnum\<close> entries of \<open>phentsize\<close> bytes from \<open>phoff\<close> on,
  ends inside the file, as a sum without wrap-around.
\<close>

theorem parse_decides:
  assumes "base mod 8 = 0" "length buf < 2 ^ 64"
  shows "(\<exists>r. parse base buf = Inr r) \<and>
    (parse base buf = Inr (Inr h) \<longleftrightarrow>
       (\<exists>rest. buf = header_bytes h @ rest) \<and> length (padding h) = 7 \<and>
       magic h = MAGIC \<and> machine h = MACHINE_RISCV \<and> obj_type h = TYPE_EXEC \<and>
       unat (phoff h) + unat (phnum h) * unat (phentsize h) \<le> length buf)"
proof -
  note p = parse_cases [OF assms]
  have "(\<exists>rest. buf = header_bytes h @ rest) \<and> length (padding h) = 7" if "64 \<le> length buf" "h = read_Header buf"
  proof
    show "\<exists>rest. buf = header_bytes h @ rest"
      using header_bytes_read [OF that(1)] that(2) append_take_drop_id [of 64 buf] by metis
    show "length (padding h) = 7" using that by (simp add: read_Header_def)
  qed
  moreover have "64 \<le> length buf" "read_Header buf = h" if "buf = header_bytes h @ rest" "length (padding h) = 7" for rest
    using that length_header_bytes [of h] read_header_bytes [of h rest] by simp_all
  ultimately show ?thesis unfolding p by (auto simp: table_fits_def split: if_splits)
qed

theorem parse_decides_witness:
  "parse 0x2000 (header_bytes (demo_header\<lparr>phnum := 0\<rparr>)) = Inr (Inr (demo_header\<lparr>phnum := 0\<rparr>)) \<and>
   parse 0x2000 (header_bytes demo_header) \<noteq> Inr (Inr demo_header)"
proof -
  let ?h = "demo_header\<lparr>phnum := 0\<rparr>"
  have len: "length (header_bytes ?h) = 64" "length (header_bytes demo_header) = 64"
    by (simp_all add: length_header_bytes demo_header_def)
  have "unat (phoff demo_header) + unat (phnum demo_header) * unat (phentsize demo_header) = 120" by (simp add: demo_header_def)
  then have "parse 0x2000 (header_bytes demo_header) \<noteq> Inr (Inr demo_header)"
    using parse_decides [of "0x2000" "header_bytes demo_header" demo_header] len(2) by simp
  moreover have "unat (phoff ?h) + unat (phnum ?h) * unat (phentsize ?h) = 64" "length (padding ?h) = 7" "magic ?h = MAGIC"
    "machine ?h = MACHINE_RISCV" "obj_type ?h = TYPE_EXEC" by (simp_all add: demo_header_def)
  then have "parse 0x2000 (header_bytes ?h) = Inr (Inr ?h)"
    using parse_decides [of "0x2000" "header_bytes ?h" ?h] len(1) by simp
  ultimately show ?thesis by blast
qed

text \<open>A well-formed image: the header, bytes up to the table, the program headers, the rest.\<close>

definition elf_image :: "Header \<Rightarrow> u8 list \<Rightarrow> ProgramHeader list \<Rightarrow> u8 list \<Rightarrow> u8 list" where
  "elf_image h gap ps rest = header_bytes h @ gap @ concat (map phdr_bytes ps) @ rest"

definition good_header :: "Header \<Rightarrow> nat \<Rightarrow> nat \<Rightarrow> bool" where
  "good_header h gap n \<longleftrightarrow>
     magic h = MAGIC \<and> machine h = MACHINE_RISCV \<and> obj_type h = TYPE_EXEC \<and> length (padding h) = 7 \<and>
     unat (phoff h) = 64 + gap \<and> unat (phnum h) = n \<and> phentsize h = 56"

lemma length_phdrs: "length (concat (map phdr_bytes ps)) = 56 * length ps"
  by (induction ps) simp_all

lemma drop_phdrs: "i < length ps \<Longrightarrow>
    drop (56 * i) (concat (map phdr_bytes ps) @ rest) =
      phdr_bytes (ps ! i) @ concat (map phdr_bytes (drop (Suc i) ps)) @ rest"
proof (induction ps arbitrary: i)
  case Nil
  then show ?case by simp
next
  case (Cons p ps)
  then show ?case by (cases i) (simp_all add: drop_append)
qed

text \<open>
  C22: Encode and parse round trip. An image made of the encoding of a header with the
  specified entry size, any gap, the encodings of its program headers at \<open>phoff\<close> and any
  tail is accepted, \<open>parse\<close> returns that header, and iterating \<open>program_headers\<close> yields
  exactly those program headers, each read inside the buffer.
\<close>

theorem elf_roundtrip:
  assumes "good_header h (length gap) (length ps)" "base mod 8 = 0" "length gap mod 8 = 0"
    and "length (elf_image h gap ps rest) < 2 ^ 64"
  shows "parse base (elf_image h gap ps rest) = Inr (Inr h) \<and>
         program_headers base (elf_image h gap ps rest) h = map Inr ps"
proof -
  let ?b = "elf_image h gap ps rest"
  have gh: "magic h = MAGIC" "machine h = MACHINE_RISCV" "obj_type h = TYPE_EXEC" "length (padding h) = 7"
    "unat (phoff h) = 64 + length gap" "unat (phnum h) = length ps" "phentsize h = 56"
    using assms(1) by (simp_all add: good_header_def)
  have len: "length ?b = 64 + length gap + 56 * length ps + length rest"
    using gh(4) by (simp add: elf_image_def length_header_bytes length_phdrs)
  have hd: "read_Header ?b = h" using gh(4) by (simp add: elf_image_def read_header_bytes)
  have fits: "table_fits h (length ?b)" using gh by (simp add: table_fits_def len)
  have parse: "parse base ?b = Inr (Inr h)"
    using parse_cases [OF assms(2,4)] gh fits len by (simp add: hd)
  have "program_header base ?b h i = Inr (ps ! i)" if i: "i < length ps" for i
  proof -
    have "drop (64 + length gap) ?b = concat (map phdr_bytes ps) @ rest"
      using gh(4) by (simp add: elf_image_def length_header_bytes)
    then have "drop (64 + length gap + 56 * i) ?b = drop (56 * i) (concat (map phdr_bytes ps) @ rest)"
      using drop_drop [of "56 * i" "64 + length gap" ?b] by (simp only: add.commute)
    then have rd: "read_ProgramHeader (drop (64 + length gap + i * 56) ?b) = ps ! i"
      using drop_phdrs [OF i] read_phdr_bytes by (simp add: mult.commute)
    have "8 dvd base" "8 dvd length gap" "8 dvd i * 56" "8 dvd (64 :: nat)"
      using assms(2,3) dvd_mult [of 8 56 i] by (simp_all add: dvd_eq_mod_eq_0)
    then have al: "(base + (64 + length gap + i * 56)) mod 8 = 0"
      unfolding dvd_eq_mod_eq_0 [symmetric] by (intro dvd_add)
    have bd: "64 + length gap + i * 56 + 56 \<le> length ?b" using i len by simp
    with assms(4) show ?thesis using rd al by (simp add: program_header_def gh(5))
  qed
  then have "program_headers base ?b h = map Inr ps"
    unfolding program_headers_def gh(6) by (intro nth_equalityI) simp_all
  with parse show ?thesis by simp
qed

definition demo_phdr :: ProgramHeader where
  "demo_phdr =
     \<lparr>seg_type = PT_LOAD, flags = 5, off = 0x1000, vaddr = 0x10000, paddr = 0x10000,
      filesz = 0x200, memsz = 0x400, align = 0x1000\<rparr>"

theorem elf_roundtrip_witness:
  "parse 0x2000 (elf_image demo_header [] [demo_phdr] []) = Inr (Inr demo_header) \<and>
   program_headers 0x2000 (elf_image demo_header [] [demo_phdr] []) demo_header = [Inr demo_phdr]"
proof -
  have good: "good_header demo_header (length []) (length [demo_phdr])"
    by (simp add: good_header_def demo_header_def)
  have "length (elf_image demo_header [] [demo_phdr] []) = 120"
    using good by (simp add: good_header_def elf_image_def length_header_bytes)
  then show ?thesis using elf_roundtrip [OF good, of "0x2000" "[]"] by simp
qed

text \<open>
  C23: \<open>parse\<close> does not make the header walk safe. It checks \<open>phnum * phentsize\<close> bytes, but
  \<open>program_headers\<close> steps by the size of its own structure: whenever an accepted file
  declares a smaller entry size and the table of real entries does not fit, the last item
  of the iterator reads past the end of the buffer.
\<close>

theorem program_headers_out_of_bounds:
  assumes "parse base buf = Inr (Inr h)" "base mod 8 = 0" "unat (phoff h) mod 8 = 0"
    and "length buf < 2 ^ 63" "0 < phnum h"
    and "length buf < unat (phoff h) + unat (phnum h) * sizeof_ProgramHeader"
  shows "last (program_headers base buf h) = Inl OutOfObject"
proof -
  let ?n = "unat (phnum h)"
  have n: "0 < ?n" "?n < 2 ^ 16"
    using assms(5) unsigned_less [of "phnum h", where ?'a = nat] by (auto simp: word_less_nat_alt)
  have h: "h = read_Header buf" "table_fits h (length buf)"
    using parse_cases [OF assms(2), of buf] assms(1,4) by (auto split: if_splits)
  then have po: "unat (phoff h) < 2 ^ 63" using assms(4) by (simp add: table_fits_def)
  have "8 dvd base" "8 dvd unat (phoff h)" "8 dvd (?n - 1) * 56"
    using assms(2,3) dvd_mult [of 8 56 "?n - 1"] by (simp_all add: dvd_eq_mod_eq_0)
  then have al: "(base + (unat (phoff h) + (?n - 1) * 56)) mod 8 = 0"
    unfolding dvd_eq_mod_eq_0 [symmetric] by (intro dvd_add)
  have m: "(?n - 1) * 56 < 2 ^ 63" "unat (phoff h) + (?n - 1) * 56 < 2 ^ 64"
    using n(2) po by simp_all
  have over: "length buf < unat (phoff h) + (?n - 1) * 56 + 56"
    using assms(6) n(1) by (cases ?n) simp_all
  have "last (program_headers base buf h) = program_header base buf h (?n - 1)"
    using n(1) by (simp add: program_headers_def last_map)
  also have "\<dots> = Inl OutOfObject"
    using m al over by (simp add: program_header_def)
  finally show ?thesis .
qed

theorem program_headers_out_of_bounds_witness:
  "parse 0x2000 (header_bytes (demo_header\<lparr>phentsize := 0\<rparr>)) = Inr (Inr (demo_header\<lparr>phentsize := 0\<rparr>)) \<and>
   program_headers 0x2000 (header_bytes (demo_header\<lparr>phentsize := 0\<rparr>)) (demo_header\<lparr>phentsize := 0\<rparr>) =
     [Inl OutOfObject]"
proof -
  let ?h = "demo_header\<lparr>phentsize := 0\<rparr>"
  have len: "length (header_bytes ?h) = 64" by (rule length_header_bytes) (simp add: demo_header_def)
  have hd: "read_Header (header_bytes ?h) = ?h"
    using read_header_bytes [of ?h "[]"] by (simp add: demo_header_def)
  have p: "parse 0x2000 (header_bytes ?h) = Inr (Inr ?h)"
    using parse_cases [of "0x2000" "header_bytes ?h"] by (simp add: hd len table_fits_def) (simp add: demo_header_def)
  have "last (program_headers 0x2000 (header_bytes ?h) ?h) = Inl OutOfObject"
    by (rule program_headers_out_of_bounds [OF p]) (simp_all only: len, simp_all add: demo_header_def)
  moreover have "length (program_headers 0x2000 (header_bytes ?h) ?h) = 1"
    by (simp add: program_headers_def demo_header_def)
  ultimately show ?thesis using p by (cases "program_headers 0x2000 (header_bytes ?h) ?h") auto
qed

end
