(* ===== verification/Discovery.thy ===== *)
theory Discovery
  imports Uart
begin

text \<open>
  Device discovery (\<open>setup_block_device\<close> of \<open>src/drivers/virtio/device.rs\<close> and \<open>probe\<close> of
  \<open>bus.rs\<close>), with the messages it prints.
\<close>

section \<open>Setting up a block device\<close>

definition give_up ::
  "'d soc \<Rightarrow> nat \<Rightarrow> string \<Rightarrow> nat \<Rightarrow> ('d, 'z) vio_state_scheme \<Rightarrow> (bool \<times> ('d, 'z) vio_state_scheme) res"
where
  "give_up M fuel msg ptr s =
     bind_res (print M fuel (bytes msg) s) (\<lambda>s1.
     case mmio_write32 (bus.truncate M) ptr Status VIRTIO_FAILED s1 of (_, s2) \<Rightarrow> Inr (False, s2))"

text \<open>The end of the setup: the queue's pages, the registration and the final status write.\<close>

definition setup_queue ::
  "linker \<Rightarrow> 'd soc \<Rightarrow> nat \<Rightarrow> nat \<Rightarrow> nat \<Rightarrow> bool \<Rightarrow> u32 \<Rightarrow>
   ('d, 'z) vio_state_scheme \<Rightarrow> (bool \<times> ('d, 'z) vio_state_scheme) res"
where
  "setup_queue L M fuel ptr slot ro status_bits s =
     bind_res (zallocate L queue_pages s) (\<lambda>(r, s1).
     case r of
       None \<Rightarrow> give_up M fuel ''queue alloc fail...'' ptr s1
     | Some queue_mem \<Rightarrow>
         try_write (bus.truncate M) ptr QueuePfn (of_nat queue_mem div of_nat PAGE_SIZE) (\<lambda>s2.
           if slot < MAX_VIRTIO_DEVICES then
             let qstate = QueueState_empty\<lparr>desc := queue_mem,
                            avail := queue_mem + virtqueue_desc_bytes,
                            used := queue_mem + used_offset\<rparr>;
                 s3 = s2\<lparr>BLOCK_DEVICES := (BLOCK_DEVICES s2)[slot :=
                            \<lparr>dev = ptr, queue = qstate, ack_used_idx = 0, read_only = ro\<rparr>]\<rparr>;
                 s4 = s3\<lparr>VIRTIO_DEVICES := (VIRTIO_DEVICES s3)[slot := Some \<lparr>kind = Block\<rparr>]\<rparr>
             in try_write (bus.truncate M) ptr Status (status_bits OR VIRTIO_DRIVER_OK) (\<lambda>s5. Inr (True, s5)) s4
           else Inl IndexOutOfBounds) s1)"

definition setup_block_device ::
  "linker \<Rightarrow> 'd soc \<Rightarrow> nat \<Rightarrow> nat \<Rightarrow> ('d, 'z) vio_state_scheme \<Rightarrow> (bool \<times> ('d, 'z) vio_state_scheme) res"
where
  "setup_block_device L M fuel ptr s =
     bind_res (dev_slot_from_ptr ptr) (\<lambda>slot.
     try_write (bus.truncate M) ptr Status 0 (\<lambda>s1.
     let b1 = VIRTIO_ACKNOWLEDGE in
     try_write (bus.truncate M) ptr Status b1 (\<lambda>s2.
     let b2 = b1 OR VIRTIO_DRIVER in
     try_write (bus.truncate M) ptr Status b2 (\<lambda>s3.
     try_read (bus.truncate M) ptr HostFeatures (\<lambda>host_features s4.
     let guest_features = host_features AND NOT (push_bit VIRTIO_BLK_F_RO 1);
         ro = (host_features AND push_bit VIRTIO_BLK_F_RO 1 \<noteq> 0) in
     try_write (bus.truncate M) ptr GuestFeatures guest_features (\<lambda>s5.
     let b3 = b2 OR VIRTIO_FEATURES_OK in
     try_write (bus.truncate M) ptr Status b3 (\<lambda>s6.
     try_read (bus.truncate M) ptr Status (\<lambda>status_ok s7.
     if status_ok AND VIRTIO_FEATURES_OK = 0 then give_up M fuel ''features fail...'' ptr s7
     else try_write (bus.truncate M) ptr QueueSel 0 (\<lambda>s8.
     try_read (bus.truncate M) ptr QueueNumMax (\<lambda>qnmax s9.
     if qnmax < of_nat VIRTIO_RING_SIZE then give_up M fuel ''queue size fail...'' ptr s9
     else try_write (bus.truncate M) ptr QueueNum (of_nat VIRTIO_RING_SIZE) (\<lambda>s10.
     try_write (bus.truncate M) ptr QueueAlign (of_nat PAGE_SIZE) (\<lambda>s11.
     try_write (bus.truncate M) ptr GuestPageSize (of_nat PAGE_SIZE) (\<lambda>s12.
     setup_queue L M fuel ptr slot ro b3 s12)
     s11) s10) s9) s8) s7) s6) s5) s4) s3) s2) s1) s)"

section \<open>Probing\<close>

text \<open>The probe of one address, and the loop over the MMIO window.\<close>

definition probe_one ::
  "linker \<Rightarrow> 'd soc \<Rightarrow> nat \<Rightarrow> nat \<Rightarrow> ('d, 'z) vio_state_scheme \<Rightarrow> ('d, 'z) vio_state_scheme res"
where
  "probe_one L M fuel addr s =
     bind_res (print M fuel (bytes ''Virtio probing 0x'' @ pad_left 48 8 (hex addr) @ bytes ''...'') s) (\<lambda>s0.
     case bus_mmio_read32 (bus.truncate M) addr MagicValue s0 of
       (None, s1) \<Rightarrow> println M fuel (bytes ''fault.'') s1
     | (Some magicvalue, s1) \<Rightarrow>
         if magicvalue \<noteq> MMIO_VIRTIO_MAGIC then println M fuel (bytes ''not virtio.'') s1
         else case bus_mmio_read32 (bus.truncate M) addr DeviceId s1 of
                (None, s2) \<Rightarrow> println M fuel (bytes ''fault.'') s2
              | (Some deviceid, s2) \<Rightarrow>
                  if deviceid = 0 then println M fuel (bytes ''not connected.'') s2
                  else if deviceid = VIRTIO_DEVICE_BLOCK then
                    bind_res (print M fuel (bytes ''block device...'') s2) (\<lambda>s3.
                    bind_res (setup_block_device L M fuel addr s3) (\<lambda>(ok, s4).
                    println M fuel (bytes (if ok then ''setup succeeded!'' else ''setup failed.'')) s4))
                  else if deviceid = VIRTIO_DEVICE_ENTROPY then
                    bind_res (print M fuel (bytes ''entropy device...'') s2) (\<lambda>s3.
                    bind_res (register_entropy_device addr s3) (\<lambda>s4.
                    println M fuel (bytes ''discovered.'') s4))
                  else
                    bind_res (register_unknown_device addr s2) (\<lambda>s3.
                    println M fuel (bytes ''unknown device type '' @ dec (unat deviceid) @ bytes ''.'') s3))"

definition probe ::
  "linker \<Rightarrow> 'd soc \<Rightarrow> nat \<Rightarrow> ('d, 'z) vio_state_scheme \<Rightarrow> ('d, 'z) vio_state_scheme res"
where
  "probe L M fuel s =
     fold_res (probe_one L M fuel)
       (map (\<lambda>k. MMIO_VIRTIO_START + k * MMIO_VIRTIO_STRIDE)
          [0..<(MMIO_VIRTIO_END - MMIO_VIRTIO_START) div MMIO_VIRTIO_STRIDE + 1]) s"

end
