(* ===== verification/Boot.thy ===== *)
theory Boot
  imports Trap Sv39 Elf Discovery
begin

text \<open>
  Booting (\<open>src/boot/entry.rs\<close>, the mode switch of \<open>src/arch/riscv64/paging.rs\<close> and
  \<open>src/arch/riscv64/asm/boot.S\<close>).

  \<open>kinit\<close> runs in machine mode: it builds the kernel's page table, installs the trap handler,
  sets up the interrupt controller and the devices, and ends in \<open>enter_sv39\<close>, whose result is
  the control registers that \<open>mret\<close> reads. \<open>skmain\<close> runs in supervisor mode and is modelled up
  to the idle loop: its result is the state in which the hart waits for interrupts. The messages
  are the bytes that \<open>core::fmt\<close> produces.
\<close>

section \<open>The assembly entry\<close>

text \<open>
  Hart 0 clears the BSS eight bytes at a time, with the test at the end of the loop; a store that
  is not aligned traps, and the loop has fuel. Every other hart parks. The result is the
  registers that the code writes, \<open>gp\<close> and \<open>ra\<close> apart, which hold addresses of code.
\<close>

datatype entry_point = At_kinit | At_skmain

record mret_csrs =
  csr_satp :: u64
  csr_mepc :: entry_point
  csr_mstatus :: u64

record boot_regs = mret_csrs +
  csr_pmpaddr0 :: u64
  csr_pmpcfg0 :: u64
  csr_mtvec :: trap_vector
  reg_sp :: u64

fun clear_bss :: "nat \<Rightarrow> u64 \<Rightarrow> u64 \<Rightarrow> memory \<Rightarrow> memory res" where
  "clear_bss 0 a0 a1 m = Inl Diverges"
| "clear_bss (Suc n) a0 a1 m =
     (if unat a0 mod 8 \<noteq> 0 then Inl Misaligned
      else let m' = st64 m (unat a0) 0 in
        if a0 + 8 < a1 then clear_bss n (a0 + 8) a1 m' else Inr m')"

definition start_hart :: "linker \<Rightarrow> nat \<Rightarrow> u64 \<Rightarrow> memory \<Rightarrow> (boot_regs \<times> memory) res" where
  "start_hart L fuel hart m =
     (if hart \<noteq> 0 then Inl Diverges
      else let a0 = of_nat (bss_start L); a1 = of_nat (bss_end L) in
        bind_res (if a0 \<ge> a1 then Inr m else clear_bss fuel a0 a1 m) (\<lambda>m'.
        Inr (\<lparr>csr_satp = 0, csr_mepc = At_kinit, csr_mstatus = push_bit 11 3 OR push_bit 7 1,
              csr_pmpaddr0 = - 1, csr_pmpcfg0 = 0x0f, csr_mtvec = asm_trap_vector, reg_sp = of_nat (stack_end L)\<rparr>, m')))"

section \<open>The mode switch\<close>

definition enter_sv39 :: "u64 \<Rightarrow> entry_point \<Rightarrow> mret_csrs" where
  "enter_sv39 satp_val s_entry =
     \<lparr>csr_satp = satp_val, csr_mepc = s_entry, csr_mstatus = push_bit 11 1 OR push_bit 7 1\<rparr>"

section \<open>The kernel's page table\<close>

definition is_power_of_two :: "u64 \<Rightarrow> bool" where
  "is_power_of_two w \<longleftrightarrow> w \<noteq> 0 \<and> w AND (w - 1) = 0"

definition align_down :: "nat \<Rightarrow> nat \<Rightarrow> nat res" where
  "align_down addr al =
     bind_res (assert_res (is_power_of_two (of_nat al))) (\<lambda>_.
     Inr (unat (of_nat addr AND NOT (of_nat al - 1) :: u64)))"

definition entry_align_up :: "nat \<Rightarrow> nat \<Rightarrow> nat res" where
  "entry_align_up addr al =
     bind_res (assert_res (is_power_of_two (of_nat al))) (\<lambda>_. usize_next_multiple_of addr al)"

definition map_section ::
  "linker \<Rightarrow> nat \<Rightarrow> nat \<Rightarrow> nat \<Rightarrow> pte \<Rightarrow> 'z kmem_scheme \<Rightarrow> 'z kmem_scheme res"
where
  "map_section L root start stop bits s =
     bind_res (align_down start PAGE_SIZE) (\<lambda>a.
     bind_res (entry_align_up stop PAGE_SIZE) (\<lambda>b.
     id_map_range L root a b bits s))"

definition rx_flags :: pte where "rx_flags = READ OR EXECUTE OR ACCESSED"
definition ro_flags :: pte where "ro_flags = READ OR ACCESSED"
definition rw_flags :: pte where "rw_flags = READ OR WRITE OR ACCESSED OR DIRTY"

definition kernel_sections :: "linker \<Rightarrow> nat \<Rightarrow> (nat \<times> nat \<times> pte) list" where
  "kernel_sections L uart_base =
     [(text_start L, text_end L, rx_flags),
      (rodata_start L, rodata_end L, ro_flags),
      (data_start L, data_end L, rw_flags),
      (bss_start L, bss_end L, rw_flags),
      (stack_start L, stack_end L, rw_flags),
      (heap_start L, memory_end L, rw_flags),
      (uart_base, uart_base + PAGE_SIZE, rw_flags),
      (MMIO_VIRTIO_START, MMIO_VIRTIO_END + MMIO_VIRTIO_STRIDE, rw_flags)]"

definition map_kernel :: "linker \<Rightarrow> nat \<Rightarrow> 'z kmem_scheme \<Rightarrow> 'z kmem_scheme res" where
  "map_kernel L root s =
     bind_res (align_down UART_BASE PAGE_SIZE) (\<lambda>uart_base.
     fold_res (\<lambda>(a, b, bits). map_section L root a b bits) (kernel_sections L uart_base) s)"

section \<open>Machine mode\<close>

definition route_irq ::
  "'d bus \<Rightarrow> u32 \<Rightarrow> ('d, 'z) vio_state_scheme \<Rightarrow> ('d, 'z) vio_state_scheme res"
where
  "route_irq B src s = bind_res (plic_enable B src s) (\<lambda>s1. Inr (plic_set_priority B src 1 s1))"

definition setup_devices ::
  "linker \<Rightarrow> 'd soc \<Rightarrow> nat \<Rightarrow> ('d, 'z) vio_state_scheme \<Rightarrow> ('d, 'z) vio_state_scheme res"
where
  "setup_devices L M fuel s =
     bind_res (route_irq (bus.truncate M) UART0_IRQ (plic_set_threshold (bus.truncate M) 0 s)) (\<lambda>s1.
     bind_res (probe L M fuel s1) (\<lambda>s2.
     bind_res (configured_irqs s2) (\<lambda>irqs.
     fold_res (route_irq (bus.truncate M)) (List.map_filter id irqs) s2)))"

definition kinit ::
  "linker \<Rightarrow> 'd soc \<Rightarrow> nat \<Rightarrow> ('d, 'z) trap_state_scheme \<Rightarrow> (mret_csrs \<times> ('d, 'z) trap_state_scheme) res"
where
  "kinit L M fuel s =
     bind_res (println M fuel [] (s\<lparr>hw := uart_init M UART_BASE (hw s)\<rparr>)) (\<lambda>s1.
     bind_res (println M fuel (bytes ''vesper booted successfully!'') s1) (\<lambda>s2.
     bind_res (init L s2) (\<lambda>s3.
     bind_res (zallocate L 1 s3) (\<lambda>(root_page, s4).
     case root_page of
       None \<Rightarrow> Inl UnwrapNone
     | Some root \<Rightarrow>
         bind_res (map_kernel L root s4) (\<lambda>s5.
         let satp_val = make_satp_sv39 (of_nat root) in
         bind_res (install L satp_val s5) (\<lambda>s6.
         bind_res (setup_devices L M fuel s6) (\<lambda>s7.
         bind_res (enable_interrupts M s7) (\<lambda>s8.
         Inr (enter_sv39 satp_val At_skmain, s8)))))))))"

section \<open>Formatting\<close>

text \<open>The derived \<open>Debug\<close> of the error types.\<close>

definition debug_FsError :: "FsError \<Rightarrow> u8 list" where
  "debug_FsError e =
     bytes (case e of FsError.BadMagic \<Rightarrow> ''BadMagic'' | BlockReadFailed \<Rightarrow> ''BlockReadFailed''
            | FsError.OutOfMemory \<Rightarrow> ''OutOfMemory'' | InodeOutOfRange \<Rightarrow> ''InodeOutOfRange''
            | BufferTooSmall \<Rightarrow> ''BufferTooSmall'')"

definition debug_ElfError :: "ElfError \<Rightarrow> u8 list" where
  "debug_ElfError e =
     bytes (case e of ElfError.BadMagic \<Rightarrow> ''BadMagic'' | NotRiscv \<Rightarrow> ''NotRiscv''
            | NotExecutable \<Rightarrow> ''NotExecutable'' | Truncated \<Rightarrow> ''Truncated'')"

section \<open>The self tests\<close>

definition ELF_TEST_INODE :: u32 where "ELF_TEST_INODE = 0"
definition ELF_TEST_MAX_SIZE :: nat where "ELF_TEST_MAX_SIZE = 64 * 1024"

definition dir_line :: "DirEntry \<Rightarrow> u8 list" where
  "dir_line de =
     bytes ''    inode '' @ pad_left 32 4 (dec (unat (de_inode de))) @ bytes ''  '' @ name_str de"

definition print_entry ::
  "'d soc \<Rightarrow> nat \<Rightarrow> nat \<Rightarrow> nat \<Rightarrow> ('d, 'z) vio_state_scheme \<Rightarrow> ('d, 'z) vio_state_scheme res"
where
  "print_entry M fuel buf i s =
     (let de = read_DirEntry (mem s) (buf + i * DIRENT_SIZE) in
      if de_inode de = 0 then Inr s else println M fuel (dir_line de) s)"

definition list_dir ::
  "linker \<Rightarrow> 'd soc \<Rightarrow> nat \<Rightarrow> Fs \<Rightarrow> Inode \<Rightarrow> ('d, 'z) vio_state_scheme \<Rightarrow> ('d, 'z) vio_state_scheme res"
where
  "list_dir L M fuel f dir s =
     bind_res (zallocate L 1 s) (\<lambda>(buf_pages, s1).
     case buf_pages of
       None \<Rightarrow> Inl UnwrapNone
     | Some buf \<Rightarrow>
         bind_res (read_file L (bus.truncate M) fuel f dir 0 buf BLOCK_SIZE s1) (\<lambda>(r, s2).
         case r of
           Inl e \<Rightarrow>
             bind_res (println M fuel (bytes ''  list_dir failed: '' @ debug_FsError e) s2) (\<lambda>s3.
             deallocate L buf s3)
         | Inr n \<Rightarrow>
             let entries = n div DIRENT_SIZE in
             bind_res (println M fuel (bytes ''  /  ('' @ dec entries @ bytes '' entries):'') s2) (\<lambda>s3.
             bind_res (fold_res (print_entry M fuel buf) [0..<entries] s3) (\<lambda>s4.
             deallocate L buf s4))))"

definition ph_line :: "nat \<Rightarrow> ProgramHeader \<Rightarrow> u8 list" where
  "ph_line i ph =
     bytes ''    PH#'' @ dec i @ bytes '': vaddr=0x'' @ hex (unat (vaddr ph)) @ bytes '' filesz='' @
     dec (unat (filesz ph)) @ bytes '' memsz='' @ dec (unat (memsz ph)) @ bytes '' flags=0x'' @
     hex (unat (ProgramHeader.flags ph))"

definition print_segments ::
  "'d soc \<Rightarrow> nat \<Rightarrow> ProgramHeader res list \<Rightarrow> ('d, 'z) vio_state_scheme \<Rightarrow> ('d, 'z) vio_state_scheme res"
where
  "print_segments M fuel phs s =
     fold_res (\<lambda>(i, r) s. bind_res r (\<lambda>ph.
         if seg_type ph \<noteq> PT_LOAD then Inr s else println M fuel (ph_line i ph) s))
       (List.enumerate 0 phs) s"

definition test_elf ::
  "linker \<Rightarrow> 'd soc \<Rightarrow> nat \<Rightarrow> Fs \<Rightarrow> ('d, 'z) vio_state_scheme \<Rightarrow> ('d, 'z) vio_state_scheme res"
where
  "test_elf L M fuel f s =
     bind_res (println M fuel (bytes ''  loading ELF at inode '' @ dec (unat ELF_TEST_INODE) @ bytes ''...'') s) (\<lambda>s1.
     bind_res (read_inode L (bus.truncate M) fuel f ELF_TEST_INODE s1) (\<lambda>(r, s2).
     case r of
       Inl e \<Rightarrow> println M fuel (bytes ''    read inode failed: '' @ debug_FsError e) s2
     | Inr inode \<Rightarrow>
         let want = min (unat (isize inode)) ELF_TEST_MAX_SIZE in
         bind_res (zallocate L (div_ceil want PAGE_SIZE) s2) (\<lambda>(p, s3).
         case p of
           None \<Rightarrow> println M fuel (bytes ''    OOM allocating ELF buffer'') s3
         | Some buf \<Rightarrow>
             bind_res (read_file L (bus.truncate M) fuel f inode 0 buf want s3) (\<lambda>(r, s4).
             bind_res
               (case r of
                  Inl e \<Rightarrow> println M fuel (bytes ''    read_file failed: '' @ debug_FsError e) s4
                | Inr got \<Rightarrow>
                    if got \<noteq> want then
                      println M fuel (bytes ''    short read: wanted '' @ dec want @ bytes '' got '' @ dec got) s4
                    else
                      let img = rd_bytes (mem s4) buf got in
                      bind_res (parse buf img) (\<lambda>q.
                      case q of
                        Inl e \<Rightarrow> println M fuel (bytes ''    elf parse: '' @ debug_ElfError e) s4
                      | Inr hdr \<Rightarrow>
                          bind_res (println M fuel (bytes ''    ELF ok: entry=0x'' @ hex (unat (entry_addr hdr)) @
                              bytes '' phnum='' @ dec (unat (phnum hdr)) @ bytes '' machine=0x'' @
                              hex (unat (machine hdr))) s4) (\<lambda>s5.
                          print_segments M fuel (program_headers buf img hdr) s5)))
               (\<lambda>s6. deallocate L buf s6)))))"

definition mount_failed_line :: "FsError \<Rightarrow> u8 list" where
  "mount_failed_line e =
     (if e = FsError.BadMagic
      then bytes ''  no Minix 3 filesystem (magic mismatch). Format with `mkfs.minix -3` to test.''
      else bytes ''  mount failed: '' @ debug_FsError e)"

definition superblock_line :: "SuperBlock \<Rightarrow> u8 list" where
  "superblock_line b =
     bytes ''  superblock: ninodes='' @ dec (unat (ninodes b)) @ bytes '' zones='' @ dec (unat (sb_zones b)) @
     bytes '' block_size='' @ dec (unat (block_size b)) @ bytes '' first_data_zone='' @ dec (unat (first_data_zone b))"

definition root_line :: "Inode \<Rightarrow> u8 list" where
  "root_line root =
     bytes ''  root inode: mode=0o'' @ oct (unat (mode root)) @ bytes '' size='' @ dec (unat (isize root)) @
     bytes '' zones[0]='' @ dec (unat (zones root ! 0))"

text \<open>What \<open>test_minix3\<close> does with a root inode, and with a mounted filesystem.\<close>

definition show_root ::
  "linker \<Rightarrow> 'd soc \<Rightarrow> nat \<Rightarrow> Fs \<Rightarrow> Inode \<Rightarrow> ('d, 'z) vio_state_scheme \<Rightarrow> ('d, 'z) vio_state_scheme res"
where
  "show_root L M fuel f root s =
     bind_res (println M fuel (root_line root) s) (\<lambda>s1.
     if \<not> is_dir root then println M fuel (bytes ''  root inode is not a directory; aborting'') s1
     else bind_res (list_dir L M fuel f root s1) (\<lambda>s2.
          if ELF_TEST_INODE \<noteq> 0 then test_elf L M fuel f s2 else Inr s2))"

definition show_fs ::
  "linker \<Rightarrow> 'd soc \<Rightarrow> nat \<Rightarrow> Fs \<Rightarrow> ('d, 'z) vio_state_scheme \<Rightarrow> ('d, 'z) vio_state_scheme res"
where
  "show_fs L M fuel f s =
     bind_res (println M fuel (superblock_line (sb f)) s) (\<lambda>s1.
     bind_res (read_inode L (bus.truncate M) fuel f ROOT_INODE s1) (\<lambda>(r, s2).
     case r of
       Inl e \<Rightarrow> println M fuel (bytes ''  read root inode failed: '' @ debug_FsError e) s2
     | Inr root \<Rightarrow> show_root L M fuel f root s2))"

definition test_minix3 ::
  "linker \<Rightarrow> 'd soc \<Rightarrow> nat \<Rightarrow> ('d, 'z) vio_state_scheme \<Rightarrow> ('d, 'z) vio_state_scheme res"
where
  "test_minix3 L M fuel s =
     (case first_block_device s of
        None \<Rightarrow> Inr s
      | Some d \<Rightarrow>
          bind_res (println M fuel [] s) (\<lambda>s1.
          bind_res (println M fuel (bytes ''Probing device '' @ dec d @ bytes '' for Minix 3 filesystem...'') s1) (\<lambda>s2.
          bind_res (mount L (bus.truncate M) fuel d s2) (\<lambda>(r, s3).
          case r of
            Inl e \<Rightarrow> println M fuel (mount_failed_line e) s3
          | Inr f \<Rightarrow> show_fs L M fuel f s3))))"

section \<open>Supervisor mode\<close>

definition dump_byte ::
  "'d soc \<Rightarrow> nat \<Rightarrow> nat \<Rightarrow> nat \<Rightarrow> ('d, 'z) vio_state_scheme \<Rightarrow> ('d, 'z) vio_state_scheme res"
where
  "dump_byte M fuel buf i s =
     bind_res (print M fuel (bytes '' '' @ pad_left 48 2 (hex (unat (mem s (buf + i))))) s) (\<lambda>s1.
     if (i + 1) mod 24 = 0 then println M fuel [] s1 else Inr s1)"

definition test_block ::
  "linker \<Rightarrow> 'd soc \<Rightarrow> nat \<Rightarrow> ('d, 'z) vio_state_scheme \<Rightarrow> ('d, 'z) vio_state_scheme res"
where
  "test_block L M fuel s =
     (case first_block_device s of
        None \<Rightarrow> println M fuel (bytes ''no block device discovered'') s
      | Some d \<Rightarrow>
          bind_res (allocate L 1 s) (\<lambda>(p, s1).
          case p of
            None \<Rightarrow> println M fuel (bytes ''failed to allocate test buffer'') s1
          | Some buf \<Rightarrow>
              bind_res (block_read L (bus.truncate M) fuel d buf 512 0 s1) (\<lambda>(ok, s2).
              bind_res (if ok then fold_res (dump_byte M fuel buf) [0..<48] s2
                        else println M fuel (bytes ''block read failed'') s2) (\<lambda>s3.
              deallocate L buf s3))))"

text \<open>
  \<open>skmain\<close> up to its idle loop, in two parts: the messages and self tests, and the spawn of init.
  The address of \<open>init_process\<close> is a parameter: the linker places it.
\<close>

definition self_tests ::
  "linker \<Rightarrow> 'd soc \<Rightarrow> nat \<Rightarrow> ('d, 'z) vio_state_scheme \<Rightarrow> ('d, 'z) vio_state_scheme res"
where
  "self_tests L M fuel s =
     bind_res (println M fuel [] s) (\<lambda>s1.
     bind_res (println M fuel (bytes ''paging enabled (Sv39), now in S-mode'') s1) (\<lambda>s2.
     bind_res (println M fuel (bytes ''interrupts enabled '' @ [0xe2, 0x80, 0x94] @ bytes '' type to echo:'') s2) (\<lambda>s3.
     bind_res (println M fuel (bytes ''Testing block driver.'') s3) (\<lambda>s4.
     bind_res (test_block L M fuel s4) (\<lambda>s5.
     bind_res (println M fuel (bytes ''Block driver done'') s5) (\<lambda>s6.
     test_minix3 L M fuel s6))))))"

definition skmain ::
  "linker \<Rightarrow> 'd soc \<Rightarrow> nat \<Rightarrow> u64 \<Rightarrow> ('d, 'z) trap_state_scheme \<Rightarrow> ('d, 'z) trap_state_scheme res"
where
  "skmain L M fuel init_process s =
     bind_res (self_tests L M fuel s) (\<lambda>s1.
     bind_res (spawn_kernel L (trap_stack_top s1) init_process s1) (\<lambda>(r, s2).
     case r of
       Inl _ \<Rightarrow> Inl UnwrapNone
     | Inr _ \<Rightarrow> println M fuel (bytes ''spawned init kernel thread, awaiting first timer tick'') s2))"

text \<open>One turn of the loop of \<open>init_process\<close>: the counter, and whether the system call is made.\<close>

definition init_process_step :: "u64 \<Rightarrow> u64 \<times> bool" where
  "init_process_step i = (let i1 = i + 1 in if i1 > 1000000 then (0, True) else (i1, False))"

section \<open>Clearing the BSS\<close>

lemma st64_zero: "st64 m a 0 x = (if a \<le> x \<and> x < a + 8 then 0 else m x)"
  by (auto simp: st64_def le_bytes_zero wr_bytes_def)

text \<open>
  The loop ends, clears the section and writes less than eight bytes behind it: these are the
  first bytes of the stack, which is empty then.
\<close>

lemma clear_bss_run:
  assumes "unat a0 mod 8 = 0" "unat a0 < unat a1" "unat a1 + 8 < 2 ^ 64" "unat a1 < unat a0 + 8 * fuel"
  shows "\<exists>m'. clear_bss fuel a0 a1 m = Inr m' \<and>
     (\<forall>x. m' x = (if unat a0 \<le> x \<and> x < next_multiple (unat a1) 8 then 0 else m x))"
  using assms
proof (induction fuel arbitrary: a0 m)
  case (Suc n)
  let ?m = "st64 m (unat a0) 0"
  have u: "unat (a0 + 8) = unat a0 + 8" using Suc.prems(2,3) by (simp add: unat_word_ariths)
  have up: "unat a1 \<le> next_multiple (unat a1) 8" by (rule next_multiple_ge)
  show ?case
  proof (cases "a0 + 8 < a1")
    case True
    then have lt: "unat a0 + 8 < unat a1" by (simp add: word_less_nat_alt u)
    have "\<exists>m'. clear_bss n (a0 + 8) a1 ?m = Inr m' \<and>
        (\<forall>x. m' x = (if unat (a0 + 8) \<le> x \<and> x < next_multiple (unat a1) 8 then 0 else ?m x))"
      by (rule Suc.IH) (use Suc.prems lt in \<open>simp_all add: u\<close>)
    then show ?thesis using True Suc.prems(1) lt up by (auto simp: u st64_zero)
  next
    case False
    then have "unat a1 \<le> unat a0 + 8" by (simp add: word_less_nat_alt u not_less)
    obtain k j where k: "unat a0 = 8 * k" "next_multiple (unat a1) 8 = 8 * j"
      using Suc.prems(1) next_multiple_dvd [of 8 "unat a1"] by (auto elim!: dvdE simp: mod_eq_0_iff_dvd)
    moreover have "next_multiple (unat a1) 8 \<le> unat a0 + 8"
      using \<open>unat a1 \<le> unat a0 + 8\<close> k(1) by (intro next_multiple_least) auto
    ultimately have "8 * k < 8 * j" "8 * j \<le> 8 * k + 8" using up Suc.prems(2) by simp_all
    then have "j = k + 1" by presburger
    then have "next_multiple (unat a1) 8 = unat a0 + 8" using k by simp
    then show ?thesis using False Suc.prems(1) by (simp add: Let_def st64_zero)
  qed
qed simp

lemma start_hart_clears:
  assumes "lds_ok L" "bss_start L mod 8 = 0" "bss_end L < bss_start L + 8 * fuel"
  shows "\<exists>h m'. start_hart L fuel 0 m = Inr (h, m') \<and> csr_mepc h = At_kinit \<and> reg_sp h = of_nat (stack_end L) \<and>
     (\<forall>x. bss_start L \<le> x \<and> x < bss_end L \<longrightarrow> m' x = 0) \<and>
     (\<forall>x. x < bss_start L \<or> next_multiple (bss_end L) 8 \<le> x \<longrightarrow> m' x = m x)"
proof -
  have b: "bss_end L \<le> 0x88000000" "bss_start L \<le> bss_end L"
    using assms(1) by (simp_all add: lds_ok_def ram_origin_def ram_length_def)
  then have u: "unat (of_nat (bss_start L) :: u64) = bss_start L" "unat (of_nat (bss_end L) :: u64) = bss_end L"
    by (simp_all add: unat_of_nat)
  show ?thesis
  proof (cases "bss_start L < bss_end L")
    case True
    obtain m' where "clear_bss fuel (of_nat (bss_start L)) (of_nat (bss_end L)) m = Inr m'"
      "\<forall>x. m' x = (if bss_start L \<le> x \<and> x < next_multiple (bss_end L) 8 then 0 else m x)"
      using clear_bss_run [of "of_nat (bss_start L)" "of_nat (bss_end L)" fuel m] assms(2,3) b True unfolding u by auto
    then show ?thesis using True next_multiple_ge [of "bss_end L" 8]
      by (auto simp: start_hart_def Let_def word_le_nat_alt u)
  next
    case False
    then show ?thesis using b by (auto simp: start_hart_def Let_def word_le_nat_alt u)
  qed
qed

end
