(* ===== verification/Probe.thy ===== *)
theory Probe
  imports BlockIO Discovery
begin

text \<open>
  Device discovery: what \<open>setup_block_device\<close> and \<open>probe\<close> leave behind, for every behaviour of
  the hardware. \<open>quiet\<close> relates states that differ only in the device and the fault flag;
  \<open>settles\<close> is the contract of the setup, proved step by step along its early returns;
  \<open>registry_inv\<close> is the invariant of the device tables that \<open>probe\<close> establishes.
\<close>

section \<open>Register accesses leave the kernel's state alone\<close>

definition quiet :: "('d, 'z) vio_state_scheme \<Rightarrow> ('d, 'z) vio_state_scheme \<Rightarrow> bool" where
  "quiet s s' \<longleftrightarrow>
     mem s' = mem s \<and> ALLOC_START s' = ALLOC_START s \<and> slots s' = slots s \<and> current s' = current s \<and>
     NEXT_PID s' = NEXT_PID s \<and> BLOCK_DEVICES s' = BLOCK_DEVICES s \<and> VIRTIO_DEVICES s' = VIRTIO_DEVICES s \<and>
     vio_state.more s' = vio_state.more s"

lemma quiet_refl [simp]: "quiet s s"
  by (simp add: quiet_def)

lemma quiet_trans: "quiet s s' \<Longrightarrow> quiet s' s'' \<Longrightarrow> quiet s s''"
  by (simp add: quiet_def)

lemma mmio_write32_quiet: "mmio_write32 B ptr off v s = (ok, s') \<Longrightarrow> quiet s s'"
  by (auto simp: mmio_write32_def write_volatile32_def clear_access_fault_def take_access_fault_def
      access_fault_trap_def Let_def quiet_def split: prod.splits if_splits)

lemma mmio_read32_quiet: "mmio_read32 B ptr off s = (r, s') \<Longrightarrow> quiet s s'"
  by (auto simp: mmio_read32_def read_volatile32_def clear_access_fault_def take_access_fault_def
      access_fault_trap_def Let_def quiet_def split: prod.splits if_splits)

lemma bus_mmio_read32_quiet: "bus_mmio_read32 B ptr off s = (r, s') \<Longrightarrow> quiet s s'"
  using mmio_read32_quiet [of B ptr off s] by (simp add: mmio_read32_def bus_mmio_read32_def)

lemma vio_more:
  "kmem.more s' = kmem.more s \<Longrightarrow> BLOCK_DEVICES s' = BLOCK_DEVICES s \<and> VIRTIO_DEVICES s' = VIRTIO_DEVICES s"
  by (cases s; cases s') simp

text \<open>A console that takes every string; a 16550 with a bound on its waits is one.\<close>

definition console_ok :: "'d soc \<Rightarrow> nat \<Rightarrow> bool" where
  "console_ok M fuel \<longleftrightarrow> (\<forall>bs d. \<exists>d'. write_str M fuel UART_BASE bs d = Inr d')"

lemma uart_console_ok: "uart_device M UART_BASE uv N \<Longrightarrow> N < fuel \<Longrightarrow> console_ok M fuel"
  unfolding console_ok_def using write_str_step [of M UART_BASE uv N fuel] by metis

lemma print_quiet:
  assumes "console_ok M fuel"
  shows "\<exists>s'. print M fuel bs s = Inr s' \<and> quiet s s'" "\<exists>s'. println M fuel bs s = Inr s' \<and> quiet s s'"
proof -
  show pr: "\<exists>s'. print M fuel bs s = Inr s' \<and> quiet s s'" for bs
  proof -
    obtain d where "write_str M fuel UART_BASE bs (hw s) = Inr d" using assms unfolding console_ok_def by blast
    then show ?thesis by (auto simp: print_def console_writer_def quiet_def)
  qed
  show "\<exists>s'. println M fuel bs s = Inr s' \<and> quiet s s'" unfolding println_def by (rule pr)
qed

section \<open>The contract of the setup\<close>

definition fresh_queue :: "nat \<Rightarrow> QueueState" where
  "fresh_queue b = QueueState_empty\<lparr>desc := b, avail := b + 128, used := b + 4096\<rparr>"

text \<open>The memory in use before is kept, with its contents.\<close>

definition keeps_held :: "linker \<Rightarrow> 'z kmem_scheme \<Rightarrow> 'z kmem_scheme \<Rightarrow> bool" where
  "keeps_held L s s' \<longleftrightarrow>
     frames_inv L s' \<and> held L s \<subseteq> held L s' \<and>
     (\<forall>c k x. (c, k) \<in> held L s \<longrightarrow> c \<le> x \<longrightarrow> x < c + k * PAGE_SIZE \<longrightarrow> mem s' x = mem s x)"

definition registered :: "linker \<Rightarrow> nat \<Rightarrow> nat \<Rightarrow> nat \<Rightarrow> bool \<Rightarrow>
    ('d, 'z) vio_state_scheme \<Rightarrow> ('d, 'z) vio_state_scheme \<Rightarrow> bool" where
  "registered L ptr slot b ro s s' \<longleftrightarrow>
     (b, 2) \<in> held L s' \<and> (b, 2) \<notin> held L s \<and> (\<forall>x. b \<le> x \<longrightarrow> x < b + 8192 \<longrightarrow> mem s' x = 0) \<and>
     BLOCK_DEVICES s' = (BLOCK_DEVICES s)[slot :=
        \<lparr>dev = ptr, queue = fresh_queue b, ack_used_idx = 0, read_only = ro\<rparr>] \<and>
     VIRTIO_DEVICES s' = (VIRTIO_DEVICES s)[slot := Some \<lparr>kind = Block\<rparr>]"

definition settles :: "linker \<Rightarrow> nat \<Rightarrow> nat \<Rightarrow> ('d, 'z) vio_state_scheme \<Rightarrow>
    (bool \<times> ('d, 'z) vio_state_scheme) res \<Rightarrow> bool" where
  "settles L ptr slot s r \<longleftrightarrow>
     (\<exists>ok s'. r = Inr (ok, s') \<and> keeps_held L s s' \<and>
        (\<not> ok \<and> BLOCK_DEVICES s' = BLOCK_DEVICES s \<and> VIRTIO_DEVICES s' = VIRTIO_DEVICES s \<or>
         (\<exists>b ro. registered L ptr slot b ro s s')))"

lemma quiet_keeps_held: "frames_inv L s \<Longrightarrow> quiet s s' \<Longrightarrow> keeps_held L s s'"
  by (simp add: keeps_held_def quiet_def held_def frames_inv_def descriptors_def)

lemma settles_stop: "frames_inv L s0 \<Longrightarrow> quiet s0 s \<Longrightarrow> settles L ptr slot s0 (Inr (False, s))"
  unfolding settles_def using quiet_keeps_held by (auto simp: quiet_def)

lemma settles_write:
  assumes "frames_inv L s0" "quiet s0 s" "\<And>s'. quiet s0 s' \<Longrightarrow> settles L ptr slot s0 (k s')"
  shows "settles L ptr slot s0 (try_write B a off v k s)"
  using assms mmio_write32_quiet [of B a off v s] quiet_trans [of s0 s] settles_stop [of L s0]
  by (auto simp: try_write_def split: prod.splits if_splits)

lemma settles_read:
  assumes "frames_inv L s0" "quiet s0 s" "\<And>v s'. quiet s0 s' \<Longrightarrow> settles L ptr slot s0 (k v s')"
  shows "settles L ptr slot s0 (try_read B a off k s)"
  using assms mmio_read32_quiet [of B a off s] quiet_trans [of s0 s] settles_stop [of L s0]
  by (auto simp: try_read_def split: prod.splits option.splits)

lemma settles_give_up:
  assumes c: "console_ok M fuel" and inv: "frames_inv L s0" and q: "quiet s0 s"
  shows "settles L ptr slot s0 (give_up M fuel msg a s)"
proof -
  obtain s1 where s1: "print M fuel (bytes msg) s = Inr s1" "quiet s s1" using print_quiet(1) [OF c] by blast
  obtain ok s2 where w: "mmio_write32 (bus.truncate M) a Status VIRTIO_FAILED s1 = (ok, s2)" by fastforce
  have "quiet s0 s2" using q s1(2) mmio_write32_quiet [OF w] quiet_trans by blast
  then show ?thesis using s1(1) w settles_stop [OF inv] by (simp add: give_up_def)
qed

lemma queue_geometry: "used_offset = 4096" "queue_pages = 2" "virtqueue_desc_bytes = 128"
  by (simp_all add: used_offset_def queue_pages_def align_up_def virtio_layout VIRTIO_RING_SIZE_def)

lemma settles_queue:
  assumes c: "console_ok M fuel" and inv: "frames_inv L s0" and q: "quiet s0 s" and slot: "slot < 8"
  shows "settles L ptr slot s0 (setup_queue L M fuel ptr slot ro bits s)"
proof -
  have invs: "frames_inv L s" and held: "held L s = held L s0"
    using quiet_keeps_held [OF inv q] q by (simp_all add: keeps_held_def held_def quiet_def descriptors_def)
  obtain r s1 where z: "zallocate L 2 s = Inr (r, s1)" using zallocate_total [OF invs, of 2] by auto
  show ?thesis
  proof (cases r)
    case None
    then have "s1 = s" using zallocate_None(1) [OF invs] z by simp
    with None z show ?thesis using settles_give_up [OF c inv q] by (simp add: setup_queue_def queue_geometry)
  next
    case (Some b)
    note za = zallocate_Some [OF invs z [unfolded Some]]
    define reg where "reg s2 = s2\<lparr>BLOCK_DEVICES := (BLOCK_DEVICES s2)[slot :=
         \<lparr>dev = ptr, queue = fresh_queue b, ack_used_idx = 0, read_only = ro\<rparr>],
       VIRTIO_DEVICES := (VIRTIO_DEVICES s2)[slot := Some \<lparr>kind = Block\<rparr>]\<rparr>" for s2 :: "('a, 'b) vio_state_scheme"
    have old: "b + 8192 \<le> c \<or> c + k * PAGE_SIZE \<le> b" if "(c, k) \<in> held L s0" for c k
      using held_disjoint [of b 2 L s1 c k] that za(2,3) held by auto
    have keep: "keeps_held L s0 s'" if "quiet s1 s'" for s'
    proof -
      have "mem s1 x = mem s0 x" if "(c, k) \<in> held L s0" "c \<le> x" "x < c + k * PAGE_SIZE" for c k x
        using old [OF that(1)] held_table_cases [OF invs, of c k x] that held q
        by (subst za(8)) (auto simp: quiet_def)
      with za(1,2) held quiet_keeps_held [OF za(1) that] that show ?thesis
        by (auto simp: keeps_held_def quiet_def)
    qed
    have more: "BLOCK_DEVICES s1 = BLOCK_DEVICES s0" "VIRTIO_DEVICES s1 = VIRTIO_DEVICES s0"
      using vio_more [OF za(6)] q by (simp_all add: quiet_def)
    have "settles L ptr slot s0 (try_write (bus.truncate M) ptr QueuePfn v (\<lambda>s2. try_write (bus.truncate M) ptr Status w (\<lambda>s5. Inr (True, s5)) (reg s2)) s1)" for v w
    proof -
      obtain ok2 s2 where w2: "mmio_write32 (bus.truncate M) ptr QueuePfn v s1 = (ok2, s2)" by fastforce
      obtain ok5 s5 where w5: "mmio_write32 (bus.truncate M) ptr Status w (reg s2) = (ok5, s5)" by fastforce
      note q2 = mmio_write32_quiet [OF w2] and q5 = mmio_write32_quiet [OF w5]
      have s5: "mem s5 = mem s1" "ALLOC_START s5 = ALLOC_START s1" using q2 q5 by (simp_all add: quiet_def reg_def)
      then have h5: "held L s5 = held L s1" "frames_inv L s5 = frames_inv L s1"
        by (simp_all add: held_def frames_inv_def descriptors_def)
      have "registered L ptr slot b ro s0 s5"
        using za(2,3,7) held more q2 q5 unfolding registered_def h5 s5
        by (simp add: quiet_def reg_def)
      moreover have "keeps_held L s0 s5" using keep [of s1] by (simp add: keeps_held_def h5 s5)
      ultimately show ?thesis using w2 w5 keep [OF q2] more q2
        by (auto simp: try_write_def settles_def quiet_def)
    qed
    then show ?thesis
      using Some z slot by (simp add: setup_queue_def queue_geometry reg_def fresh_queue_def Let_def MAX_VIRTIO_DEVICES_def)
  qed
qed

lemma setup_block_device_settles:
  assumes c: "console_ok M fuel" and inv: "frames_inv L s" and ptr: "ptr = MMIO_VIRTIO_START + slot * 4096" and slot: "slot < 8"
  shows "settles L ptr slot s (setup_block_device L M fuel ptr s)"
proof -
  have "dev_slot_from_ptr ptr = Inr slot"
    using slot by (simp add: dev_slot_from_ptr_def ptr usize_sub_def)
  then show ?thesis
    unfolding setup_block_device_def Let_def
    using inv slot by (auto intro!: settles_write settles_read settles_give_up [OF c] settles_queue [OF c])
qed

section \<open>The device tables\<close>

definition slot_ok :: "linker \<Rightarrow> ('d, 'z) vio_state_scheme \<Rightarrow> nat \<Rightarrow> bool" where
  "slot_ok L s i \<longleftrightarrow>
     dev (BLOCK_DEVICES s ! i) = MMIO_VIRTIO_START + i * 4096 \<and> (queue_at s i, 2) \<in> held L s \<and>
     idle_dev (mem s) (queue_at s i) (BLOCK_DEVICES s ! i)"

definition registry_inv :: "linker \<Rightarrow> ('d, 'z) vio_state_scheme \<Rightarrow> bool" where
  "registry_inv L s \<longleftrightarrow>
     frames_inv L s \<and> length (BLOCK_DEVICES s) = 8 \<and> length (VIRTIO_DEVICES s) = 8 \<and>
     (\<forall>i < 8. dev (BLOCK_DEVICES s ! i) \<noteq> 0 \<longrightarrow> slot_ok L s i) \<and>
     (\<forall>i < 8. \<forall>j < 8. i \<noteq> j \<longrightarrow> dev (BLOCK_DEVICES s ! i) \<noteq> 0 \<longrightarrow> dev (BLOCK_DEVICES s ! j) \<noteq> 0 \<longrightarrow>
        queue_at s i \<noteq> queue_at s j)"

lemma slot_ok_kept:
  assumes ok: "slot_ok L s i" and kh: "keeps_held L s s'" and bd: "BLOCK_DEVICES s' ! i = BLOCK_DEVICES s ! i"
  shows "slot_ok L s' i"
proof -
  have q: "queue_at s' i = queue_at s i" by (simp add: queue_at_def bd)
  have h: "(queue_at s i, 2) \<in> held L s" using ok by (simp add: slot_ok_def)
  then have "agree (mem s') (mem s) (queue_at s i) 8192"
    using kh by (intro agreeI) (auto simp: keeps_held_def)
  from agree_ld(1) [OF this, of "queue_at s i + 4096 + 2"] ok h kh show ?thesis
    by (auto simp: slot_ok_def q bd idle_dev_def used_idx_addr_def keeps_held_def)
qed

lemma registered_slot_ok:
  assumes reg: "registered L (MMIO_VIRTIO_START + i * 4096) i b ro s s'" and i: "i < length (BLOCK_DEVICES s)"
  shows "slot_ok L s' i" "queue_at s' i = b"
proof -
  have bd: "BLOCK_DEVICES s' ! i =
      \<lparr>dev = MMIO_VIRTIO_START + i * 4096, queue = fresh_queue b, ack_used_idx = 0, read_only = ro\<rparr>"
    using reg i by (simp add: registered_def)
  show q: "queue_at s' i = b" by (simp add: queue_at_def bd fresh_queue_def)
  have "ld16 (mem s') (b + 4096 + 2) = 0" using reg by (intro zero_ld16) (auto simp: registered_def)
  moreover have "(b, 2) \<in> held L s'" using reg by (simp add: registered_def)
  ultimately show "slot_ok L s' i"
    by (simp add: slot_ok_def q bd idle_dev_def fresh_queue_def QueueState_empty_def VIRTIO_RING_SIZE_def
        MMIO_VIRTIO_START_def used_idx_addr_def)
qed

lemma registry_one:
  assumes "frames_inv L s" "length (BLOCK_DEVICES s) = 8" "length (VIRTIO_DEVICES s) = 8" "slot_ok L s 0"
    "\<And>i. 0 < i \<Longrightarrow> i < 8 \<Longrightarrow> dev (BLOCK_DEVICES s ! i) = 0"
  shows "registry_inv L s"
  unfolding registry_inv_def using assms by (metis gr0I)

lemma registry_quiet: "registry_inv L s \<Longrightarrow> quiet s s' \<Longrightarrow> registry_inv L s'"
  by (simp add: registry_inv_def slot_ok_def queue_at_def quiet_def frames_inv_def held_def descriptors_def)

lemma registry_registered:
  assumes inv: "registry_inv L s" and kh: "keeps_held L s s'" and i: "i < 8"
    and reg: "registered L (MMIO_VIRTIO_START + i * 4096) i b ro s s'"
  shows "registry_inv L s'"
proof -
  have len: "length (BLOCK_DEVICES s) = 8" using inv by (simp add: registry_inv_def)
  have bd: "BLOCK_DEVICES s' ! j = BLOCK_DEVICES s ! j" if "j \<noteq> i" for j
    using reg that by (simp add: registered_def)
  have q: "queue_at s' j = queue_at s j" if "j \<noteq> i" for j using bd [OF that] by (simp add: queue_at_def)
  note new = registered_slot_ok [OF reg] len i
  have old: "slot_ok L s j" if "j < 8" "j \<noteq> i" "dev (BLOCK_DEVICES s' ! j) \<noteq> 0" for j
    using inv that bd by (simp add: registry_inv_def)
  have "slot_ok L s' j" if "j < 8" "dev (BLOCK_DEVICES s' ! j) \<noteq> 0" for j
    using that new old slot_ok_kept [OF _ kh bd] by (cases "j = i") auto
  moreover have "queue_at s' j \<noteq> queue_at s' k"
    if jk: "j < 8" "k < 8" "j \<noteq> k" "dev (BLOCK_DEVICES s' ! j) \<noteq> 0" "dev (BLOCK_DEVICES s' ! k) \<noteq> 0" for j k
  proof -
    have nb: "queue_at s l \<noteq> b" if "l < 8" "l \<noteq> i" "dev (BLOCK_DEVICES s' ! l) \<noteq> 0" for l
      using old [OF that] reg by (auto simp: slot_ok_def registered_def)
    have "queue_at s j \<noteq> queue_at s k" if "j \<noteq> i" "k \<noteq> i"
      using inv jk that bd by (simp add: registry_inv_def)
    then show ?thesis using jk new q nb [of j] nb [of k] by (cases "j = i"; cases "k = i") auto
  qed
  moreover have "frames_inv L s'" "length (BLOCK_DEVICES s') = 8" "length (VIRTIO_DEVICES s') = 8"
    using kh reg inv by (simp_all add: keeps_held_def registered_def registry_inv_def)
  ultimately show ?thesis by (simp add: registry_inv_def)
qed

lemma keeps_held_trans: "keeps_held L s s' \<Longrightarrow> keeps_held L s' s'' \<Longrightarrow> keeps_held L s s''"
  unfolding keeps_held_def by (metis subset_iff)

lemma registry_register:
  assumes inv: "registry_inv L s" and i: "i < 8"
  shows "\<exists>s'. register_device k (MMIO_VIRTIO_START + i * 4096) s = Inr s' \<and> registry_inv L s' \<and> keeps_held L s s'"
proof -
  have "dev_slot_from_ptr (MMIO_VIRTIO_START + i * 4096) = Inr i"
    using i by (simp add: dev_slot_from_ptr_def usize_sub_def)
  with i inv show ?thesis
    by (simp add: register_device_def MAX_VIRTIO_DEVICES_def registry_inv_def slot_ok_def queue_at_def
        keeps_held_def frames_inv_def held_def descriptors_def)
qed

text \<open>The steps of \<open>probe_one\<close> keep the tables in order and the memory in use; so does what follows them.\<close>

definition fine :: "linker \<Rightarrow> ('d, 'z) vio_state_scheme \<Rightarrow> ('d, 'z) vio_state_scheme \<Rightarrow> bool" where
  "fine L s t \<longleftrightarrow> registry_inv L t \<and> keeps_held L s t"

lemma fine_quiet: "fine L s t \<Longrightarrow> quiet t t' \<Longrightarrow> fine L s t'"
  unfolding fine_def using registry_quiet quiet_keeps_held keeps_held_trans by (metis registry_inv_def)

lemma fine_print:
  assumes "console_ok M fuel" "fine L s t"
  shows "\<exists>t'. println M fuel bs t = Inr t' \<and> fine L s t'"
    "(\<And>t'. fine L s t' \<Longrightarrow> \<exists>u. k t' = Inr u \<and> fine L s u) \<Longrightarrow> \<exists>u. bind_res (print M fuel bs t) k = Inr u \<and> fine L s u"
  using print_quiet [OF assms(1), of bs t] fine_quiet [OF assms(2)] by fastforce+

lemma fine_setup:
  assumes c: "console_ok M fuel" and f: "fine L s t" and i: "i < 8"
  shows "\<exists>ok t'. setup_block_device L M fuel (MMIO_VIRTIO_START + i * 4096) t = Inr (ok, t') \<and> fine L s t'"
proof -
  let ?ptr = "MMIO_VIRTIO_START + i * 4096"
  have t: "registry_inv L t" "keeps_held L s t" "frames_inv L t" using f by (simp_all add: fine_def registry_inv_def)
  obtain ok t' where st: "setup_block_device L M fuel ?ptr t = Inr (ok, t')" "keeps_held L t t'"
    "BLOCK_DEVICES t' = BLOCK_DEVICES t \<and> VIRTIO_DEVICES t' = VIRTIO_DEVICES t \<or>
      (\<exists>b ro. registered L ?ptr i b ro t t')"
    using setup_block_device_settles [OF c t(3) refl i] unfolding settles_def by blast
  have "registry_inv L t'"
    using st(3)
  proof (elim disjE exE)
    assume "BLOCK_DEVICES t' = BLOCK_DEVICES t \<and> VIRTIO_DEVICES t' = VIRTIO_DEVICES t"
    then show ?thesis
      using t(1) st(2) slot_ok_kept [OF _ st(2)] by (simp add: registry_inv_def keeps_held_def queue_at_def)
  qed (rule registry_registered [OF t(1) st(2) i])
  then show ?thesis using st(1) keeps_held_trans [OF t(2) st(2)] by (auto simp: fine_def)
qed

lemma fine_register:
  assumes "fine L s t" "i < 8"
  shows "\<exists>t'. register_device k (MMIO_VIRTIO_START + i * 4096) t = Inr t' \<and> fine L s t'"
  using registry_register [of L t i k] assms keeps_held_trans unfolding fine_def by blast

lemma probe_one_registry:
  assumes c: "console_ok M fuel" and f: "fine L s t" and i: "i < 8"
  shows "\<exists>t'. probe_one L M fuel (MMIO_VIRTIO_START + i * 4096) t = Inr t' \<and> fine L s t'"
  unfolding probe_one_def
proof (rule fine_print(2) [OF c f])
  let ?ptr = "MMIO_VIRTIO_START + i * 4096" and ?B = "bus.truncate M"
  fix t0 assume f0: "fine L s t0"
  obtain r1 t1 where m: "bus_mmio_read32 ?B ?ptr MagicValue t0 = (r1, t1)" by fastforce
  obtain r2 t2 where d: "bus_mmio_read32 ?B ?ptr DeviceId t1 = (r2, t2)" by fastforce
  have f1: "fine L s t1" by (rule fine_quiet [OF f0 bus_mmio_read32_quiet [OF m]])
  have f2: "fine L s t2" by (rule fine_quiet [OF f1 bus_mmio_read32_quiet [OF d]])
  have block: "\<exists>u. bind_res (print M fuel b1 t2) (\<lambda>s3. bind_res (setup_block_device L M fuel ?ptr s3) (\<lambda>(ok, s4).
      println M fuel (b2 ok) s4)) = Inr u \<and> fine L s u" for b1 b2
  proof (rule fine_print(2) [OF c f2])
    fix t3 assume "fine L s t3"
    then obtain ok t4 where "setup_block_device L M fuel ?ptr t3 = Inr (ok, t4)" "fine L s t4" using fine_setup [OF c _ i] by blast
    then show "\<exists>u. bind_res (setup_block_device L M fuel ?ptr t3) (\<lambda>(ok, s4). println M fuel (b2 ok) s4) = Inr u \<and> fine L s u"
      using fine_print(1) [OF c] by simp
  qed
  have reg: "\<exists>u. bind_res (register_device k ?ptr t3) (\<lambda>s4. println M fuel b s4) = Inr u \<and> fine L s u" if f3: "fine L s t3" for k b t3
  proof -
    obtain t4 where "register_device k ?ptr t3 = Inr t4" "fine L s t4" using fine_register [OF f3 i] by blast
    then show ?thesis using fine_print(1) [OF c] by simp
  qed
  note say = fine_print(1) [OF c f1] fine_print(1) [OF c f2] and entropy = fine_print(2) [OF c f2 reg] and unknown = reg [OF f2]
  show "\<exists>u. (case bus_mmio_read32 ?B ?ptr MagicValue t0 of
       (None, s1) \<Rightarrow> println M fuel (bytes ''fault.'') s1
     | (Some magicvalue, s1) \<Rightarrow>
         if magicvalue \<noteq> MMIO_VIRTIO_MAGIC then println M fuel (bytes ''not virtio.'') s1
         else case bus_mmio_read32 ?B ?ptr DeviceId s1 of
                (None, s2) \<Rightarrow> println M fuel (bytes ''fault.'') s2
              | (Some deviceid, s2) \<Rightarrow>
                  if deviceid = 0 then println M fuel (bytes ''not connected.'') s2
                  else if deviceid = VIRTIO_DEVICE_BLOCK then
                    bind_res (print M fuel (bytes ''block device...'') s2) (\<lambda>s3.
                    bind_res (setup_block_device L M fuel ?ptr s3) (\<lambda>(ok, s4).
                    println M fuel (bytes (if ok then ''setup succeeded!'' else ''setup failed.'')) s4))
                  else if deviceid = VIRTIO_DEVICE_ENTROPY then
                    bind_res (print M fuel (bytes ''entropy device...'') s2) (\<lambda>s3.
                    bind_res (register_entropy_device ?ptr s3) (\<lambda>s4.
                    println M fuel (bytes ''discovered.'') s4))
                  else
                    bind_res (register_unknown_device ?ptr s2) (\<lambda>s3.
                    println M fuel (bytes ''unknown device type '' @ dec (unat deviceid) @ bytes ''.'') s3)) = Inr u \<and> fine L s u"
    unfolding m register_entropy_device_def register_unknown_device_def
    using d say block entropy unknown by (simp split: option.split)
qed

lemma probe_registers_run:
  assumes c: "console_ok M fuel" and inv: "registry_inv L s"
  shows "\<exists>s'. probe L M fuel s = Inr s' \<and> registry_inv L s' \<and> keeps_held L s s'"
proof -
  let ?xs = "map (\<lambda>k. MMIO_VIRTIO_START + k * MMIO_VIRTIO_STRIDE)
    [0..<(MMIO_VIRTIO_END - MMIO_VIRTIO_START) div MMIO_VIRTIO_STRIDE + 1]"
  have xs: "length ?xs = 8" "k < 8 \<Longrightarrow> ?xs ! k = MMIO_VIRTIO_START + k * 4096" for k
    by (simp_all add: MMIO_VIRTIO_END_def MMIO_VIRTIO_START_def MMIO_VIRTIO_STRIDE_def)
  have "\<exists>t. fold_res (probe_one L M fuel) ?xs s = Inr t \<and> fine L s t"
  proof (rule fold_res_invariant [where I = "\<lambda>_ t. fine L s t"])
    show "fine L s s" using inv by (simp add: fine_def keeps_held_def registry_inv_def)
    show "\<exists>t'. probe_one L M fuel (?xs ! k) t = Inr t' \<and> fine L s t'" if kl: "k < length ?xs" and f: "fine L s t" for k t
    proof -
      have k: "k < 8" using kl by (simp only: xs)
      show ?thesis unfolding xs(2) [OF k] by (rule probe_one_registry [OF c f k])
    qed
  qed
  then show ?thesis by (simp add: probe_def fine_def)
qed

lemma position_le: "i < length xs \<Longrightarrow> P (xs ! i) \<Longrightarrow> \<exists>j \<le> i. position P xs = Some j"
proof (induction xs arbitrary: i)
  case (Cons x xs)
  then show ?case by (cases i) fastforce+
qed simp

lemma collect_res_map:
  "(\<And>x. x \<in> set xs \<Longrightarrow> f x = Inr (g x)) \<Longrightarrow> collect_res (map f xs) = Inr (map g xs)"
  by (induction xs) simp_all

section \<open>A setup that fails at its last write\<close>

lemma scale32_val: "4 * scale32 reg = val reg"
  by (cases reg) (simp_all add: scale32_def scaled_def)

text \<open>Register accesses of which it is known whether they fault, inside the setup.\<close>

lemma try_write_ok:
  assumes "\<And>d. fst (wr32 M (ptr + val reg) v d)" "quiet s0 s" "\<And>t. quiet s0 t \<Longrightarrow> G (k t)"
  shows "G (try_write (bus.truncate M) ptr reg v k s)"
proof -
  obtain ok t where w: "mmio_write32 (bus.truncate M) ptr reg v s = (ok, t)" by fastforce
  have "fst (wr32 M (ptr + val reg) v (hw s))" by (rule assms(1))
  with w have "ok" by (auto simp: mmio_write32_def write_volatile32_def clear_access_fault_def take_access_fault_def
      bus.truncate_def scale32_val Let_def split: prod.splits)
  with w assms(3) quiet_trans [OF assms(2) mmio_write32_quiet [OF w]] show ?thesis by (simp add: try_write_def)
qed

lemma try_write_fault:
  assumes "\<And>d. \<not> fst (wr32 M (ptr + val reg) v d)" "quiet s0 s" "\<And>t. quiet s0 t \<Longrightarrow> G (Inr (False, t))"
  shows "G (try_write (bus.truncate M) ptr reg v k s)"
proof -
  obtain ok t where w: "mmio_write32 (bus.truncate M) ptr reg v s = (ok, t)" by fastforce
  have "\<not> fst (wr32 M (ptr + val reg) v (hw s))" by (rule assms(1))
  with w have "\<not> ok" by (auto simp: mmio_write32_def write_volatile32_def clear_access_fault_def take_access_fault_def
      access_fault_trap_def bus.truncate_def scale32_val Let_def split: prod.splits)
  with w assms(3) quiet_trans [OF assms(2) mmio_write32_quiet [OF w]] show ?thesis by (simp add: try_write_def)
qed

lemma try_read_ok:
  assumes "\<And>d. fst (snd (rd32 M (ptr + val reg) d))" "\<And>d. Q (fst (rd32 M (ptr + val reg) d))" "quiet s0 s"
    "\<And>x t. quiet s0 t \<Longrightarrow> Q x \<Longrightarrow> G (k x t)"
  shows "G (try_read (bus.truncate M) ptr reg k s)"
proof -
  obtain r t where w: "mmio_read32 (bus.truncate M) ptr reg s = (r, t)" by fastforce
  have "fst (snd (rd32 M (ptr + val reg) (hw s)))" by (rule assms(1))
  with w have "r = Some (fst (rd32 M (ptr + val reg) (hw s)))"
    by (auto simp: mmio_read32_def read_volatile32_def clear_access_fault_def take_access_fault_def
      bus.truncate_def scale32_val Let_def split: prod.splits)
  with w assms(4) [OF quiet_trans [OF assms(3) mmio_read32_quiet [OF w]] assms(2)] show ?thesis by (simp add: try_read_def)
qed

text \<open>
  Hardware in whose window \<open>ptr\<close> a block device answers the setup as it should, but for the last
  step: every access succeeds except a write of \<open>DRIVER_OK\<close> to the status register.
\<close>

definition fails_last :: "'d soc \<Rightarrow> nat \<Rightarrow> bool" where
  "fails_last M ptr \<longleftrightarrow>
     (\<forall>reg d. fst (snd (rd32 M (ptr + val reg) d))) \<and>
     (\<forall>d. fst (rd32 M (ptr + val Status) d) AND VIRTIO_FEATURES_OK \<noteq> 0) \<and>
     (\<forall>d. of_nat VIRTIO_RING_SIZE \<le> fst (rd32 M (ptr + val QueueNumMax) d)) \<and>
     (\<forall>reg v d. fst (wr32 M (ptr + val reg) v d) \<longleftrightarrow> \<not> (reg = Status \<and> v AND VIRTIO_DRIVER_OK \<noteq> 0))"

lemma setup_fails_last:
  fixes s :: "('d, 'z) vio_state_scheme"
  assumes hw: "fails_last M (MMIO_VIRTIO_START + slot * 4096)" and inv: "registry_inv L s" and slot: "slot < 8"
    and room: "window_free (descriptors L s) j 2"
  shows "\<exists>t. setup_block_device L M fuel (MMIO_VIRTIO_START + slot * 4096) s = Inr (False, t) \<and>
     (\<exists>bd. BLOCK_DEVICES t = (BLOCK_DEVICES s)[slot := bd] \<and> dev bd = MMIO_VIRTIO_START + slot * 4096)"
proof -
  let ?ptr = "MMIO_VIRTIO_START + slot * 4096"
  let ?G = "\<lambda>r. \<exists>t. r = Inr (False, t) \<and> (\<exists>bd. BLOCK_DEVICES t = (BLOCK_DEVICES s)[slot := bd] \<and> dev bd = ?ptr)"
  have wr: "fst (wr32 M (?ptr + val reg) v d) \<longleftrightarrow> \<not> (reg = Status \<and> v AND VIRTIO_DRIVER_OK \<noteq> 0)" for reg v d
    using hw by (simp add: fails_last_def)
  have wok: "fst (wr32 M (?ptr + val reg) v d)" if "reg = Status \<Longrightarrow> v AND VIRTIO_DRIVER_OK = 0" for reg v d
    using that wr [of reg v d] by blast
  have rd: "fst (snd (rd32 M (?ptr + val reg) d))" for reg d using hw by (simp add: fails_last_def)
  note w = try_write_ok [where G = ?G] and r = try_read_ok [where G = ?G, OF rd]
  have branch: "?G (if c then x else y)" if "\<not> c" "?G y" for c and x y :: "(bool \<times> ('d, 'z) vio_state_scheme) res"
    using that by simp
  have dev_slot: "dev_slot_from_ptr ?ptr = Inr slot" using slot by (simp add: dev_slot_from_ptr_def usize_sub_def)
  have queue: "?G (setup_queue L M fuel ?ptr slot ro bits t)" if q: "quiet s t" and b: "(bits OR VIRTIO_DRIVER_OK) AND VIRTIO_DRIVER_OK \<noteq> 0" for ro bits t
  proof -
    have ds: "descriptors L t = descriptors L s" and fr: "frames_inv L t"
      using q inv by (simp_all add: quiet_def descriptors_def registry_inv_def frames_inv_def)
    have two: "0 < (2 :: nat)" by simp
    obtain b t1 where z: "zallocate L 2 t = Inr (Some b, t1)"
      using allocate_cases [OF fr two] room zallocate_Some_iff [OF fr, of 2] unfolding ds by metis
    have same: "BLOCK_DEVICES t1 = BLOCK_DEVICES s"
      using vio_more [OF zallocate_Some(6) [OF fr z]] q by (simp add: quiet_def)
    have last: "?G (try_write (bus.truncate M) ?ptr Status (bits OR VIRTIO_DRIVER_OK) k
        (t2\<lparr>BLOCK_DEVICES := (BLOCK_DEVICES t2)[slot := bd], VIRTIO_DEVICES := vd\<rparr>))"
      if "quiet t1 t2" "dev bd = ?ptr" for t2 k bd vd
    proof (rule try_write_fault [where G = ?G, OF _ quiet_refl])
      show "\<not> fst (wr32 M (?ptr + val Status) (bits OR VIRTIO_DRIVER_OK) d)" for d
        using b wr [of Status "bits OR VIRTIO_DRIVER_OK" d] by blast
      show "?G (Inr (False, t3))" if "quiet (t2\<lparr>BLOCK_DEVICES := (BLOCK_DEVICES t2)[slot := bd], VIRTIO_DEVICES := vd\<rparr>) t3" for t3
        using that \<open>quiet t1 t2\<close> \<open>dev bd = ?ptr\<close> same by (auto simp: quiet_def)
    qed
    have slot': "slot < MAX_VIRTIO_DEVICES" using slot by (simp add: MAX_VIRTIO_DEVICES_def)
    show ?thesis unfolding setup_queue_def queue_geometry z bind_res_simps prod.case option.case Let_def if_P [OF slot']
    proof (rule w [OF _ quiet_refl], goal_cases)
      case 1
      show ?case by (rule wok) simp
    next
      case (2 t2)
      show ?case by (rule last [OF 2]) simp
    qed
  qed
  have "?G (setup_block_device L M fuel ?ptr s)"
    unfolding setup_block_device_def dev_slot bind_res_simps Let_def
    by ((rule w, rule wok, simp add: virtio_consts, (assumption | rule quiet_refl) |
          rule r [where Q = "\<lambda>_. True" and reg = HostFeatures], simp, assumption |
          rule r [where Q = "\<lambda>x. x AND VIRTIO_FEATURES_OK \<noteq> 0" and reg = Status], use hw in \<open>simp add: fails_last_def\<close>, assumption |
          rule r [where Q = "\<lambda>x. of_nat VIRTIO_RING_SIZE \<le> x" and reg = QueueNumMax], use hw in \<open>simp add: fails_last_def\<close>, assumption |
          rule branch, simp add: not_less)+)
      (rule queue, assumption, simp add: virtio_consts)
  then show ?thesis .
qed

section \<open>Hardware for the examples\<close>

text \<open>A serial port; every register reads as 8, and a write faults unless its value is \<open>good\<close>.\<close>

definition test_soc :: "(u32 \<Rightarrow> bool) \<Rightarrow> uview soc" where
  "test_soc good = demo_chip\<lparr>rd32 := (\<lambda>_ d. (8, True, d)), wr32 := (\<lambda>_ v d. (good v, d))\<rparr>"

text \<open>Hardware whose device at \<open>ptr\<close> fails only the write of \<open>DRIVER_OK\<close>.\<close>

definition late_soc :: "nat \<Rightarrow> uview soc" where
  "late_soc ptr = demo_chip\<lparr>rd32 := (\<lambda>_ d. (8, True, d)),
     wr32 := (\<lambda>a v d. (\<not> (a = ptr + val Status \<and> v AND VIRTIO_DRIVER_OK \<noteq> 0), d))\<rparr>"

lemma late_soc_fails: "fails_last (late_soc ptr) ptr"
proof -
  have "val reg = val Status \<longleftrightarrow> reg = Status" for reg by (cases reg) simp_all
  then show ?thesis by (simp add: fails_last_def late_soc_def virtio_consts del: val.simps)
qed

lemma test_soc_uart: "uart_device (test_soc good) UART_BASE (\<lambda>d. d\<lparr>busy := min (busy d) 2\<rparr>) 2"
  using demo_chip_uart by (simp add: uart_device_def test_soc_def)

lemma test_bus_write:
  "try_write (bus.truncate (test_soc good)) ptr off v k s =
     (if good v then k (clear_access_fault s) else Inr (False, clear_access_fault s))"
  by (simp add: try_write_def mmio_write32_def write_volatile32_def test_soc_def bus.truncate_def Let_def clear_access_fault_def
      take_access_fault_def access_fault_trap_def)

lemma test_bus_read: "try_read (bus.truncate (test_soc good)) ptr off k s = k 8 (clear_access_fault s)"
  by (simp add: try_read_def mmio_read32_def read_volatile32_def test_soc_def bus.truncate_def Let_def clear_access_fault_def
      take_access_fault_def)

lemma clear_access_fault_idem: "clear_access_fault (clear_access_fault s) = clear_access_fault s"
  by (simp add: clear_access_fault_def)

definition bare_machine :: "uview vio_state" where
  "bare_machine =
     \<lparr>mem = (\<lambda>_. 0), ALLOC_START = 0x2000, slots = slots idle_procs, current = current idle_procs,
      NEXT_PID = NEXT_PID idle_procs, BLOCK_DEVICES = replicate 8 BlockDevice_empty,
      VIRTIO_DEVICES = replicate 8 None, ACCESS_FAULT_SEEN = False, hw = \<lparr>sent = [], rx = [], busy = 0\<rparr>\<rparr>"

lemma bare_machine_registry: "registry_inv tiny_layout bare_machine"
proof -
  have "descriptors tiny_layout bare_machine = descriptors tiny_layout tiny_heap"
    by (simp add: descriptors_def bare_machine_def tiny_heap_def)
  then have "frames_inv tiny_layout bare_machine"
    using tiny_frames_inv by (simp add: frames_inv_def bare_machine_def tiny_heap_def)
  then show ?thesis by (simp add: registry_inv_def) (simp add: bare_machine_def BlockDevice_empty_def)
qed

lemma bare_machine_queue:
  obtains s1 where "zallocate tiny_layout 2 (clear_access_fault bare_machine) = Inr (Some 0x2000, s1)"
    "length (BLOCK_DEVICES s1) = 8"
proof -
  let ?s = "clear_access_fault bare_machine"
  have fr: "frames_inv tiny_layout ?s"
    using bare_machine_registry by (simp add: registry_inv_def clear_access_fault_def frames_inv_def descriptors_def)
  have ds: "descriptors tiny_layout ?s = replicate 4 0"
    using tiny_descriptors by (simp add: descriptors_def clear_access_fault_def bare_machine_def tiny_heap_def)
  then have "window_free (descriptors tiny_layout ?s) 0 2" by (simp add: window_free_def)
  from allocate_fits [OF fr _ this] have "allocate tiny_layout 2 ?s =
      Inr (Some 0x2000, set_descriptors tiny_layout (mark_run (replicate 4 0) 0 2) ?s)"
    by (simp add: ds) (simp add: clear_access_fault_def bare_machine_def)
  with zallocate_Some_iff [OF fr] obtain s1 where s1: "zallocate tiny_layout 2 ?s = Inr (Some 0x2000, s1)" by blast
  have "BLOCK_DEVICES s1 = BLOCK_DEVICES ?s" using vio_more [OF zallocate_Some(6) [OF fr s1]] by simp
  then show thesis using that [OF s1] by (simp add: clear_access_fault_def bare_machine_def)
qed

text \<open>The setup on the bare machine runs to its last step.\<close>

lemma bare_machine_setup:
  assumes "\<And>v. v \<noteq> 15 \<Longrightarrow> good v"
  obtains s' where "setup_block_device tiny_layout (test_soc good) 3 MMIO_VIRTIO_START bare_machine = Inr (good 15, s')"
    "dev (BLOCK_DEVICES s' ! 0) = MMIO_VIRTIO_START"
proof -
  obtain s1 where s1: "zallocate tiny_layout 2 (clear_access_fault bare_machine) = Inr (Some 0x2000, s1)"
    "length (BLOCK_DEVICES s1) = 8"
    by (rule bare_machine_queue)
  have "\<exists>s'. setup_block_device tiny_layout (test_soc good) 3 MMIO_VIRTIO_START bare_machine = Inr (good 15, s') \<and>
      dev (BLOCK_DEVICES s' ! 0) = MMIO_VIRTIO_START"
    using s1 assms
    by (simp add: setup_block_device_def setup_queue_def test_bus_write test_bus_read clear_access_fault_idem
        dev_slot_from_ptr_def usize_sub_def queue_geometry virtio_consts MAX_VIRTIO_DEVICES_def Let_def)
      (simp add: clear_access_fault_def)
  then show thesis using that by blast
qed

section \<open>Properties\<close>

text \<open>
  C27: Discovery is safe for every hardware. Whatever the device registers answer and whichever
  accesses fault, with a serial port to report to, \<open>probe\<close> visits the whole MMIO window without a panic, every block device it registers
  sits in the slot of its address with an idle queue of its own in fresh pages, no two devices
  share a queue, and the memory that was in use keeps its contents.
\<close>

lemma probe_registers:
  assumes uart: "uart_device M UART_BASE uv N" "N < fuel" and inv: "registry_inv L s"
  shows "\<exists>s'. probe L M fuel s = Inr s' \<and> registry_inv L s' \<and> keeps_held L s s'"
  by (rule probe_registers_run [OF uart_console_ok [OF uart] inv])

theorem probe_registers_witness:
  "\<exists>s'. probe tiny_layout (test_soc (\<lambda>_. True)) 3 bare_machine = Inr s' \<and> registry_inv tiny_layout s'"
  using probe_registers [OF test_soc_uart _ bare_machine_registry] by fastforce

text \<open>
  C28: \<open>setup_block_device\<close> never panics, and \<open>true\<close> means ready: the device is registered in its
  slot, its queue lies in two zeroed pages that were not in use before, every descriptor is free,
  the driver's index agrees with the used ring, and \<open>first_block_device\<close> finds a device.
\<close>

lemma setup_block_device_ready:
  assumes uart: "uart_device M UART_BASE uv N" "N < fuel" and inv: "registry_inv L s" and slot: "slot < 8"
  shows "\<exists>ok s'. setup_block_device L M fuel (MMIO_VIRTIO_START + slot * 4096) s = Inr (ok, s') \<and>
     (ok \<longrightarrow> slot_ok L s' slot \<and> (queue_at s' slot, 2) \<notin> held L s \<and>
             rd_bytes (mem s') (queue_at s' slot) 8192 = replicate 8192 0 \<and>
             (\<exists>i \<le> slot. first_block_device s' = Some i))"
proof -
  have fr: "frames_inv L s" and len: "length (BLOCK_DEVICES s) = 8" using inv by (simp_all add: registry_inv_def)
  obtain ok s' where st: "setup_block_device L M fuel (MMIO_VIRTIO_START + slot * 4096) s = Inr (ok, s')"
    "ok \<longrightarrow> (\<exists>b ro. registered L (MMIO_VIRTIO_START + slot * 4096) slot b ro s s')"
    using setup_block_device_settles [OF uart_console_ok [OF uart] fr refl slot] unfolding settles_def by blast
  have "slot_ok L s' slot \<and> (queue_at s' slot, 2) \<notin> held L s \<and>
        rd_bytes (mem s') (queue_at s' slot) 8192 = replicate 8192 0 \<and> (\<exists>i \<le> slot. first_block_device s' = Some i)"
    if reg: "registered L (MMIO_VIRTIO_START + slot * 4096) slot b ro s s'" for b ro
  proof -
    have ok: "slot_ok L s' slot" "queue_at s' slot = b" using registered_slot_ok [OF reg] len slot by simp_all
    have "length (BLOCK_DEVICES s') = 8" using reg len by (simp add: registered_def)
    moreover have "dev (BLOCK_DEVICES s' ! slot) \<noteq> 0" using ok(1) by (simp add: slot_ok_def MMIO_VIRTIO_START_def)
    ultimately have "\<exists>i \<le> slot. first_block_device s' = Some i"
      using slot position_le [of slot "take 8 (BLOCK_DEVICES s')" "\<lambda>d. dev d \<noteq> 0"]
      by (simp add: first_block_device_def MAX_VIRTIO_DEVICES_def)
    moreover have "rd_bytes (mem s') b 8192 = replicate 8192 0"
      using reg by (intro nth_equalityI) (auto simp: registered_def)
    ultimately show ?thesis using ok reg by (simp add: registered_def)
  qed
  with st show ?thesis by blast
qed

theorem setup_block_device_ready_witness:
  "\<exists>s'. setup_block_device tiny_layout (test_soc (\<lambda>_. True)) 3 MMIO_VIRTIO_START bare_machine = Inr (True, s') \<and>
     slot_ok tiny_layout s' 0"
proof -
  obtain s' where "setup_block_device tiny_layout (test_soc (\<lambda>_. True)) 3 MMIO_VIRTIO_START bare_machine = Inr (True, s')"
    by (rule bare_machine_setup [of "\<lambda>_. True"]) simp_all
  with setup_block_device_ready [OF test_soc_uart _ bare_machine_registry, of 3 0 "\<lambda>_. True"] show ?thesis by auto
qed

text \<open>
  C32: The device is registered before the setup is complete. On any hardware that answers the
  whole handshake and faults only on the last write, the one that sets \<open>DRIVER_OK\<close>, and with two
  free pages for the queue, \<open>setup_block_device\<close> answers \<open>false\<close> although the device is already in
  the table at its slot, with the other slots as they were. \<open>first_block_device\<close> then reports a
  device, and it is this unfinished one if no other was registered before.
\<close>

lemma setup_failure_registers:
  fixes s :: "('d, 'z) vio_state_scheme"
  assumes hw: "fails_last M (MMIO_VIRTIO_START + slot * 4096)" and inv: "registry_inv L s" and slot: "slot < 8"
    and room: "window_free (descriptors L s) j 2"
  shows "\<exists>s' bd. setup_block_device L M fuel (MMIO_VIRTIO_START + slot * 4096) s = Inr (False, s') \<and>
     BLOCK_DEVICES s' = (BLOCK_DEVICES s)[slot := bd] \<and> dev bd = MMIO_VIRTIO_START + slot * 4096 \<and>
     (\<exists>i \<le> slot. first_block_device s' = Some i) \<and>
     (first_block_device s = None \<longrightarrow> first_block_device s' = Some slot)"
proof -
  obtain s' bd where st: "setup_block_device L M fuel (MMIO_VIRTIO_START + slot * 4096) s = Inr (False, s')"
    and bd: "BLOCK_DEVICES s' = (BLOCK_DEVICES s)[slot := bd]" "dev bd = MMIO_VIRTIO_START + slot * 4096"
    using setup_fails_last [OF assms] by blast
  have len: "length (BLOCK_DEVICES s) = 8" using inv by (simp add: registry_inv_def)
  have at: "dev (BLOCK_DEVICES s' ! slot) \<noteq> 0" using bd len slot by (simp add: MMIO_VIRTIO_START_def)
  then have le: "\<exists>i \<le> slot. first_block_device s' = Some i"
    using slot len bd position_le [of slot "take 8 (BLOCK_DEVICES s')" "\<lambda>d. dev d \<noteq> 0"]
    by (simp add: first_block_device_def MAX_VIRTIO_DEVICES_def)
  have "first_block_device s' = Some slot" if none: "first_block_device s = None"
  proof -
    obtain i where i: "i \<le> slot" "first_block_device s' = Some i" using le by blast
    then have "dev (BLOCK_DEVICES s' ! i) \<noteq> 0"
      using slot len bd position_Some [of "\<lambda>d. dev d \<noteq> 0" "take 8 (BLOCK_DEVICES s')" i]
      by (simp add: first_block_device_def MAX_VIRTIO_DEVICES_def)
    moreover have "dev (BLOCK_DEVICES s ! i) = 0"
      using none i slot len position_None [of "\<lambda>d. dev d \<noteq> 0" "take 8 (BLOCK_DEVICES s)"]
      by (simp add: first_block_device_def MAX_VIRTIO_DEVICES_def)
    ultimately have "i = slot" using bd by (cases "i = slot") simp_all
    with i show ?thesis by simp
  qed
  with st bd le show ?thesis by (intro exI [of _ s'] exI [of _ bd]) simp
qed

theorem setup_failure_registers_witness:
  "\<exists>s'. setup_block_device tiny_layout (late_soc MMIO_VIRTIO_START) 3 MMIO_VIRTIO_START bare_machine = Inr (False, s') \<and>
     first_block_device s' = Some 0"
proof -
  have "window_free (descriptors tiny_layout bare_machine) 0 2"
    using tiny_descriptors by (simp add: descriptors_def bare_machine_def tiny_heap_def window_free_def)
  moreover have "first_block_device bare_machine = None"
    by (simp add: first_block_device_def bare_machine_def BlockDevice_empty_def MAX_VIRTIO_DEVICES_def position_None)
  ultimately show ?thesis
    using setup_failure_registers [of "late_soc MMIO_VIRTIO_START" 0 tiny_layout bare_machine 0 3]
      late_soc_fails bare_machine_registry by fastforce
qed

text \<open>
  C31: Interrupts find their device. The interrupt numbers that \<open>configured_irqs\<close> reports are those
  of the registered slots, and \<open>pending_by_irq\<close> maps each of them back: with no cause pending
  the call leaves the tables alone, otherwise it drains the used ring of exactly that slot.
\<close>

lemma irq_routes:
  assumes inv: "registry_inv L s" and i: "i < 8" "dev (BLOCK_DEVICES s ! i) \<noteq> 0"
  shows "\<exists>irqs n. configured_irqs s = Inr irqs \<and> irqs ! i = Some n \<and>
     pending_by_irq B n s =
       (case read_volatile32 B (dev (BLOCK_DEVICES s ! i) + 0x60) s of (isr, s1) \<Rightarrow>
          if isr = 0 then Inr (False, s1)
          else bind_res (pending (mem s1) (BLOCK_DEVICES s ! i)) (\<lambda>bd.
               Inr (True, write_volatile32 B (dev (BLOCK_DEVICES s ! i) + 0x64) (isr AND 3) (set_dev i bd s1))))"
proof -
  let ?g = "\<lambda>bd. if dev bd = 0 then None else Some (of_nat ((dev bd - MMIO_VIRTIO_START) div 4096) + 1 :: u32)"
  have len: "length (BLOCK_DEVICES s) = 8" using inv by (simp add: registry_inv_def)
  have at: "dev (BLOCK_DEVICES s ! j) \<noteq> 0 \<Longrightarrow> j < 8 \<Longrightarrow> dev (BLOCK_DEVICES s ! j) = MMIO_VIRTIO_START + j * 4096" for j
    using inv by (simp add: registry_inv_def slot_ok_def)
  have "irq bd = Inr (?g bd)" if bd: "bd \<in> set (BLOCK_DEVICES s)" for bd
  proof (cases "dev bd = 0")
    case False
    obtain j where j: "j < 8" "bd = BLOCK_DEVICES s ! j" using bd len by (auto simp: in_set_conv_nth)
    have d: "dev bd = MMIO_VIRTIO_START + j * 4096" using at [of j] j False by simp
    have "unat (of_nat j :: u32) = j" using j(1) by (simp add: unat_of_nat)
    with j(1) d False show ?thesis
      by (simp add: irq_def usize_sub_def VIRTIO_MMIO_IRQ_BASE_def Let_def add.commute)
  qed (simp add: irq_def)
  then have "configured_irqs s = Inr (map ?g (BLOCK_DEVICES s))"
    using len by (simp add: configured_irqs_def MAX_VIRTIO_DEVICES_def collect_res_map)
  moreover have "map ?g (BLOCK_DEVICES s) ! i = Some (of_nat i + 1)" using at [OF i(2,1)] i len by simp
  moreover have ui: "unat (of_nat i :: u32) = i" using i(1) by (simp add: unat_of_nat)
  have "unat (of_nat (Suc i) :: u32) = Suc i" using i(1) by (simp add: unat_of_nat del: of_nat_Suc)
  then have "\<not> of_nat (Suc i) < (1 :: u32)" by (simp only: word_less_nat_alt) simp
  then have "\<not> of_nat i + 1 < (1 :: u32)" by (simp add: add.commute)
  with ui have "pending_by_irq B (of_nat i + 1) s = (case read_volatile32 B (dev (BLOCK_DEVICES s ! i) + 0x60) s of (isr, s1) \<Rightarrow>
          if isr = 0 then Inr (False, s1)
          else bind_res (pending (mem s1) (BLOCK_DEVICES s ! i)) (\<lambda>bd.
               Inr (True, write_volatile32 B (dev (BLOCK_DEVICES s ! i) + 0x64) (isr AND 3) (set_dev i bd s1))))"
    using i by (simp add: pending_by_irq_def VIRTIO_MMIO_IRQ_BASE_def MAX_VIRTIO_DEVICES_def scale32_def scaled_def Let_def split: prod.split)
  ultimately show ?thesis by blast
qed

theorem irq_routes_witness:
  "\<exists>irqs n. configured_irqs (blk_machine buffer_page []) = Inr irqs \<and> irqs ! 0 = Some n \<and>
     pending_by_irq instant_bus n (blk_machine buffer_page []) = Inr (False, blk_machine buffer_page [])"
proof -
  let ?s = "blk_machine buffer_page []"
  note ok = buffer_page_machine(1) [of "[]", unfolded drv_ok_def]
  have "slot_ok blk_layout ?s 0" using ok by (simp add: slot_ok_def) (simp add: blk_machine_def MMIO_VIRTIO_START_def)
  moreover have "dev (BLOCK_DEVICES ?s ! i) = 0" if "0 < i" "i < 8" for i
    using that by (cases i) (simp_all add: blk_machine_def BlockDevice_empty_def)
  moreover have "length (VIRTIO_DEVICES ?s) = 8" by (simp add: blk_machine_def)
  ultimately have "registry_inv blk_layout ?s" using ok by (intro registry_one) auto
  from irq_routes [OF this, of 0 instant_bus] show ?thesis
    by (simp add: read_volatile32_def instant_bus_def) (simp add: blk_machine_def)
qed

end
