(* ===== verification/TrapVector.thy ===== *)
theory TrapVector
  imports TrapState
begin

text \<open>
  The machine-mode trap vector (\<open>src/arch/riscv64/asm/trap.S\<close>) as a list of instructions.

  The instructions of the vector have their meaning on a \<open>cpu\<close>: the general registers with
  \<open>x0\<close> fixed to zero, the control registers the vector touches, byte memory and the program
  counter. The Rust handler is a function on the \<open>cpu\<close>, run by the \<open>call\<close>. \<open>read_TrapFrame\<close>
  gives the layout of the frame that \<open>trap_frame.rs\<close> and the vector share; \<open>save_ctx\<close> and
  \<open>load_ctx\<close> are what the vector does to a frame as the Rust code sees it.
\<close>

section \<open>Machine and instructions\<close>

datatype csr = Mscratch | Mepc | Mtval | Mcause | Mhartid | Mstatus

record cpu =
  gpr :: "nat \<Rightarrow> u64"
  csrs :: "csr \<Rightarrow> u64"
  cmem :: memory
  cpc :: u64

datatype instr =
    Csrrw nat csr nat
  | Csrr nat csr
  | Csrw csr nat
  | Sd nat nat nat
  | Ld nat nat nat
  | Mv nat nat
  | Call
  | Mret

definition xr :: "cpu \<Rightarrow> nat \<Rightarrow> u64" where
  "xr c i = (if i = 0 then 0 else gpr c i)"

definition xw :: "nat \<Rightarrow> u64 \<Rightarrow> cpu \<Rightarrow> cpu" where
  "xw i v c = (if i = 0 then c else c\<lparr>gpr := (gpr c)(i := v)\<rparr>)"

text \<open>\<open>Sd rs off base\<close> stores and \<open>Ld rd off base\<close> loads at \<open>off(base)\<close>.\<close>

fun exec :: "(cpu \<Rightarrow> cpu) \<Rightarrow> instr \<Rightarrow> cpu \<Rightarrow> cpu" where
  "exec h (Csrrw rd cs rs) c = xw rd (csrs c cs) (c\<lparr>csrs := (csrs c)(cs := xr c rs)\<rparr>)"
| "exec h (Csrr rd cs) c = xw rd (csrs c cs) c"
| "exec h (Csrw cs rs) c = c\<lparr>csrs := (csrs c)(cs := xr c rs)\<rparr>"
| "exec h (Sd rs off base) c = c\<lparr>cmem := st64 (cmem c) (unat (xr c base + of_nat off)) (xr c rs)\<rparr>"
| "exec h (Ld rd off base) c = xw rd (ld64 (cmem c) (unat (xr c base + of_nat off))) c"
| "exec h (Mv rd rs) c = xw rd (xr c rs) c"
| "exec h Call c = h c"
| "exec h Mret c = c\<lparr>cpc := csrs c Mepc\<rparr>"

definition run :: "(cpu \<Rightarrow> cpu) \<Rightarrow> instr list \<Rightarrow> cpu \<Rightarrow> cpu" where
  "run h is c = fold (exec h) is c"

definition REG_SIZE :: nat where "REG_SIZE = 8"

definition save_gp :: "nat \<Rightarrow> nat \<Rightarrow> instr" where "save_gp i base = Sd i (i * REG_SIZE) base"
definition load_gp :: "nat \<Rightarrow> nat \<Rightarrow> instr" where "load_gp i base = Ld i (i * REG_SIZE) base"

text \<open>The vector up to the call, and after it; \<open>t5\<close> is \<open>x30\<close>, \<open>t6\<close> is \<open>x31\<close>, \<open>a0\<close> is \<open>x10\<close>.\<close>

definition vector_entry :: "instr list" where
  "vector_entry =
     [Csrrw 31 Mscratch 31] @ map (\<lambda>i. save_gp i 31) [1..<31] @
     [Mv 30 31, Csrr 31 Mscratch, save_gp 31 30, Csrw Mscratch 30,
      Csrr 10 Mepc, Csrr 11 Mtval, Csrr 12 Mcause, Csrr 13 Mhartid, Csrr 14 Mstatus,
      Mv 15 30, Ld 2 520 15]"

definition vector_exit :: "instr list" where
  "vector_exit = [Csrw Mepc 10, Csrr 31 Mscratch] @ map (\<lambda>i. load_gp i 31) [1..<32] @ [Mret]"

definition m_trap_vector_code :: "instr list" where
  "m_trap_vector_code = vector_entry @ [Call] @ vector_exit"

section \<open>The frame in memory\<close>

definition read_TrapFrame :: "memory \<Rightarrow> nat \<Rightarrow> TrapFrame" where
  "read_TrapFrame m a =
     \<lparr>regs = map (\<lambda>i. ld64 m (a + 8 * i)) [0..<32], fregs = map (\<lambda>i. ld64 m (a + 256 + 8 * i)) [0..<32],
      satp = ld64 m (a + 512), trap_stack = ld64 m (a + 520), hartid = ld64 m (a + 528)\<rparr>"

definition save_ctx :: "(nat \<Rightarrow> u64) \<Rightarrow> TrapFrame \<Rightarrow> TrapFrame" where
  "save_ctx x f = f\<lparr>regs := (regs f ! 0) # map x [1..<32]\<rparr>"

definition load_ctx :: "TrapFrame \<Rightarrow> nat \<Rightarrow> u64" where
  "load_ctx f i = (if 0 < i \<and> i < 32 then regs f ! i else 0)"

section \<open>Saving\<close>

definition save_regs :: "(nat \<Rightarrow> u64) \<Rightarrow> nat \<Rightarrow> nat list \<Rightarrow> memory \<Rightarrow> memory" where
  "save_regs x a is m = fold (\<lambda>i m. st64 m (a + 8 * i) (x i)) is m"

lemma exec_save_gp:
  assumes "unat (xr c b) + 8 * i < 2 ^ 64"
  shows "exec h (save_gp i b) c = c\<lparr>cmem := st64 (cmem c) (unat (xr c b) + 8 * i) (xr c i)\<rparr>"
proof -
  have "unat (xr c b + of_nat (i * 8)) = unat (xr c b) + 8 * i"
    using assms by (simp add: unat_word_ariths unat_of_nat mult.commute mod_add_right_eq)
  then show ?thesis by (simp add: save_gp_def REG_SIZE_def)
qed

lemma run_save:
  assumes "\<forall>i \<in> set is. unat (xr c b) + 8 * i < 2 ^ 64"
  shows "fold (exec h) (map (\<lambda>i. save_gp i b) is) c = c\<lparr>cmem := save_regs (xr c) (unat (xr c b)) is (cmem c)\<rparr>"
  using assms
proof (induction "is" arbitrary: c)
  case Nil
  then show ?case by (simp add: save_regs_def)
next
  case (Cons i "is")
  let ?c = "c\<lparr>cmem := st64 (cmem c) (unat (xr c b) + 8 * i) (xr c i)\<rparr>"
  have x: "xr ?c = xr c" by (simp add: xr_def fun_eq_iff)
  have "exec h (save_gp i b) c = ?c" by (rule exec_save_gp) (use Cons.prems in simp)
  with Cons.IH [of ?c] Cons.prems x show ?case by (simp add: save_regs_def)
qed

lemma ld_save_regs:
  assumes "distinct is"
  shows "ld64 (save_regs x a is m) (a + 8 * j) = (if j \<in> set is then x j else ld64 m (a + 8 * j))"
  using assms
proof (induction "is" rule: rev_induct)
  case Nil
  show ?case by (simp add: save_regs_def)
next
  case (snoc i "is")
  have "ld64 (st64 m' (a + 8 * i) v) (a + 8 * j) = (if i = j then v else ld64 m' (a + 8 * j))" for m' v
  proof (cases "i = j")
    case False
    then have "a + 8 * i + 8 \<le> a + 8 * j \<or> a + 8 * j + 8 \<le> a + 8 * i" by linarith
    with False show ?thesis by (simp add: ld64_st64_disjoint)
  qed simp
  with snoc show ?case by (simp add: save_regs_def)
qed

lemma save_regs_out:
  assumes "\<forall>i \<in> set is. y < a + 8 * i \<or> a + 8 * i + 8 \<le> y"
  shows "save_regs x a is m y = m y"
  using assms by (induction "is" rule: rev_induct) (auto simp: save_regs_def st64_out)

lemma vector_entry_run:
  assumes fp: "fp = unat (csrs c Mscratch)" "fp + 536 \<le> 2 ^ 64"
  shows "run h vector_entry c =
    c\<lparr>gpr := (gpr c)(30 := csrs c Mscratch, 10 := csrs c Mepc, 11 := csrs c Mtval, 12 := csrs c Mcause,
         13 := csrs c Mhartid, 14 := csrs c Mstatus, 15 := csrs c Mscratch,
         2 := ld64 (save_regs (gpr c) fp [1..<32] (cmem c)) (fp + 520)),
       cmem := save_regs (gpr c) fp [1..<32] (cmem c)\<rparr>"
proof -
  define c1 where "c1 = c\<lparr>csrs := (csrs c)(Mscratch := xr c 31), gpr := (gpr c)(31 := csrs c Mscratch)\<rparr>"
  have x1: "xr c1 31 = csrs c Mscratch" "xr c1 i = gpr c i" if "0 < i" "i < 31" for i
    using that by (simp_all add: c1_def xr_def)
  have r1: "exec h (Csrrw 31 Mscratch 31) c = c1" by (simp add: c1_def xw_def)
  have sv: "save_regs (xr c1) fp [1..<31] m = save_regs (gpr c) fp [1..<31] m" for m
    unfolding save_regs_def by (rule fold_cong) (simp_all add: x1)
  define c2 where "c2 = c1\<lparr>cmem := save_regs (gpr c) fp [1..<31] (cmem c)\<rparr>"
  have r2: "fold (exec h) (map (\<lambda>i. save_gp i 31) [1..<31]) c1 = c2"
    using run_save [of "[1..<31]" c1 31 h] fp x1(1) [of 1] sv by (simp add: c2_def) (simp add: c1_def)
  have "[1..<32] = [1..<31] @ [31::nat]" by (simp add: upt_rec)
  then have m: "st64 (save_regs (gpr c) fp [1..<31] (cmem c)) (fp + 248) (gpr c 31) = save_regs (gpr c) fp [1..<32] (cmem c)"
    by (simp only: save_regs_def fold_append) simp
  have u: "unat (csrs c Mscratch + 248) = fp + 248" "unat (csrs c Mscratch + 520) = fp + 520"
    using fp by (simp_all add: unat_word_ariths)
  show ?thesis
    unfolding run_def vector_entry_def fold_append comp_def
    by (simp only: fold_simps id_apply r1 r2 comp_def)
      (rule cpu.equality; simp add: c2_def c1_def xr_def xw_def save_gp_def REG_SIZE_def u
        m [unfolded One_nat_def] fun_eq_iff)
qed

text \<open>What the handler finds: the frame with the registers of the trapped code, and its arguments.\<close>

lemma save_regs_frame:
  "read_TrapFrame (save_regs x a [1..<32] m) a = save_ctx x (read_TrapFrame m a)"
proof -
  let ?m = "save_regs x a [1..<32] m"
  have out: "ld64 ?m (a + k) = ld64 m (a + k)" if "256 \<le> k" for k
    using that by (intro ld64_cong save_regs_out) auto
  have "map (\<lambda>i. ld64 ?m (a + 8 * i)) [0..<32] = ld64 m a # map x [1..<32]"
  proof (rule nth_equalityI)
    fix i assume "i < length (map (\<lambda>i. ld64 ?m (a + 8 * i)) [0..<32])"
    then show "map (\<lambda>i. ld64 ?m (a + 8 * i)) [0..<32] ! i = (ld64 m a # map x [1..<32]) ! i"
      using ld_save_regs [of "[1..<32]" x a m i] by (cases i) auto
  qed simp
  then show ?thesis by (simp add: read_TrapFrame_def save_ctx_def out [unfolded One_nat_def] add.assoc)
qed

section \<open>Restoring\<close>

lemma run_load:
  assumes "unat (gpr c 31) + 256 \<le> 2 ^ 64" "n < 32"
  shows "fold (exec h) (map (\<lambda>i. load_gp i 31) [1..<n]) c =
    c\<lparr>gpr := (\<lambda>i. if 0 < i \<and> i < n then ld64 (cmem c) (unat (gpr c 31) + 8 * i) else gpr c i)\<rparr>"
  using assms(2)
proof (induction n)
  case 0
  show ?case by simp
next
  case (Suc n)
  show ?case
  proof (cases "n = 0")
    case False
    have "unat (gpr c 31 + of_nat (n * 8)) = unat (gpr c 31) + 8 * n"
      using assms(1) Suc.prems by (simp add: unat_word_ariths unat_of_nat mult.commute mod_add_right_eq)
    with Suc False show ?thesis
      by (auto simp: load_gp_def REG_SIZE_def xr_def xw_def less_Suc_eq fun_eq_iff)
  qed (auto simp: fun_eq_iff intro!: cpu.equality)
qed

lemma vector_exit_run:
  assumes fp: "fp = unat (csrs c Mscratch)" "fp + 256 \<le> 2 ^ 64" and i: "0 < i" "i < 32"
  shows "gpr (run h vector_exit c) i = load_ctx (read_TrapFrame (cmem c) fp) i"
    and "cpc (run h vector_exit c) = xr c 10" "cmem (run h vector_exit c) = cmem c"
    and "csrs (run h vector_exit c) = (csrs c)(Mepc := xr c 10)"
proof -
  define c1 where "c1 = c\<lparr>csrs := (csrs c)(Mepc := xr c 10), gpr := (gpr c)(31 := csrs c Mscratch)\<rparr>"
  have r1: "exec h (Csrr 31 Mscratch) (exec h (Csrw Mepc 10) c) = c1" by (simp add: c1_def xw_def)
  define c2 where "c2 = c1\<lparr>gpr := (\<lambda>i. if 0 < i \<and> i < 31 then ld64 (cmem c) (fp + 8 * i) else gpr c1 i)\<rparr>"
  have r2: "fold (exec h) (map (\<lambda>i. load_gp i 31) [1..<31]) c1 = c2"
  proof -
    have eqs: "cmem c1 = cmem c" "unat (gpr c1 31) = fp" using fp(1) by (simp_all add: c1_def)
    from run_load [of c1 31 h, unfolded eqs] fp(2) show ?thesis by (simp add: c2_def)
  qed
  have l: "[1..<32] = [1..<31] @ [31::nat]" by (simp add: upt_rec)
  have u: "unat (csrs c Mscratch + 248) = fp + 248" using fp by (simp add: unat_word_ariths)
  have "run h vector_exit c = exec h Mret (exec h (load_gp 31 31) c2)"
    unfolding run_def vector_exit_def fold_append l map_append
    by (simp only: fold_simps list.map append.simps id_apply comp_def r1 r2 fold_append)
  also have "\<dots> = c2\<lparr>gpr := (gpr c2)(31 := ld64 (cmem c) (fp + 248)), cpc := xr c 10\<rparr>"
    by (simp add: load_gp_def REG_SIZE_def xr_def xw_def c2_def c1_def u)
  finally show "gpr (run h vector_exit c) i = load_ctx (read_TrapFrame (cmem c) fp) i"
    "cpc (run h vector_exit c) = xr c 10" "cmem (run h vector_exit c) = cmem c"
    "csrs (run h vector_exit c) = (csrs c)(Mepc := xr c 10)"
    using i by (auto simp: load_ctx_def read_TrapFrame_def c2_def c1_def)
qed

section \<open>Property\<close>

text \<open>
  C7: The assembly vector and the Rust trap frame agree. The handler is entered with the registers
  of the trapped code stored in the frame that \<open>mscratch\<close> points to, the rest of the frame and of
  memory untouched, the trap's registers as arguments and the frame's trap stack as its stack.
  Whatever the handler does, the vector then resumes at the address it returned, with every
  register as in the frame that \<open>mscratch\<close> points to by then.
\<close>

lemma trap_vector_switches:
  assumes fp: "fp = unat (csrs c Mscratch)" "fp + 536 \<le> 2 ^ 64"
    and entry: "c1 = run h vector_entry c"
    and fp2: "fp2 = unat (csrs (h c1) Mscratch)" "fp2 + 536 \<le> 2 ^ 64"
    and exit: "c2 = run h m_trap_vector_code c"
  shows "read_TrapFrame (cmem c1) fp = save_ctx (gpr c) (read_TrapFrame (cmem c) fp) \<and>
     (\<forall>y. y < fp + 8 \<or> fp + 256 \<le> y \<longrightarrow> cmem c1 y = cmem c y) \<and> csrs c1 = csrs c \<and>
     map (gpr c1) [10..<16] = map (csrs c) [Mepc, Mtval, Mcause, Mhartid, Mstatus, Mscratch] \<and>
     gpr c1 2 = trap_stack (read_TrapFrame (cmem c) fp) \<and>
     (\<forall>i. 0 < i \<and> i < 32 \<longrightarrow> gpr c2 i = load_ctx (read_TrapFrame (cmem (h c1)) fp2) i) \<and>
     cpc c2 = gpr (h c1) 10 \<and> cmem c2 = cmem (h c1) \<and> csrs c2 Mscratch = csrs (h c1) Mscratch"
proof -
  let ?m = "save_regs (gpr c) fp [1..<32] (cmem c)"
  note c1 = vector_entry_run [OF fp, of h, folded entry]
  have c2: "c2 = run h vector_exit (h c1)" by (simp add: exit entry m_trap_vector_code_def run_def)
  have fp2': "fp2 + 256 \<le> 2 ^ 64" using fp2(2) by simp
  have "[10..<16] = [10, 11, 12, 13, 14, 15::nat]" by (simp add: upt_rec)
  then have args: "map (gpr c1) [10..<16] = map (csrs c) [Mepc, Mtval, Mcause, Mhartid, Mstatus, Mscratch]"
    by (simp add: c1)
  have out: "?m y = cmem c y" if "y < fp + 8 \<or> fp + 256 \<le> y" for y
    using that by (intro save_regs_out) auto
  then have "ld64 ?m (fp + 520) = ld64 (cmem c) (fp + 520)" by (intro ld64_cong) auto
  then have "gpr c1 2 = trap_stack (read_TrapFrame (cmem c) fp)" by (simp add: c1 read_TrapFrame_def)
  moreover have "cmem c1 = ?m" "csrs c1 = csrs c" by (simp_all add: c1)
  ultimately show ?thesis
    using args out save_regs_frame [of "gpr c" fp "cmem c"] vector_exit_run [OF fp2(1) fp2', of _ h] vector_exit_run(2-4) [OF fp2(1) fp2', of 1 h]
    by (simp add: c2 xr_def)
qed

text \<open>A handler that keeps the frame and skips the trapped instruction.\<close>

theorem trap_vector_switches_witness:
  "gpr (run (\<lambda>c. c\<lparr>gpr := (gpr c)(10 := gpr c 10 + 4)\<rparr>) m_trap_vector_code
      \<lparr>gpr = (\<lambda>i. of_nat (100 + i)), csrs = (\<lambda>_. 0x80000000), cmem = (\<lambda>_. 0), cpc = 0\<rparr>) 31 = 131"
proof -
  let ?h = "\<lambda>c. c\<lparr>gpr := (gpr c)(10 := gpr c 10 + 4)\<rparr>"
  let ?c = "\<lparr>gpr = (\<lambda>i. of_nat (100 + i)), csrs = (\<lambda>_. 0x80000000), cmem = (\<lambda>_. 0), cpc = 0\<rparr>"
  have e: "csrs (run ?h vector_entry ?c) Mscratch = 0x80000000" using vector_entry_run [of _ ?c ?h, OF refl] by simp
  have "gpr (run ?h m_trap_vector_code ?c) 31 =
      load_ctx (read_TrapFrame (cmem (run ?h vector_entry ?c)) 0x80000000) 31 \<and>
    read_TrapFrame (cmem (run ?h vector_entry ?c)) 0x80000000 = save_ctx (gpr ?c) (read_TrapFrame (cmem ?c) 0x80000000)"
    using trap_vector_switches [of "0x80000000" ?c _ ?h "0x80000000", OF _ _ refl _ _ refl] e by simp
  then show ?thesis by (simp add: load_ctx_def save_ctx_def nth_Cons')
qed

end
