(* ===== verification/Untouched.thy ===== *)
theory Untouched
  imports Trap TrapVector
begin

text \<open>
  What the drivers and the filesystem leave alone. A \<open>view\<close> of the kernel state that does not
  look at memory is kept by the allocator (locale \<open>mem_blind\<close>), by the block driver if the device
  does not change it (locale \<open>driver_view\<close>) and by every filesystem operation whose block reader
  keeps it (locale \<open>quiet_reader\<close>). The process table and the state of the trap handler are such
  a view.
\<close>

section \<open>Views that do not look at memory\<close>

definition keeps :: "('s \<Rightarrow> 'p) \<Rightarrow> ('a \<times> 's) res \<Rightarrow> 's \<Rightarrow> bool" where
  "keeps view r s \<longleftrightarrow> (\<forall>y s'. r = Inr (y, s') \<longrightarrow> view s' = view s)"

lemma keepsI [intro?]: "(\<And>y s'. r = Inr (y, s') \<Longrightarrow> view s' = view s) \<Longrightarrow> keeps view r s"
  by (simp add: keeps_def)

lemma keepsD: "keeps view (Inr (y, s')) s \<Longrightarrow> view s' = view s"
  by (simp add: keeps_def)

lemma keeps_simps [simp]: "keeps view (Inl e) s" "keeps view (Inr (y, s')) s \<longleftrightarrow> view s' = view s"
  by (simp_all add: keeps_def)

lemma keeps_bind:
  assumes "keeps view r s" "\<And>y s1. view s1 = view s \<Longrightarrow> keeps view (f (y, s1)) s1"
  shows "keeps view (bind_res r f) s"
proof
  fix y s' assume "bind_res r f = Inr (y, s')"
  then obtain z s1 where z: "r = Inr (z, s1)" "f (z, s1) = Inr (y, s')" by (auto simp: bind_res_Inr_iff)
  have "view s1 = view s" using assms(1) z(1) by (simp add: keeps_def)
  moreover from this have "view s' = view s1" using assms(2) [of s1 z] z(2) by (simp add: keeps_def)
  ultimately show "view s' = view s" by simp
qed

lemma keeps_bind_pure: "(\<And>x. r = Inr x \<Longrightarrow> keeps view (f x) s) \<Longrightarrow> keeps view (bind_res r f) s"
  by (cases r) auto

lemma keeps_try:
  assumes "keeps view r s" "\<And>v s1. view s1 = view s \<Longrightarrow> keeps view (k v s1) s1"
  shows "keeps view (try_fs r k) s"
  unfolding try_fs_def using assms by (intro keeps_bind) (auto split: sum.split)

lemma keeps_then_go:
  assumes "keeps view r s" "\<And>c w l s1. view s1 = view s \<Longrightarrow> keeps view (k c w l s1) s1"
  shows "keeps view (then_go r k) s"
  unfolding then_go_def using assms by (intro keeps_try) (auto split: flow.split)

lemma keeps_trans: "keeps view r t \<Longrightarrow> view t = view s \<Longrightarrow> keeps view r s"
  by (simp add: keeps_def)

lemma keeps_if: "keeps view a s \<Longrightarrow> keeps view b s \<Longrightarrow> keeps view (if c then a else b) s"
  by simp

lemma keeps_bind_state:
  assumes "\<And>s1. r = Inr s1 \<Longrightarrow> view s1 = view s" "\<And>s1. view s1 = view s \<Longrightarrow> keeps view (f s1) s1"
  shows "keeps view (bind_res r f) s"
proof (cases r)
  case (Inr s1)
  then show ?thesis using keeps_trans [OF assms(2), of s1 s] assms(1) by simp
qed simp

locale mem_blind =
  fixes view :: "'z kmem_scheme \<Rightarrow> 'p"
  assumes view_mem: "view (s\<lparr>mem := m\<rparr>) = view s"
begin

lemma view_set_descriptors: "view (set_descriptors L ds s) = view s"
  by (simp add: set_descriptors_def view_mem)

lemma allocate_keeps: "keeps view (allocate L n s) s"
  unfolding allocate_def Let_def
  by (rule keepsI) (auto simp: bind_res_Inr_iff view_set_descriptors split: option.splits)

lemma zallocate_keeps: "keeps view (zallocate L n s) s"
  unfolding zallocate_def
  by (rule keeps_bind [OF allocate_keeps]) (auto split: option.split intro!: keeps_bind_pure simp: view_mem Let_def)

lemma deallocate_view: "deallocate L p s = Inr s' \<Longrightarrow> view s' = view s"
  by (auto simp: deallocate_def Let_def bind_res_Inr_iff view_set_descriptors)

lemma with_buffer_keeps:
  assumes k: "\<And>p s1. keeps view (k p s1) s1"
  shows "keeps view (with_buffer L n k s) s"
proof -
  have "keeps view (Buffer_new L n s) s"
    unfolding Buffer_new_def Let_def by (rule keeps_bind [OF allocate_keeps]) (simp split: option.split)
  then show ?thesis
    unfolding with_buffer_def
  proof (rule keeps_bind)
    fix r s1
    have "keeps view (bind_res (k p s1) (\<lambda>(x, s2). bind_res (Buffer_drop L b s2) (\<lambda>s3. Inr (x, s3)))) s1" for p b
      by (rule keeps_bind [OF k]) (auto intro!: keeps_bind_pure dest: deallocate_view simp: Buffer_drop_def)
    then show "keeps view (case (r, s1) of (r, s1) \<Rightarrow> (case r of None \<Rightarrow> Inr (Inl FsError.OutOfMemory, s1)
        | Some b \<Rightarrow> bind_res (k (buf_ptr b) s1) (\<lambda>(x, s2). bind_res (Buffer_drop L b s2) (\<lambda>s3. Inr (x, s3))))) s1"
      by (simp split: option.split)
  qed
qed

end

locale quiet_reader = mem_blind view for view :: "'z kmem_scheme \<Rightarrow> 'p" +
  fixes rd :: "'z kmem_scheme block_reader"
  assumes rd_keeps: "keeps view (rd buf sz off s) s"
begin

lemma read_block_keeps: "keeps view (read_block rd buf off s) s"
  unfolding read_block_def by (rule keeps_bind [OF rd_keeps]) simp

lemma mount_keeps: "keeps view (mount_with L rd d s) s"
  unfolding mount_with_def
  by (intro with_buffer_keeps keeps_try [OF read_block_keeps]) (simp add: Let_def)

lemma read_inode_keeps: "keeps view (read_inode_with L rd f num s) s"
  unfolding read_inode_with_def Let_def
  by (auto intro!: with_buffer_keeps keeps_try [OF read_block_keeps])

lemma copy_zone_keeps: "keeps view (copy_zone rd bb out n fin z l cur w s) s"
  unfolding copy_zone_def Let_def
  by (auto intro!: keeps_try [OF read_block_keeps] keeps_bind_pure simp: view_mem)

lemma copy_zones_keeps: "keeps view (copy_zones (copy_zone rd bb out n fin) g fin is cur w l s) s"
proof (induction "is" arbitrary: cur w l s)
  case (Cons i "is")
  show ?case by (auto intro!: keeps_try [OF copy_zone_keeps] Cons.IH)
qed simp

lemma dind_loop_keeps:
  assumes "\<And>c w l s. keeps view (single c w l s) s"
  shows "keeps view (dind_loop single rd db ib fin is cur w l s) s"
proof (induction "is" arbitrary: cur w l s)
  case (Cons i "is")
  show ?case
    by (auto simp: Let_def read_indirect_zone_def intro!: keeps_try [OF read_block_keeps] keeps_then_go [OF assms] Cons.IH)
qed simp

lemma tind_inner_keeps:
  assumes "\<And>c w l s. keeps view (single c w l s) s"
  shows "keeps view (tind_inner single rd db ib is cur w l s) s"
proof (induction "is" arbitrary: cur w l s)
  case (Cons i "is")
  show ?case
    by (auto simp: Let_def read_indirect_zone_def intro!: keeps_try [OF read_block_keeps] keeps_then_go [OF assms] Cons.IH)
qed simp

lemma tind_loop_keeps:
  assumes "\<And>c w l s. keeps view (single c w l s) s"
  shows "keeps view (tind_loop single rd tb db ib fin is cur w l s) s"
proof (induction "is" arbitrary: cur w l s)
  case (Cons i "is")
  show ?case
    by (auto simp: Let_def read_indirect_zone_def
        intro!: keeps_try [OF read_block_keeps] keeps_then_go [OF tind_inner_keeps [OF assms]] Cons.IH)
qed simp

lemma read_zones_keeps: "keeps view (read_zones rd inode fin out n bb ib db tb off s) s"
  unfolding read_zones_def Let_def read_indirect_zone_def
  by (auto intro!: keeps_then_go [OF copy_zones_keeps] keeps_then_go keeps_try [OF read_block_keeps] copy_zones_keeps
      dind_loop_keeps tind_loop_keeps simp del: upt.simps)

lemma read_file_keeps: "keeps view (read_file_with L rd inode offset out n s) s"
  unfolding read_file_with_def Let_def
  by (auto intro!: with_buffer_keeps keeps_try [OF read_zones_keeps])

end

section \<open>The process table and the trap handler's state\<close>

definition proc_view :: "('d, 'z) vio_state_scheme \<Rightarrow> Process option list \<times> nat option \<times> u16 \<times> 'z" where
  "proc_view s = (slots s, current s, NEXT_PID s, vio_state.more s)"

lemma proc_view_simps [simp]:
  "proc_view (s\<lparr>mem := m\<rparr>) = proc_view s" "proc_view (s\<lparr>hw := d\<rparr>) = proc_view s"
  "proc_view (set_dev i bd s) = proc_view s" "proc_view (access_fault_trap s) = proc_view s"
  "proc_view (write_volatile32 B a v s) = proc_view s" "proc_view (snd (read_volatile32 B a s)) = proc_view s"
  by (simp_all add: proc_view_def set_dev_def access_fault_trap_def write_volatile32_def read_volatile32_def split: prod.split)

lemma pending_dev: "pending m bd = Inr bd' \<Longrightarrow> dev bd' = dev bd"
proof (induction m bd rule: pending.induct)
  case (1 m bd)
  show ?case using 1 by (subst (asm) (3) pending.simps) (auto simp: Let_def bind_res_Inr_iff split: if_splits)
qed

section \<open>Views that the block driver keeps\<close>

text \<open>
  The driver's own changes to a device keep its address. A view that looks at no more of the
  devices than their addresses, and that neither the doorbell of a device nor its memory accesses
  change, is kept by a whole block operation.
\<close>

locale driver_view = mem_blind view for view :: "('d, 'z) vio_state_scheme \<Rightarrow> 'p" +
  fixes B :: "'d bus"
  assumes view_dev: "dev bd = dev (BLOCK_DEVICES s ! i) \<Longrightarrow> view (set_dev i bd s) = view s"
    and view_notify: "i < MAX_VIRTIO_DEVICES \<Longrightarrow>
      view (write_volatile32 B (dev (BLOCK_DEVICES s ! i) + 4 * scale32 QueueNotify) 0 s) = view s"
    and view_dma: "dma B (mem s) (hw s) = (m, d) \<Longrightarrow> view (s\<lparr>mem := m, hw := d\<rparr>) = view s"

sublocale driver_view \<subseteq> dv: mem_blind "\<lambda>s. (view s, BLOCK_DEVICES s)"
  by unfold_locales (simp add: view_mem)

context driver_view
begin

lemma spin_view: "spin B n i req s = Inr s' \<Longrightarrow> view s' = view s"
proof (induction n arbitrary: s)
  case (Suc n)
  obtain m d where md: "dma B (mem s) (hw s) = (m, d)" by (cases "dma B (mem s) (hw s)")
  let ?s1 = "s\<lparr>mem := m, hw := d\<rparr>"
  obtain bd where bd: "pending (mem ?s1) (BLOCK_DEVICES ?s1 ! i) = Inr bd"
    using Suc.prems md by (auto simp: bind_res_Inr_iff)
  let ?s2 = "set_dev i bd ?s1"
  have v: "view ?s2 = view s" using view_dev [OF pending_dev [OF bd]] view_dma [OF md] by simp
  have "s' = ?s2 \<or> spin B n i req ?s2 = Inr s'" using Suc.prems md bd by (auto simp: Let_def split: if_splits)
  then show ?case using Suc.IH [of ?s2] v by metis
qed simp

lemma free_request_view: "free_request L req s = Inr s' \<Longrightarrow> view s' = view s"
  using deallocate_view by (auto simp: free_request_def split: if_splits)

lemma submit_keeps:
  assumes bd: "bdev = BLOCK_DEVICES s ! i" and i: "i < MAX_VIRTIO_DEVICES"
  shows "keeps view (bind_res (spin B fuel i req (write_volatile32 B (dev bdev + 4 * scale32 QueueNotify) 0
      (set_dev i (bdev\<lparr>queue := q\<rparr>) (s\<lparr>mem := m\<rparr>)))) (\<lambda>s6.
      bind_res (free_request L req s6) (\<lambda>s7. Inr (mem s6 (req_status_addr req) = 0, s7)))) s"
proof -
  let ?t = "set_dev i (bdev\<lparr>queue := q\<rparr>) (s\<lparr>mem := m\<rparr>)"
  have d: "dev (BLOCK_DEVICES ?t ! i) = dev bdev"
    by (cases "i < length (BLOCK_DEVICES s)") (simp_all add: set_dev_def bd list_update_beyond)
  have t: "view ?t = view s" using view_dev [of "bdev\<lparr>queue := q\<rparr>" "s\<lparr>mem := m\<rparr>" i] by (simp add: bd view_mem)
  have "view (write_volatile32 B (dev bdev + 4 * scale32 QueueNotify) 0 ?t) = view s"
    using view_notify [OF i, of ?t] t by (simp only: d)
  moreover have "keeps view (bind_res (spin B fuel i req u) (\<lambda>s6.
      bind_res (free_request L req s6) (\<lambda>s7. Inr (mem s6 (req_status_addr req) = 0, s7)))) u" for u
    by (rule keeps_bind_state [OF spin_view], assumption, rule keeps_bind_state [OF free_request_view], assumption, simp)
  ultimately show ?thesis by (rule keeps_trans [rotated])
qed

lemma give_back_keeps:
  assumes bd: "bdev = BLOCK_DEVICES s ! i"
  shows "keeps view (bind_res (free_request L req (set_dev i (bdev\<lparr>queue := q\<rparr>) (s\<lparr>mem := m\<rparr>))) (\<lambda>s3. Inr (False, s3))) s"
proof -
  have "view (set_dev i (bdev\<lparr>queue := q\<rparr>) (s\<lparr>mem := m\<rparr>)) = view s"
    using view_dev [of "bdev\<lparr>queue := q\<rparr>" "s\<lparr>mem := m\<rparr>" i] by (simp add: bd view_mem)
  moreover have "keeps view (bind_res (free_request L req u) (\<lambda>s3. Inr (False, s3))) u" for u
    by (rule keeps_bind_state [OF free_request_view], assumption, simp)
  ultimately show ?thesis by (rule keeps_trans [rotated])
qed

lemma block_op_keeps: "keeps view (block_op L B fuel i buf sz offset write s) s"
proof (cases "i < MAX_VIRTIO_DEVICES")
  case i: True
  let ?bdev = "BLOCK_DEVICES s ! i"
  define k where "k = (\<lambda>(r, s1 :: ('d, 'z) vio_state_scheme). case r of None \<Rightarrow> Inr (False, s1)
      | Some req \<Rightarrow>
          let s2 = s1\<lparr>mem := write_request req (if write then VIRTIO_BLK_T_OUT else VIRTIO_BLK_T_IN)
                               (offset div 512) buf (mem s1)\<rparr> in
          (case alloc_desc_chain (queue ?bdev) of
             (None, q1) \<Rightarrow> bind_res (free_request L req (set_dev i (?bdev\<lparr>queue := q1\<rparr>) s2)) (\<lambda>s3. Inr (False, s3))
           | (Some ids, q1) \<Rightarrow>
               let head = ids ! 0; data = ids ! 1; stat = ids ! 2;
                   s3 = s2\<lparr>mem := publish q1 req head data stat buf sz write (mem s2)\<rparr>;
                   q2 = q1\<lparr>req_head := (req_head q1)[head := req]\<rparr>;
                   s4 = set_dev i (?bdev\<lparr>queue := q2\<rparr>) s3;
                   s5 = write_volatile32 B (dev ?bdev + 4 * scale32 QueueNotify) 0 s4
               in bind_res (spin B fuel i req s5) (\<lambda>s6.
                  let ok = (mem s6 (req_status_addr req) = 0) in
                  bind_res (free_request L req s6) (\<lambda>s7. Inr (ok, s7)))))"
  have body: "keeps view (k (r, s1)) s1" if "BLOCK_DEVICES s1 = BLOCK_DEVICES s" for r s1
    using submit_keeps [of ?bdev s1 i] give_back_keeps [of ?bdev s1 i] i that
    by (simp add: k_def Let_def split: option.split prod.split)
  have "keeps view (bind_res (alloc_request L s) k) s"
  proof
    fix y s' assume "bind_res (alloc_request L s) k = Inr (y, s')"
    then obtain r s1 where s1: "alloc_request L s = Inr (r, s1)" "k (r, s1) = Inr (y, s')" by (auto simp: bind_res_Inr_iff)
    have "(view s1, BLOCK_DEVICES s1) = (view s, BLOCK_DEVICES s)"
      using dv.allocate_keeps [of L 1 s] s1(1) by (auto simp: alloc_request_def keeps_def)
    then show "view s' = view s" using body [of s1 r] s1(2) by (simp add: keeps_def)
  qed
  then show ?thesis using i by (simp add: block_op_def k_def Let_def cong: if_cong)
qed (simp add: block_op_def)

end

interpretation pm: mem_blind proc_view
  by unfold_locales simp

interpretation pd: driver_view proc_view B for B
  by unfold_locales simp_all

interpretation pr: quiet_reader proc_view "block_read L B fuel i" for L B fuel i
  by unfold_locales (simp add: block_read_def pd.block_op_keeps)

end
