(* ===== verification/TrapProps.thy ===== *)
theory TrapProps
  imports Trap
begin

text \<open>
  Properties of the interrupt path: the console echo against a reference that reads whole
  escape sequences at once, and the claim and complete protocol of external interrupts.
\<close>

section \<open>The console echo\<close>

text \<open>The reference: what a whole input prints, with escape sequences read in one go.\<close>

definition echo_char :: "u8 \<Rightarrow> u8 list" where
  "echo_char c =
     (if c = 0x08 \<or> c = 0x7f then [8, 32, 8] else if c = 13 \<or> c = 10 then [13, 10] else char_bytes c)"

definition echo_csi :: "u8 \<Rightarrow> u8 list" where
  "echo_csi c =
     (if c = 0x41 then bytes ''up arrow!'' @ [13, 10] else if c = 0x42 then bytes ''down arrow!'' @ [13, 10]
      else if c = 0x43 then bytes ''right arrow!'' @ [13, 10] else if c = 0x44 then bytes ''left arrow!'' @ [13, 10]
      else [])"

fun echo_spec :: "u8 list \<Rightarrow> u8 list" where
  "echo_spec [] = []"
| "echo_spec (c # cs) =
     (if c = 0x1b then
        (case cs of
           [] \<Rightarrow> []
         | b # cs1 \<Rightarrow>
             if b = 0x5b then (case cs1 of [] \<Rightarrow> [] | x # cs2 \<Rightarrow> echo_csi x @ echo_spec cs2)
             else echo_spec cs1)
      else echo_char c @ echo_spec cs)"

text \<open>One interrupt, by the state of the escape sequence.\<close>

definition esc_next :: "EscState \<Rightarrow> u8 \<Rightarrow> EscState" where
  "esc_next e c =
     (case e of
        Idle \<Rightarrow> if c = 0x1b then EscSeen else Idle
      | EscSeen \<Rightarrow> if c = 0x5b then CsiOpen else Idle
      | CsiOpen \<Rightarrow> Idle)"

definition esc_out :: "EscState \<Rightarrow> u8 \<Rightarrow> u8 list" where
  "esc_out e c =
     (case e of Idle \<Rightarrow> if c = 0x1b then [] else echo_char c | EscSeen \<Rightarrow> [] | CsiOpen \<Rightarrow> echo_csi c)"

lemma echo_uart_eq:
  assumes g: "get M UART_BASE (hw s) = (Some c, d)"
  shows "echo_uart M fuel s =
    bind_res (write_str M fuel UART_BASE (esc_out (ESC_STATE s) c) d) (\<lambda>d'.
      Inr (s\<lparr>hw := d', ESC_STATE := esc_next (ESC_STATE s) c\<rparr>))"
proof -
  have nl: "println M fuel bs s1 = print M fuel (bs @ [13, 10]) s1" for bs and s1 :: "('a, 'b) trap_state_scheme"
    by (simp add: println_def)
  have pr: "print M fuel bs (s\<lparr>hw := d\<rparr>) = bind_res (write_str M fuel UART_BASE bs d) (\<lambda>d'. Inr (s\<lparr>hw := d'\<rparr>))" for bs
    by (simp add: print_def console_writer_def)
  have none: "write_str M fuel UART_BASE [] d = Inr d" by (simp add: write_str_def)
  show ?thesis
  proof (cases "ESC_STATE s")
    case Idle
    then have same: "s\<lparr>hw := d', ESC_STATE := Idle\<rparr> = s\<lparr>hw := d'\<rparr>" for d' by simp
    have "echo_uart M fuel s = (if c = 0x1b then Inr (s\<lparr>hw := d, ESC_STATE := EscSeen\<rparr>)
        else print M fuel (echo_char c) (s\<lparr>hw := d\<rparr>))"
      by (simp add: echo_uart_def Let_def g Idle echo_char_def nl)
    then show ?thesis by (simp add: Idle esc_out_def esc_next_def pr none same)
  next
    case EscSeen
    then show ?thesis by (simp add: echo_uart_def Let_def g esc_out_def esc_next_def none)
  next
    case CsiOpen
    have "echo_uart M fuel s = bind_res (print M fuel (echo_csi c) (s\<lparr>hw := d\<rparr>)) (\<lambda>s2. Inr (s2\<lparr>ESC_STATE := Idle\<rparr>))"
      by (simp add: echo_uart_def Let_def g CsiOpen echo_csi_def nl print_def none console_writer_def)
    then show ?thesis by (simp add: CsiOpen esc_out_def esc_next_def pr bind_res_assoc)
  qed
qed

lemma echo_uart_byte:
  assumes dev: "uart_device M UART_BASE uv N" "N < fuel" and c: "rx (uv (hw s)) = c # cs"
  shows "\<exists>d. echo_uart M fuel s = Inr (s\<lparr>hw := d, ESC_STATE := esc_next (ESC_STATE s) c\<rparr>) \<and>
     sent (uv d) = sent (uv (hw s)) @ esc_out (ESC_STATE s) c \<and> rx (uv d) = cs"
proof -
  obtain d where d: "get M UART_BASE (hw s) = (Some c, d)" "sent (uv d) = sent (uv (hw s))" "rx (uv d) = cs"
    using get_takes [OF dev(1), of "hw s"] c by auto
  then show ?thesis
    using echo_uart_eq [OF d(1), of fuel] write_str_step [OF dev, of "esc_out (ESC_STATE s) c" d] by auto
qed

fun esc_run :: "EscState \<Rightarrow> u8 list \<Rightarrow> u8 list" where
  "esc_run e [] = []"
| "esc_run e (c # cs) = esc_out e c @ esc_run (esc_next e c) cs"

lemma esc_run_spec: "esc_run Idle cs = echo_spec cs"
  by (induction cs rule: echo_spec.induct) (auto simp: esc_out_def esc_next_def split: list.split)

lemma echo_uart_run:
  assumes dev: "uart_device M UART_BASE uv N" "N < fuel"
  shows "rx (uv (hw s)) = cs @ rest \<Longrightarrow>
    \<exists>d e. fold_res (\<lambda>_. echo_uart M fuel) cs s = Inr (s\<lparr>hw := d, ESC_STATE := e\<rparr>) \<and>
      sent (uv d) = sent (uv (hw s)) @ esc_run (ESC_STATE s) cs \<and> rx (uv d) = rest"
proof (induction cs arbitrary: s)
  case Nil
  then show ?case by (intro exI [of _ "hw s"] exI [of _ "ESC_STATE s"]) simp
next
  case (Cons c cs)
  obtain d where d: "echo_uart M fuel s = Inr (s\<lparr>hw := d, ESC_STATE := esc_next (ESC_STATE s) c\<rparr>)"
    "sent (uv d) = sent (uv (hw s)) @ esc_out (ESC_STATE s) c" "rx (uv d) = cs @ rest"
    using echo_uart_byte [OF dev, of s c "cs @ rest"] Cons.prems by auto
  with Cons.IH [of "s\<lparr>hw := d, ESC_STATE := esc_next (ESC_STATE s) c\<rparr>"] show ?case by auto
qed

section \<open>External interrupts\<close>

text \<open>The registered devices, with the completion loop safe to run in every slot.\<close>

definition queues_ok :: "('d, 'z) vio_state_scheme \<Rightarrow> bool" where
  "queues_ok s \<longleftrightarrow>
     length (BLOCK_DEVICES s) = 8 \<and>
     (\<forall>i < 8. dev (BLOCK_DEVICES s ! i) \<noteq> 0 \<longrightarrow>
        dev (BLOCK_DEVICES s ! i) = MMIO_VIRTIO_START + i * 4096 \<and> used_ok (mem s) (queue (BLOCK_DEVICES s ! i)))"

lemma bus_truncate [simp]: "rd32 (bus.truncate M) = rd32 M" "wr32 (bus.truncate M) = wr32 M" "dma (bus.truncate M) = dma M"
  by (simp_all add: bus.truncate_def)

lemma volatile_keeps [simp]:
  "mem (snd (read_volatile32 B a s)) = mem s" "BLOCK_DEVICES (snd (read_volatile32 B a s)) = BLOCK_DEVICES s"
  "mem (write_volatile32 B a v s) = mem s" "BLOCK_DEVICES (write_volatile32 B a v s) = BLOCK_DEVICES s"
  by (simp_all add: read_volatile32_def write_volatile32_def access_fault_trap_def split: prod.split)

lemma queues_ok_cong:
  "mem s' = mem s \<Longrightarrow> BLOCK_DEVICES s' = BLOCK_DEVICES s \<Longrightarrow> queues_ok s' = queues_ok s"
  by (simp add: queues_ok_def)

text \<open>Only the claim register changes what is in service.\<close>

lemma plic_regs:
  assumes "plic_device M pv"
  shows "a \<noteq> PLIC_CLAIM_HART0_M \<Longrightarrow> pv (hw (snd (read_volatile32 (bus.truncate M) a s))) = pv (hw s)"
    and "a \<noteq> PLIC_CLAIM_HART0_M \<Longrightarrow> pv (hw (write_volatile32 (bus.truncate M) a v s)) = pv (hw s)"
    and "pv (hw (plic_complete (bus.truncate M) src s)) = pv (hw s) - {src}"
  using assms
  by (simp_all add: plic_device_def read_volatile32_def write_volatile32_def access_fault_trap_def plic_complete_def
      split: prod.split)

lemma plic_next_step:
  assumes "plic_device M pv"
  obtains r d where "plic_next (bus.truncate M) s = (r, s\<lparr>hw := d\<rparr>)" "pv d = pv (hw s) \<union> set_option r"
    "set_option r \<inter> pv (hw s) = {}"
proof -
  obtain v ok d where v: "rd32 M PLIC_CLAIM_HART0_M (hw s) = (v, ok, d)" by (cases "rd32 M PLIC_CLAIM_HART0_M (hw s)")
  have "ok \<and> v \<notin> pv (hw s) \<and> pv d = (if v = 0 then pv (hw s) else insert v (pv (hw s)))"
    using assms [unfolded plic_device_def, THEN conjunct1] v by metis
  with v that [of "if v = 0 then None else Some v" d] show thesis
    by (simp add: plic_next_def read_volatile32_def split: if_splits)
qed

lemma write_str_pv:
  assumes "plic_device M pv" "write_str M fuel base bs d = Inr d'"
  shows "pv d' = pv d"
proof -
  have rd: "pv (snd (rd8 M a d)) = pv d" "pv (wr8 M a b d) = pv d" for a b d
    using assms(1) by (simp_all add: plic_device_def)
  have "pv d' = pv d" if "put M n base b d = Inr d'" for n b d d'
    using that
    by (induction n arbitrary: d)
      (auto simp: uart_read_def uart_write_def rd split: prod.splits if_splits, (metis rd snd_conv)+)
  with assms(2) show ?thesis
    by (induction bs arbitrary: d) (auto simp: write_str_def bind_res_Inr_iff)
qed

lemma println_pv:
  assumes "uart_device M UART_BASE uv N" "N < fuel" "plic_device M pv"
  shows "\<exists>d. println M fuel bs s = Inr (s\<lparr>hw := d\<rparr>) \<and> pv d = pv (hw s)"
  using write_str_step [OF assms(1,2), of "bs @ [13, 10]" "hw s"] write_str_pv [OF assms(3)]
  by (auto simp: println_def print_def console_writer_def)

lemma get_pv: "plic_device M pv \<Longrightarrow> pv (snd (get M base d)) = pv d"
  unfolding get_def uart_read_def plic_device_def by (auto split: prod.split) (metis snd_conv)+

lemma echo_uart_pv:
  assumes dev: "uart_device M UART_BASE uv N" "N < fuel" "plic_device M pv"
  shows "\<exists>d e. echo_uart M fuel s = Inr (s\<lparr>hw := d, ESC_STATE := e\<rparr>) \<and> pv d = pv (hw s)"
proof -
  obtain r d where g: "get M UART_BASE (hw s) = (r, d)" by (cases "get M UART_BASE (hw s)")
  have pd: "pv d = pv (hw s)" using get_pv [OF dev(3), of UART_BASE "hw s"] g by simp
  show ?thesis
  proof (cases r)
    case None
    then show ?thesis using g pd by (intro exI [of _ d] exI [of _ "ESC_STATE s"]) (simp add: echo_uart_def)
  next
    case (Some c)
    obtain d' where "write_str M fuel UART_BASE (esc_out (ESC_STATE s) c) d = Inr d'"
      using write_str_step [OF dev(1,2)] by blast
    then show ?thesis using echo_uart_eq [of M s c d fuel] write_str_pv [OF dev(3)] g Some pd by auto
  qed
qed

lemma pending_by_irq_step:
  assumes dev: "plic_device M pv" and q: "queues_ok s"
  shows "\<exists>b s'. pending_by_irq (bus.truncate M) src s = Inr (b, s') \<and> pv (hw s') = pv (hw s) \<and> queues_ok s'"
proof -
  let ?i = "unat (src - VIRTIO_MMIO_IRQ_BASE)"
  let ?bd = "BLOCK_DEVICES s ! ?i"
  let ?B = "bus.truncate M"
  show ?thesis
  proof (cases "src < VIRTIO_MMIO_IRQ_BASE \<or> MAX_VIRTIO_DEVICES \<le> ?i \<or> dev ?bd = 0")
    case True
    then show ?thesis using q by (auto simp: pending_by_irq_def Let_def)
  next
    case False
    then have i: "?i < 8" "dev ?bd \<noteq> 0" by (simp_all add: MAX_VIRTIO_DEVICES_def)
    then have bd: "dev ?bd = MMIO_VIRTIO_START + ?i * 4096" "used_ok (mem s) (queue ?bd)" and len: "length (BLOCK_DEVICES s) = 8"
      using q by (simp_all add: queues_ok_def)
    then have far: "dev ?bd + 4 * scale32 off \<noteq> PLIC_CLAIM_HART0_M" for off
      using i by (simp add: MMIO_VIRTIO_START_def PLIC_CLAIM_HART0_M_def)
    obtain isr s1 where r: "read_volatile32 ?B (dev ?bd + 4 * scale32 InterruptStatus) s = (isr, s1)"
      by (cases "read_volatile32 ?B (dev ?bd + 4 * scale32 InterruptStatus) s")
    have s1: "pv (hw s1) = pv (hw s)" "mem s1 = mem s" "BLOCK_DEVICES s1 = BLOCK_DEVICES s"
      using plic_regs(1) [OF dev far, of InterruptStatus s] volatile_keeps(1,2) [of ?B _ s] r by (metis snd_conv)+
    obtain bd' where bd': "pending (mem s1) ?bd = Inr bd'" "dev bd' = dev ?bd" "same_queue (queue ?bd) (queue bd')"
      using pending_run [OF bd(2)] s1(2) by auto
    let ?s2 = "write_volatile32 ?B (dev ?bd + 4 * scale32 InterruptAck) (isr AND 3) (set_dev ?i bd' s1)"
    have "pv (hw ?s2) = pv (hw s)" using plic_regs(2) [OF dev far, of InterruptAck "isr AND 3" "set_dev ?i bd' s1"] s1(1) by (simp add: set_dev_def)
    moreover have "queues_ok ?s2"
      using q bd' used_ok_same_queue [OF bd(2) bd'(3)] s1 len unfolding queues_ok_def
      by (simp add: set_dev_def nth_upd)
    moreover have "queues_ok s1" using q queues_ok_cong [of s1 s] s1 by simp
    ultimately show ?thesis
      using False r bd'(1) s1(1) by (cases "isr = 0") (auto simp: pending_by_irq_def Let_def)
  qed
qed

lemma handle_external_step:
  assumes dev: "uart_device M UART_BASE uv N" "N < fuel" "plic_device M pv" and q: "queues_ok s"
  shows "\<exists>s'. handle_external M fuel s = Inr s' \<and> pv (hw s') = pv (hw s) \<and> queues_ok s'"
proof -
  obtain r d where r: "plic_next (bus.truncate M) s = (r, s\<lparr>hw := d\<rparr>)" "pv d = pv (hw s) \<union> set_option r"
    "set_option r \<inter> pv (hw s) = {}" by (rule plic_next_step [OF dev(3)])
  let ?s = "s\<lparr>hw := d\<rparr>"
  have q1: "queues_ok ?s" using q by (simp add: queues_ok_def)
  show ?thesis
  proof (cases r)
    case None
    with r q1 show ?thesis by (simp add: handle_external_def)
  next
    case (Some src)
    let ?b = "if src = UART0_IRQ then echo_uart M fuel ?s
        else bind_res (pending_by_irq (bus.truncate M) src ?s) (\<lambda>(serviced, s2).
             if serviced then Inr s2
             else println M fuel (bytes ''non-UART external interrupt: '' @ dec (unat src)) s2)"
    have "\<exists>s3. ?b = Inr s3 \<and> pv (hw s3) = pv d \<and> queues_ok s3"
    proof (cases "src = UART0_IRQ")
      case True
      then show ?thesis using echo_uart_pv [OF dev, of ?s] q1 by (auto simp: queues_ok_def)
    next
      case False
      obtain b s2 where s2: "pending_by_irq (bus.truncate M) src ?s = Inr (b, s2)" "pv (hw s2) = pv d" "queues_ok s2"
        using pending_by_irq_step [OF dev(3) q1, of src] by auto
      obtain d2 where "println M fuel (bytes ''non-UART external interrupt: '' @ dec (unat src)) s2 = Inr (s2\<lparr>hw := d2\<rparr>)"
        "pv d2 = pv (hw s2)" using println_pv [OF dev] by blast
      with False s2 show ?thesis by (cases b) (simp_all add: queues_ok_def)
    qed
    then obtain s3 where "?b = Inr s3" "pv (hw s3) = pv d" "queues_ok s3" by blast
    moreover have "handle_external M fuel s = bind_res ?b (\<lambda>s3. Inr (plic_complete (bus.truncate M) src s3))"
      using r(1) Some by (simp add: handle_external_def)
    moreover have "queues_ok (plic_complete (bus.truncate M) src s3) = queues_ok s3" for s3 :: "('a, 'b) trap_state_scheme"
      by (rule queues_ok_cong) (simp_all add: plic_complete_def)
    ultimately show ?thesis using r(2,3) Some plic_regs(3) [OF dev(3), of src s3] by (simp only: bind_res_simps) auto
  qed
qed

section \<open>Properties\<close>

text \<open>
  C39: The console echo reads its input as a whole would be read: one interrupt per byte, with the
  place in an escape sequence kept between interrupts, prints exactly what the reference prints,
  erasing on backspace, turning arrow keys into lines and dropping other escape sequences.
\<close>

lemma echo_uart_reads_sequences:
  assumes dev: "uart_device M UART_BASE uv N" "N < fuel"
    and s: "ESC_STATE s = Idle" "rx (uv (hw s)) = cs @ rest"
  shows "\<exists>s'. fold_res (\<lambda>_. echo_uart M fuel) cs s = Inr s' \<and>
     sent (uv (hw s')) = sent (uv (hw s)) @ echo_spec cs \<and> rx (uv (hw s')) = rest"
  using echo_uart_run [OF dev s(2)] s(1) by (auto simp: esc_run_spec)

definition demo_console :: "u8 list \<Rightarrow> uview trap_state" where
  "demo_console input =
     \<lparr>mem = (\<lambda>_. 0), ALLOC_START = 0, slots = replicate 16 None, current = None, NEXT_PID = 1,
      BLOCK_DEVICES = [], VIRTIO_DEVICES = [], ACCESS_FAULT_SEEN = False, hw = \<lparr>sent = [], rx = input, busy = 0\<rparr>,
      TRAP_STACK_TOP = 0, TRAP_FRAME = TrapFrame_empty, ESC_STATE = Idle, mscratch = StaticFrame,
      mtvec = m_trap_vector, mie = 0\<rparr>"

theorem echo_uart_reads_sequences_witness:
  "\<exists>s'. fold_res (\<lambda>_. echo_uart demo_chip 3) [0x78 :: u8, 0x1b, 0x5b, 0x41, 0x7f] (demo_console [0x78, 0x1b, 0x5b, 0x41, 0x7f]) = Inr s' \<and>
     sent (hw s') = [0x78] @ bytes ''up arrow!'' @ [13, 10, 8, 32, 8]"
proof -
  have "echo_spec [0x78, 0x1b, 0x5b, 0x41, 0x7f] = [0x78] @ bytes ''up arrow!'' @ [13, 10, 8, 32, 8]"
    by (simp add: echo_char_def char_bytes_def echo_csi_def)
  with echo_uart_reads_sequences [OF demo_chip_uart, of 3 "demo_console [0x78, 0x1b, 0x5b, 0x41, 0x7f]" _ "[]"]
  show ?thesis by (auto simp: demo_console_def)
qed

text \<open>
  C40: Every external interrupt is answered. Whatever source the controller reports, the handler
  returns, the source it claimed is completed again, so that the set of sources in service is as
  before, and the block devices' queues stay fit for the next interrupt.
\<close>

lemma handle_external_completes:
  assumes uart: "uart_device M UART_BASE uv N" "N < fuel" and plic: "plic_device M pv" and q: "queues_ok s"
  shows "\<exists>s'. handle_external M fuel s = Inr s' \<and> pv (hw s') = pv (hw s) \<and> queues_ok s'"
  by (rule handle_external_step [OF uart plic q])

text \<open>The serial port with a controller that has a list of pending sources.\<close>

type_synonym demo_hw = "uview \<times> u32 list \<times> u32 set"

definition demo_soc :: "demo_hw soc" where
  "demo_soc =
     \<lparr>rd32 = (\<lambda>a (u, pend, svc).
        if a = PLIC_CLAIM_HART0_M then
          (case find (\<lambda>v. v \<notin> svc \<and> v \<noteq> 0) pend of None \<Rightarrow> (0, True, (u, pend, svc)) | Some v \<Rightarrow> (v, True, (u, pend, insert v svc)))
        else (0, True, (u, pend, svc))),
      wr32 = (\<lambda>a v (u, pend, svc). (True, (u, pend, if a = PLIC_CLAIM_HART0_M then svc - {v} else svc))),
      dma = (\<lambda>m d. (m, d)),
      rd8 = (\<lambda>a (u, p). case rd8 demo_chip a u of (v, u1) \<Rightarrow> (v, (u1, p))),
      wr8 = (\<lambda>a b (u, p). (wr8 demo_chip a b u, p)),
      rd64 = (\<lambda>_ d. (0, d)), wr64 = (\<lambda>_ _ d. d)\<rparr>"

lemma demo_soc_uart: "uart_device demo_soc UART_BASE (\<lambda>d. (fst d)\<lparr>busy := min (busy (fst d)) 2\<rparr>) 2"
  using demo_chip_uart by (simp add: uart_device_def demo_soc_def split_beta)

lemma demo_soc_plic: "plic_device demo_soc (\<lambda>d. snd (snd d) - {0})"
  by (auto simp: plic_device_def demo_soc_def find_Some_iff split: prod.splits option.splits if_splits)

definition demo_kernel :: "demo_hw \<Rightarrow> demo_hw trap_state" where
  "demo_kernel d =
     \<lparr>mem = (\<lambda>_. 0), ALLOC_START = 0, slots = replicate 16 None, current = None, NEXT_PID = 1,
      BLOCK_DEVICES = replicate 8 BlockDevice_empty, VIRTIO_DEVICES = replicate 8 None, ACCESS_FAULT_SEEN = False,
      hw = d, TRAP_STACK_TOP = 0, TRAP_FRAME = TrapFrame_empty, ESC_STATE = Idle, mscratch = StaticFrame,
      mtvec = m_trap_vector, mie = 0\<rparr>"

theorem handle_external_completes_witness:
  "\<exists>s'. handle_external demo_soc 3 (demo_kernel (\<lparr>sent = [], rx = [0x61], busy = 0\<rparr>, [10, 3], {3})) = Inr s' \<and>
     snd (snd (hw s')) - {0} = {3}"
proof -
  let ?s = "demo_kernel (\<lparr>sent = [], rx = [0x61], busy = 0\<rparr>, [10, 3], {3})"
  have "queues_ok ?s" by (simp add: queues_ok_def demo_kernel_def BlockDevice_empty_def)
  moreover have "snd (snd (hw ?s)) - {0} = {3}" by (simp add: demo_kernel_def)
  ultimately show ?thesis using handle_external_completes [OF demo_soc_uart _ demo_soc_plic, of 3 ?s] by auto
qed

end
