(* ===== verification/BootMap.thy ===== *)
theory BootMap
  imports Boot Translate Probe Untouched TrapProps
begin

text \<open>
  The kernel's address space. The sections that \<open>kinit\<close> maps are rounded out to pages; mapping
  them one after the other gives every address the flags of the last section it lies in, at most
  67 tables are needed below the root, and what the rest of \<open>kinit\<close> does leaves the tables alone.
\<close>

section \<open>Rounding\<close>

lemma word_lt64: "unat (w :: u64) < 2 ^ 64"
  by (rule order.strict_trans2 [OF unsigned_less]) simp

lemma word_page_base: "unat ((w :: u64) AND NOT (mask 12)) = unat w div 4096 * 4096"
proof -
  have "w AND NOT (mask 12) = push_bit 12 (drop_bit 12 w)"
    by (rule bit_word_eqI) (auto simp: bit_and_iff bit_not_iff bit_mask_iff bit_push_bit_iff bit_drop_bit_eq)
  moreover have "unat w div 4096 * 4096 < 2 ^ 64" using word_lt64 [of w] by simp
  ultimately show ?thesis by (simp add: push_bit_eq_mult unat_word_ariths unat_drop12 mult.commute)
qed

lemma align_down_page: "a < 2 ^ 64 \<Longrightarrow> align_down a PAGE_SIZE = Inr (a div 4096 * 4096)"
  using word_page_base [of "of_nat a"]
  by (simp add: align_down_def is_power_of_two_def unat_of_nat mask_eq_exp_minus_1)

lemma align_up_page: "next_multiple b 4096 < 2 ^ 64 \<Longrightarrow> entry_align_up b PAGE_SIZE = Inr (next_multiple b 4096)"
  by (simp add: entry_align_up_def is_power_of_two_def usize_next_multiple_of_def)

definition in_pages :: "nat \<Rightarrow> nat \<Rightarrow> nat \<Rightarrow> bool" where
  "in_pages a b x \<longleftrightarrow> a div 4096 * 4096 \<le> x \<and> x < next_multiple b 4096"

section \<open>Mapping a list of sections\<close>

definition section_fits :: "nat list set \<Rightarrow> nat \<times> nat \<times> pte \<Rightarrow> bool" where
  "section_fits Q = (\<lambda>(a, b, bits). a < 2 ^ 64 \<and> next_multiple b 4096 \<le> 2 ^ 39 \<and> bits AND RWX \<noteq> 0 \<and>
     range_tables (a div 4096 * 4096) (next_multiple b 4096) \<subseteq> Q)"

definition lay :: "u64 \<Rightarrow> nat \<times> nat \<times> pte \<Rightarrow> (pte \<times> nat) option \<Rightarrow> (pte \<times> nat) option" where
  "lay va = (\<lambda>(a, b, bits) old. if in_pages a b (unat va) then Some (leaf_pte va bits, 0) else old)"

lemma map_section_spec:
  assumes inv: "pt_inv L root s" and fits: "section_fits Q (a, b, bits)"
    and nl: "\<forall>va. unat va < 2 ^ 39 \<longrightarrow> no_leaf_above (mem s) root va 0"
    and Q: "finite Q" "\<forall>q \<in> Q. ok_path q" and enough: "card (missing (mem s) root Q) \<le> free_count (descriptors L s)"
  shows "\<exists>s'. map_section L root a b bits s = Inr s' \<and> pt_grow L root Q s s' \<and>
     (\<forall>va. unat va < 2 ^ 39 \<longrightarrow> leaf_of (mem s') root (vpath va) = lay va (a, b, bits) (leaf_of (mem s) root (vpath va)))"
proof -
  have f: "a < 2 ^ 64" "next_multiple b 4096 \<le> 2 ^ 39" "bits AND RWX \<noteq> 0"
    "range_tables (a div 4096 * 4096) (next_multiple b 4096) \<subseteq> Q" using fits by (simp_all add: section_fits_def)
  have al: "a div 4096 * 4096 mod 4096 = 0" "next_multiple b 4096 mod 4096 = 0"
    using next_multiple_dvd [of 4096 b] by (simp_all add: dvd_eq_mod_eq_0)
  have nl': "\<forall>va. a div 4096 * 4096 \<le> unat va \<and> unat va < next_multiple b 4096 \<longrightarrow> no_leaf_above (mem s) root va 0"
    using nl f(2) by auto
  have "map_section L root a b bits s = id_map_range L root (a div 4096 * 4096) (next_multiple b 4096) bits s"
    using align_down_page [OF f(1)] align_up_page [of b] f(2) by (simp add: map_section_def del: PAGE_SIZE_eq)
  with id_map_range_spec [OF inv al f(2,3) nl' Q f(4) enough] show ?thesis
    by (simp add: lay_def in_pages_def)
qed

lemma map_sections_spec:
  assumes "pt_inv L root s" "\<forall>x \<in> set xs. section_fits Q x"
    "\<forall>va. unat va < 2 ^ 39 \<longrightarrow> no_leaf_above (mem s) root va 0"
    and Q: "finite Q" "\<forall>q \<in> Q. ok_path q" and "card (missing (mem s) root Q) \<le> free_count (descriptors L s)"
  shows "\<exists>s'. fold_res (\<lambda>(a, b, bits). map_section L root a b bits) xs s = Inr s' \<and> pt_grow L root Q s s' \<and>
     (\<forall>va. unat va < 2 ^ 39 \<longrightarrow> leaf_of (mem s') root (vpath va) = fold (lay va) xs (leaf_of (mem s) root (vpath va)))"
  using assms(1-3,6)
proof (induction xs arbitrary: s)
  case Nil
  then show ?case by (simp add: pt_grow_refl)
next
  case (Cons x xs)
  obtain a b bits where x: "x = (a, b, bits)" by (cases x)
  from map_section_spec [OF Cons.prems(1) _ Cons.prems(3) Q Cons.prems(4), of a b bits] Cons.prems(2) x
  obtain s1 where s1: "map_section L root a b bits s = Inr s1" "pt_grow L root Q s s1"
    "\<And>va. unat va < 2 ^ 39 \<Longrightarrow> leaf_of (mem s1) root (vpath va) = lay va x (leaf_of (mem s) root (vpath va))"
    by auto
  have "no_leaf_above (mem s1) root va 0" if "unat va < 2 ^ 39" for va
    using Cons.prems(3) s1(3) [OF that] that by (auto simp: no_leaf_above_def lay_def x split: if_splits)
  then have "\<exists>s'. fold_res (\<lambda>(a, b, bits). map_section L root a b bits) xs s1 = Inr s' \<and> pt_grow L root Q s1 s' \<and>
     (\<forall>va. unat va < 2 ^ 39 \<longrightarrow> leaf_of (mem s') root (vpath va) = fold (lay va) xs (leaf_of (mem s1) root (vpath va)))"
    using Cons.prems(2) s1(2) pt_grow_enough [OF s1(2) Cons.prems(4)] by (intro Cons.IH) (auto simp: pt_grow_def)
  with s1 x show ?case by (auto intro: pt_grow_trans)
qed

section \<open>The tables that are needed\<close>

definition kernel_tables :: "nat list set" where
  "kernel_tables = {[0], [0, 128], [2]} \<union> (\<lambda>j. [2, j]) ` {..<64}"

lemma kernel_tables_ok: "finite kernel_tables" "\<forall>q \<in> kernel_tables. ok_path q" "card kernel_tables \<le> 67"
proof -
  have "card ((\<lambda>j :: nat. [2, j]) ` {..<64}) \<le> 64" using card_image_le [of "{..<64 :: nat}"] by simp
  moreover have "card {[0], [0, 128], [2 :: nat]} \<le> 3" by (simp add: card_insert_le_m1)
  ultimately show "card kernel_tables \<le> 67"
    unfolding kernel_tables_def using card_Un_le [of "{[0], [0, 128], [2 :: nat]}" "(\<lambda>j. [2, j]) ` {..<64}"] by linarith
qed (auto simp: kernel_tables_def ok_path_def)

lemma vpath_nat:
  assumes "a < 2 ^ 64"
  shows "vpath (of_nat a) = [a div 2 ^ 30 mod 512, a div 2 ^ 21 mod 512, a div 2 ^ 12 mod 512]"
proof -
  have m: "(0x1ff :: u64) = mask 9" by (simp add: mask_eq_exp_minus_1)
  have "unat (drop_bit k (of_nat a :: u64) AND 0x1ff) = unat (take_bit 9 (drop_bit k (of_nat a :: u64)))" for k
    by (simp add: m take_bit_eq_mask del: take_bit_eq_mod)
  also have "unat (take_bit 9 (drop_bit k (of_nat a :: u64))) = a div 2 ^ k mod 512" for k
    using assms unfolding unsigned_take_bit_eq unat_drop_bit_eq by (simp add: unat_of_nat take_bit_eq_mod drop_bit_eq_div)
  finally have "unat (drop_bit k (of_nat a :: u64) AND 0x1ff) = a div 2 ^ k mod 512" for k .
  then show ?thesis by (simp add: vpath_def vpn_def)
qed

lemma range_tables_kernel:
  assumes "ram_origin \<le> a \<and> b \<le> 0x88000000 \<or> 0x10000000 \<le> a \<and> b \<le> 0x10200000" "a mod 4096 = 0" "b mod 4096 = 0"
  shows "range_tables a b \<subseteq> kernel_tables"
proof
  fix q assume "q \<in> range_tables a b"
  then obtain p j where p: "p \<in> set (page_range a b)" "j \<in> {1..2}" "q = take j (vpath (of_nat p))"
    by (auto simp: range_tables_def map_paths_def)
  obtain k where k: "k < length (page_range a b)" "p = a + k * 4096"
    using p(1) page_range_props(2) [OF assms(2,3)] by (auto simp: in_set_conv_nth)
  then have r: "a \<le> p" "p < b" using page_range_props(1) [OF assms(2,3)] by auto
  have "p < 2 ^ 64" using r assms(1) by auto
  with p(2,3) have q: "q = [p div 2 ^ 30 mod 512] \<or> q = [p div 2 ^ 30 mod 512, p div 2 ^ 21 mod 512]"
    by (auto simp: vpath_nat le_Suc_eq numeral_2_eq_2)
  consider (ram) x where "p = 0x80000000 + x" "x < 0x8000000" | (dev) x where "p = 0x10000000 + x" "x < 0x200000"
  proof (cases "ram_origin \<le> a")
    case True
    then show thesis using that(1) [of "p - 0x80000000"] r assms(1) by (auto simp: ram_origin_def)
  next
    case False
    then show thesis using that(2) [of "p - 0x10000000"] r assms(1) by auto
  qed
  then show "q \<in> kernel_tables"
  proof cases
    case ram
    then have "p div 2 ^ 21 = 1024 + x div 2 ^ 21" "x div 2 ^ 21 < 64" by simp_all
    then have "p div 2 ^ 21 mod 512 < 64" using mod_mult_self2 [of "x div 2 ^ 21" 512 2] by (simp add: add.commute)
    moreover have "p div 2 ^ 30 mod 512 = 2" using ram by simp
    ultimately show ?thesis using q by (auto simp: kernel_tables_def)
  next
    case dev
    then have "p div 2 ^ 30 mod 512 = 0" "p div 2 ^ 21 mod 512 = 128" by simp_all
    with q show ?thesis by (auto simp: kernel_tables_def)
  qed
qed

section \<open>The address space\<close>

text \<open>The flags an address is meant to have, if the kernel maps it at all.\<close>

definition kernel_flags :: "linker \<Rightarrow> nat \<Rightarrow> pte option" where
  "kernel_flags L x =
     (if in_pages (text_start L) (text_end L) x then Some rx_flags
      else if in_pages (rodata_start L) (rodata_end L) x then Some ro_flags
      else if in_pages (data_start L) (data_end L) x \<or> in_pages (bss_start L) (bss_end L) x \<or>
        in_pages (stack_start L) (stack_end L) x \<or> in_pages (heap_start L) (memory_end L) x \<or>
        0x10000000 \<le> x \<and> x < 0x10009000 then Some rw_flags
      else None)"

lemmas kernel_flag_bits = rx_flags_def ro_flags_def rw_flags_def READ_def WRITE_def EXECUTE_def ACCESSED_def DIRTY_def

definition lay_flags :: "nat \<Rightarrow> nat \<times> nat \<times> pte \<Rightarrow> pte option \<Rightarrow> pte option" where
  "lay_flags x = (\<lambda>(a, b, f) old. if in_pages a b x then Some f else old)"

lemma lay_sections:
  "fold (lay va) xs (map_option (\<lambda>f. (leaf_pte va f, 0)) old) =
     map_option (\<lambda>f. (leaf_pte va f, 0)) (fold (lay_flags (unat va)) xs old)"
proof (induction xs arbitrary: old)
  case (Cons x xs)
  obtain a b f where x: "x = (a, b, f)" by (cases x)
  have "lay va x (map_option (\<lambda>f. (leaf_pte va f, 0)) old) = map_option (\<lambda>f. (leaf_pte va f, 0)) (lay_flags (unat va) x old)"
    by (simp add: x lay_def lay_flags_def)
  then show ?case by (simp add: Cons.IH)
qed simp

lemma page_floor_mono: "a \<le> b \<Longrightarrow> b mod 4096 = 0 \<Longrightarrow> next_multiple a 4096 \<le> b"
  by (rule next_multiple_least) auto

lemma page_floor_ge: "c \<le> a \<Longrightarrow> c mod 4096 = 0 \<Longrightarrow> c \<le> a div 4096 * (4096 :: nat)"
  by (metis div_le_mono div_mult_mod_eq add_0_right mult_le_mono1)

lemma kernel_sections_flags:
  assumes "lds_ok L"
  shows "fold (lay_flags x) (kernel_sections L 0x10000000) None = kernel_flags L x"
proof -
  have tx: "x < rodata_start L" if "in_pages (text_start L) (text_end L) x"
    using that page_floor_mono [of "text_end L" "rodata_start L"] assms by (simp add: in_pages_def lds_ok_def)
  have ro: "rodata_start L \<le> x" "x < data_start L" if "in_pages (rodata_start L) (rodata_end L) x"
    using that page_floor_mono [of "rodata_end L" "data_start L"] page_floor_ge [of "rodata_start L" "rodata_start L"] assms
    by (simp_all add: in_pages_def lds_ok_def)
  have floor: "data_start L \<le> x" if "in_pages a b x" "data_start L \<le> a" for a b
    using that page_floor_ge [of "data_start L" a] assms by (simp add: in_pages_def lds_ok_def)
  have high: "data_start L \<le> bss_start L" "data_start L \<le> stack_start L" "data_start L \<le> heap_start L"
    "rodata_start L \<le> data_start L" "0x80000000 \<le> data_start L" "0x80000000 \<le> text_start L" "0x80000000 \<le> rodata_start L"
    using assms by (simp_all add: lds_ok_def ram_origin_def)
  have low: "0x80000000 \<le> x" if "in_pages a b x" "0x80000000 \<le> a" for a b
    using that page_floor_ge [of "0x80000000" a] by (simp add: in_pages_def)
  have dev: "in_pages 0x10000000 0x10001000 x \<longleftrightarrow> 0x10000000 \<le> x \<and> x < 0x10001000"
    "in_pages 0x10001000 0x10009000 x \<longleftrightarrow> 0x10001000 \<le> x \<and> x < 0x10009000"
    by (simp_all add: in_pages_def next_multiple_def)
  show ?thesis
  proof (cases "x < 0x80000000")
    case True
    then have "\<not> in_pages a b x" if "0x80000000 \<le> a" for a b using low that by fastforce
    then show ?thesis using True high dev
      by (auto simp: lay_flags_def kernel_flags_def kernel_sections_def MMIO_VIRTIO_START_def MMIO_VIRTIO_END_def MMIO_VIRTIO_STRIDE_def)
  next
    case False
    then have nd: "\<not> in_pages 0x10000000 0x10001000 x" "\<not> in_pages 0x10001000 0x10009000 x" using dev by auto
    let ?rw = "in_pages (data_start L) (data_end L) x \<or> in_pages (bss_start L) (bss_end L) x \<or>
        in_pages (stack_start L) (stack_end L) x \<or> in_pages (heap_start L) (memory_end L) x"
    have "?rw \<Longrightarrow> data_start L \<le> x" using floor high by blast
    then have "?rw \<Longrightarrow> \<not> in_pages (text_start L) (text_end L) x \<and> \<not> in_pages (rodata_start L) (rodata_end L) x"
      using tx ro high(4) by fastforce
    moreover have "\<not> (in_pages (text_start L) (text_end L) x \<and> in_pages (rodata_start L) (rodata_end L) x)"
      using tx ro by fastforce
    ultimately show ?thesis using False nd
      by (auto simp: lay_flags_def kernel_flags_def kernel_sections_def MMIO_VIRTIO_START_def MMIO_VIRTIO_END_def MMIO_VIRTIO_STRIDE_def)
  qed
qed

lemma kernel_sections_fit:
  assumes "lds_ok L"
  shows "\<forall>x \<in> set (kernel_sections L 0x10000000). section_fits kernel_tables x"
proof -
  have ram: "section_fits kernel_tables (a, b, f)" if "0x80000000 \<le> a" "a \<le> 0x88000000" "b \<le> 0x88000000" "f AND RWX \<noteq> 0" for a b f
  proof -
    have "next_multiple b 4096 \<le> 0x88000000" "0x80000000 \<le> a div 4096 * 4096"
      using that page_floor_mono [of b "0x88000000"] page_floor_ge [of "0x80000000" a] by simp_all
    moreover have "next_multiple b 4096 mod 4096 = 0" using next_multiple_dvd [of 4096 b] by (simp add: dvd_eq_mod_eq_0)
    ultimately show ?thesis using that range_tables_kernel [of "a div 4096 * 4096" "next_multiple b 4096"]
      by (simp add: section_fits_def ram_origin_def)
  qed
  have dev: "section_fits kernel_tables (0x10000000, 0x10001000, rw_flags)" "section_fits kernel_tables (0x10001000, 0x10009000, rw_flags)"
    using range_tables_kernel [of "0x10000000" "0x10001000"] range_tables_kernel [of "0x10001000" "0x10009000"]
    by (simp_all add: section_fits_def next_multiple_def kernel_flag_bits RWX_def)
  have fl: "rx_flags AND RWX \<noteq> 0" "ro_flags AND RWX \<noteq> 0" "rw_flags AND RWX \<noteq> 0"
    by (simp_all add: kernel_flag_bits RWX_def)
  show ?thesis using assms dev ram fl
    by (simp add: kernel_sections_def MMIO_VIRTIO_START_def MMIO_VIRTIO_END_def MMIO_VIRTIO_STRIDE_def lds_ok_def
        ram_origin_def ram_length_def)
qed

lemma map_kernel_spec:
  assumes lds: "lds_ok L" and inv: "pt_inv L root s" and empty: "\<And>q. full_path q \<Longrightarrow> leaf_of (mem s) root q = None"
    and enough: "67 \<le> free_count (descriptors L s)"
  shows "\<exists>s'. map_kernel L root s = Inr s' \<and> pt_grow L root kernel_tables s s' \<and>
     (\<forall>va. unat va < 2 ^ 39 \<longrightarrow>
        leaf_of (mem s') root (vpath va) = map_option (\<lambda>f. (leaf_pte va f, 0)) (kernel_flags L (unat va)))"
proof -
  have none: "leaf_of (mem s) root (vpath va) = None" for va using empty vpath_full by simp
  then have nl: "\<forall>va. unat va < 2 ^ 39 \<longrightarrow> no_leaf_above (mem s) root va 0" by (simp add: no_leaf_above_def)
  have "card (missing (mem s) root kernel_tables) \<le> card kernel_tables"
    by (rule card_mono) (auto simp: missing_def kernel_tables_ok)
  then have en: "card (missing (mem s) root kernel_tables) \<le> free_count (descriptors L s)"
    using kernel_tables_ok(3) enough by linarith
  obtain s' where s': "fold_res (\<lambda>(a, b, bits). map_section L root a b bits) (kernel_sections L 0x10000000) s = Inr s'"
    "pt_grow L root kernel_tables s s'"
    "\<And>va. unat va < 2 ^ 39 \<Longrightarrow> leaf_of (mem s') root (vpath va) = fold (lay va) (kernel_sections L 0x10000000) None"
    using map_sections_spec [OF inv kernel_sections_fit [OF lds] nl kernel_tables_ok(1,2) en] none by auto
  have "align_down UART_BASE PAGE_SIZE = Inr 0x10000000"
    using align_down_page [of "0x10000000"] by (simp add: UART_BASE_def)
  moreover have "fold (lay va) (kernel_sections L 0x10000000) None = map_option (\<lambda>f. (leaf_pte va f, 0)) (kernel_flags L (unat va))" for va
    using lay_sections [of va _ None] kernel_sections_flags [OF lds, of "unat va"] by simp
  ultimately show ?thesis using s' by (auto simp: map_kernel_def simp del: PAGE_SIZE_eq)
qed

section \<open>What keeps the tables\<close>

lemma tbl_frame:
  assumes "\<And>k t. k < length p \<Longrightarrow> tbl m r (take k p) = Some t \<Longrightarrow> pte_at m' t (p ! k) = pte_at m t (p ! k)"
  shows "tbl m' r p = tbl m r p"
  using assms
proof (induction p arbitrary: r)
  case (Cons i p)
  have e: "pte_at m' r i = pte_at m r i" using Cons.prems [of 0 r] by simp
  show ?case
  proof (cases "is_valid (pte_at m r i) \<and> is_branch (pte_at m r i)")
    case True
    have "tbl m' (next_table (pte_at m r i)) p = tbl m (next_table (pte_at m r i)) p"
      using Cons.prems [of "Suc k" for k] True by (intro Cons.IH) auto
    with e True show ?thesis by (simp add: Let_def)
  qed (use e in \<open>auto simp: Let_def\<close>)
qed simp

lemma keeps_held_tables:
  assumes inv: "pt_inv L root s" and k: "keeps_held L s s'"
  shows "pt_inv L root s'" "\<And>q. full_path q \<Longrightarrow> leaf_of (mem s') root q = leaf_of (mem s) root q"
proof -
  have pte: "pte_at (mem s') t i = pte_at (mem s) t i" if "ok_path q" "tbl (mem s) root q = Some t" "i < 512" for q t i
  proof -
    have "(t, 1) \<in> held L s" using pt_invD(2) [OF inv that(1,2)] .
    then have "mem s' x = mem s x" if "t \<le> x" "x < t + 4096" for x using k that by (fastforce simp: keeps_held_def)
    then have "map (\<lambda>j. mem s' (t + 8 * i + j)) [0..<8] = map (\<lambda>j. mem s (t + 8 * i + j)) [0..<8]"
      using that(3) by (intro map_cong refl) auto
    then show ?thesis by (simp only: get_entry_def ld64_def rd_bytes_def)
  qed
  have tb: "tbl (mem s') root q = tbl (mem s) root q" if "ok_path q" for q
    using that by (intro tbl_frame pte) (auto simp: ok_path_def dest!: in_set_takeD)
  show "leaf_of (mem s') root q = leaf_of (mem s) root q" if "full_path q" for q
    using that full_path_take [OF that] by (intro leaf_of_frame pte) (auto simp: full_path_def)
  show "pt_inv L root s'" using inv k tb unfolding pt_inv_def keeps_held_def by (metis subsetD)
qed

lemma zallocate_keeps_held:
  assumes inv: "frames_inv L s" and z: "zallocate L n s = Inr (Some p, s')"
  shows "keeps_held L s s'"
proof -
  note za = zallocate_Some [OF inv z]
  have "mem s' x = mem s x" if h: "(c, k) \<in> held L s" "c \<le> x" "x < c + k * PAGE_SIZE" for c k x
  proof (rule za(8))
    show "x \<notin> desc_region L" using held_table_cases [OF inv h(1), of x] h(2,3) by force
    show "x < p \<or> p + n * PAGE_SIZE \<le> x" using held_disjoint [of c k L s' p n] za(2,3) h by fastforce
  qed
  then show ?thesis using za(1,2) by (auto simp: keeps_held_def)
qed

section \<open>The trap stack\<close>

text \<open>Where fewer pages are taken than there are groups of four, one group is free.\<close>

lemma free_window:
  assumes "length ds - free_count ds < length ds div n" "0 < n"
  shows "\<exists>i. window_free ds i n"
proof -
  let ?T = "{j. j < length ds \<and> is_taken (ds ! j)}"
  have "{j. j < length ds \<and> \<not> is_taken (ds ! j)} = {..<length ds} - ?T" by auto
  then have "free_count ds = length ds - card ?T" by (simp add: free_count_card) (subst card_Diff_subset; auto)
  moreover have "card ?T \<le> length ds" using card_mono [of "{..<length ds}" ?T] by auto
  ultimately have "card ?T < length ds div n" using assms(1) by simp
  then have "card ((\<lambda>j. j div n) ` ?T) < card {..<length ds div n}" using card_image_le [of ?T "\<lambda>j. j div n"] by simp
  then have "\<not> {..<length ds div n} \<subseteq> (\<lambda>j. j div n) ` ?T"
    using card_mono [of "(\<lambda>j. j div n) ` ?T" "{..<length ds div n}"] by auto
  then obtain k where k: "k < length ds div n" "k \<notin> (\<lambda>j. j div n) ` ?T" by auto
  have "(k + 1) * n \<le> length ds" using mult_le_mono1 [of "k + 1" "length ds div n" n] div_times_less_eq_dividend [of "length ds" n] k(1) by linarith
  moreover have "\<not> is_taken (ds ! (k * n + j))" if "j < n" for j
  proof
    assume "is_taken (ds ! (k * n + j))"
    moreover have "k * n + j < length ds" using \<open>(k + 1) * n \<le> length ds\<close> that by simp
    ultimately have "(k * n + j) div n \<in> (\<lambda>j. j div n) ` ?T" by blast
    with k(2) that show False by simp
  qed
  ultimately show ?thesis by (intro exI [of _ "k * n"]) (simp add: window_free_def)
qed

lemma zallocate_window:
  assumes inv: "frames_inv L s" and n: "0 < n" and w: "window_free (descriptors L s) i n"
  shows "\<exists>p s'. zallocate L n s = Inr (Some p, s')"
proof -
  let ?i = "LEAST i. window_free (descriptors L s) i n"
  have "allocate L n s = Inr (Some (ALLOC_START s + ?i * PAGE_SIZE), set_descriptors L (mark_run (descriptors L s) ?i n) s)"
    by (rule allocate_fits [OF inv n LeastI [of "\<lambda>i. window_free (descriptors L s) i n", OF w]])
      (auto dest: not_less_Least)
  then show ?thesis using zallocate_Some_iff [OF inv] by blast
qed

section \<open>What discovery leaves alone\<close>

lemma quiet_view: "quiet s s' \<Longrightarrow> proc_view s' = proc_view s"
  by (simp add: proc_view_def quiet_def)

lemma try_write_keeps:
  assumes "\<And>s1. keeps proc_view (k s1) s1"
  shows "keeps proc_view (try_write B ptr reg w k s) s"
proof -
  obtain ok s1 where w: "mmio_write32 B ptr reg w s = (ok, s1)" by fastforce
  note v = quiet_view [OF mmio_write32_quiet [OF w]]
  show ?thesis using keeps_trans [OF assms v] w v by (simp add: try_write_def)
qed

lemma try_read_keeps:
  assumes "\<And>v s1. keeps proc_view (k v s1) s1"
  shows "keeps proc_view (try_read B ptr reg k s) s"
proof -
  obtain r s2 where r: "mmio_read32 B ptr reg s = (r, s2)" by fastforce
  note v = quiet_view [OF mmio_read32_quiet [OF r]]
  show ?thesis using keeps_trans [OF assms v] r v by (simp add: try_read_def split: option.split)
qed

lemma print_view: "print M fuel bs s = Inr s' \<Longrightarrow> proc_view s' = proc_view s" "println M fuel bs s = Inr s' \<Longrightarrow> proc_view s' = proc_view s"
  by (auto simp: println_def print_def bind_res_Inr_iff)

lemma setup_keeps: "keeps proc_view (setup_block_device L M fuel ptr s) s"
proof -
  have give: "keeps proc_view (give_up M fuel msg ptr t) t" for msg and t :: "('a, 'b) vio_state_scheme"
    unfolding give_up_def
  proof (rule keeps_bind_state [OF print_view(1)])
    fix t1 :: "('a, 'b) vio_state_scheme"
    obtain ok t2 where w: "mmio_write32 (bus.truncate M) ptr Status VIRTIO_FAILED t1 = (ok, t2)" by fastforce
    then show "keeps proc_view (case mmio_write32 (bus.truncate M) ptr Status VIRTIO_FAILED t1 of (_, s2) \<Rightarrow> Inr (False, s2)) t1"
      using quiet_view [OF mmio_write32_quiet [OF w]] by simp
  qed
  have last: "keeps proc_view (try_write B ptr Status w (\<lambda>s5. Inr (True, s5))
      (t\<lparr>BLOCK_DEVICES := bs, VIRTIO_DEVICES := vs\<rparr>)) t" for B w bs vs and t :: "('a, 'b) vio_state_scheme"
    by (rule keeps_trans [OF try_write_keeps]) (simp_all add: proc_view_def)
  have queue: "keeps proc_view (setup_queue L M fuel ptr slot ro bits t) t" for slot ro bits and t :: "('a, 'b) vio_state_scheme"
    unfolding setup_queue_def Let_def
    by (rule keeps_bind [OF pm.zallocate_keeps])
      (simp only: prod.case split: option.split, intro conjI allI impI give try_write_keeps keeps_if last keeps_simps)
  show ?thesis unfolding setup_block_device_def Let_def
    by (intro keeps_bind_pure try_write_keeps try_read_keeps keeps_if give queue)
qed

text \<open>What printing, the register reads, the registration and the setup of a block device keep, \<open>probe_one\<close> keeps.\<close>

lemma probe_one_keeps:
  fixes P :: "('d, 'z) vio_state_scheme \<Rightarrow> bool"
  assumes run: "probe_one L M fuel ptr t = Inr t'" and P: "P t"
    and pr: "\<And>bs t t'. P t \<Longrightarrow> print M fuel bs t = Inr t' \<Longrightarrow> P t'"
    and re: "\<And>reg r t t'. P t \<Longrightarrow> bus_mmio_read32 (bus.truncate M) ptr reg t = (r, t') \<Longrightarrow> P t'"
    and rg: "\<And>k t t'. P t \<Longrightarrow> register_device k ptr t = Inr t' \<Longrightarrow> P t'"
    and st: "\<And>t1 t2 b t t'. P t1 \<Longrightarrow> bus_mmio_read32 (bus.truncate M) ptr DeviceId t1 = (Some VIRTIO_DEVICE_BLOCK, t2) \<Longrightarrow>
       P t \<Longrightarrow> setup_block_device L M fuel ptr t = Inr (b, t') \<Longrightarrow> P t'"
  shows "P t'"
proof -
  have pn: "P u'" if "P u" "println M fuel bs u = Inr u'" for bs u u' using pr that by (simp add: println_def)
  obtain t0 where t0: "print M fuel (bytes ''Virtio probing 0x'' @ pad_left 48 8 (hex ptr) @ bytes ''...'') t = Inr t0"
    using run unfolding probe_one_def bind_res_Inr_iff by blast
  obtain r1 t1 where m: "bus_mmio_read32 (bus.truncate M) ptr MagicValue t0 = (r1, t1)" by fastforce
  obtain r2 t2 where d: "bus_mmio_read32 (bus.truncate M) ptr DeviceId t1 = (r2, t2)" by fastforce
  have p1: "P t1" by (rule re [OF pr [OF P t0] m])
  have p2: "P t2" by (rule re [OF p1 d])
  have b: "P u" if blk: "bind_res (print M fuel b1 t2) (\<lambda>s3. bind_res (setup_block_device L M fuel ptr s3) (\<lambda>(ok, s4).
      println M fuel (b2 ok) s4)) = Inr u" "r2 = Some VIRTIO_DEVICE_BLOCK" for b1 b2 u
  proof -
    obtain t3 ok t4 where "print M fuel b1 t2 = Inr t3" "setup_block_device L M fuel ptr t3 = Inr (ok, t4)" "println M fuel (b2 ok) t4 = Inr u"
      using blk(1) by (auto simp: bind_res_Inr_iff)
    then show ?thesis using pn st [OF p1 d [unfolded blk(2)]] pr [OF p2] by blast
  qed
  have e: "P u" if "bind_res (print M fuel b1 t2) (\<lambda>s3. bind_res (register_device k ptr s3) (\<lambda>s4. println M fuel b2 s4)) = Inr u" for b1 b2 k u
    using that by (auto simp: bind_res_Inr_iff dest!: pr [OF p2] intro: pn rg)
  have w: "P u" if "bind_res (register_device k ptr t2) (\<lambda>s4. println M fuel b2 s4) = Inr u" for b2 k u
    using that by (auto simp: bind_res_Inr_iff intro: pn rg [OF p2])
  note eq = run [unfolded probe_one_def t0 bind_res_simps m prod.case register_entropy_device_def register_unknown_device_def]
  consider (no) "r1 = None" | (other) x where "r1 = Some x" "x \<noteq> MMIO_VIRTIO_MAGIC" | (fault) "r1 = Some MMIO_VIRTIO_MAGIC" "r2 = None"
    | (found) x where "r1 = Some MMIO_VIRTIO_MAGIC" "r2 = Some x" by (cases r1; cases r2) auto
  then show ?thesis
  proof cases
    case no
    then show ?thesis using eq pn [OF p1] by auto
  next
    case other
    then show ?thesis using eq pn [OF p1] by auto
  next
    case fault
    then show ?thesis using eq d pn [OF p2] by auto
  next
    case (found x)
    then show ?thesis using eq d pn [OF p2] b e w by (auto split: if_splits)
  qed
qed

lemma probe_view: "probe L M fuel s = Inr s' \<Longrightarrow> proc_view s' = proc_view s"
proof -
  have "proc_view t' = proc_view t" if run: "probe_one L M fuel ptr t = Inr t'" for ptr and t t' :: "('a, 'b) vio_state_scheme"
  proof (rule probe_one_keeps [where P = "\<lambda>u. proc_view u = proc_view t", OF run refl])
    show "proc_view u' = proc_view t" if "proc_view u = proc_view t" "setup_block_device L M fuel ptr u = Inr (b, u')" for b u u'
      using setup_keeps [of L M fuel ptr u] that by (simp add: keeps_def)
    show "proc_view u' = proc_view t" if "proc_view u = proc_view t" "register_device k ptr u = Inr u'" for k u u'
      using that by (auto simp: register_device_def bind_res_Inr_iff proc_view_def split: if_splits)
  qed (use print_view(1) quiet_view bus_mmio_read32_quiet in metis)+
  then have "fold_res (probe_one L M fuel) xs t = Inr t' \<Longrightarrow> proc_view t' = proc_view t" for xs and t t' :: "('a, 'b) vio_state_scheme"
    by (induction xs arbitrary: t) (auto simp: bind_res_Inr_iff)
  then show "probe L M fuel s = Inr s' \<Longrightarrow> proc_view s' = proc_view s" by (simp add: probe_def)
qed

section \<open>The rest of machine mode\<close>

lemma route_irq_quiet:
  assumes "unat src < 32"
  shows "\<exists>s'. route_irq B src s = Inr s' \<and> quiet s s'"
proof -
  have w: "quiet t (write_volatile32 B a v t)" for a v and t :: "('a, 'b) vio_state_scheme"
    by (auto simp: write_volatile32_def access_fault_trap_def quiet_def split: prod.split)
  obtain prev s1 where r: "read_volatile32 B PLIC_ENABLE_HART0_M s = (prev, s1)" by fastforce
  then have "quiet s s1" by (auto simp: read_volatile32_def access_fault_trap_def quiet_def split: prod.splits)
  from quiet_trans [OF this quiet_trans [OF w w]] show ?thesis using assms r
    by (simp add: route_irq_def plic_enable_def plic_set_priority_def)
qed

lemma route_irqs_quiet:
  "\<forall>src \<in> set xs. unat src < 32 \<Longrightarrow> \<exists>s'. fold_res (route_irq B) xs s = Inr s' \<and> quiet s s'"
proof (induction xs arbitrary: s)
  case (Cons x xs)
  obtain s1 where s1: "route_irq B x s = Inr s1" "quiet s s1" using route_irq_quiet [of x B s] Cons.prems by auto
  obtain s2 where s2: "fold_res (route_irq B) xs s1 = Inr s2" "quiet s1 s2" using Cons.IH [of s1] Cons.prems by auto
  show ?case using s1 s2 quiet_trans [OF s1(2) s2(2)] by auto
qed simp

lemma configured_irqs_small:
  assumes "registry_inv L s"
  shows "\<exists>irqs. configured_irqs s = Inr irqs \<and> (\<forall>src. Some src \<in> set irqs \<longrightarrow> unat src < 32)"
proof -
  have one: "\<exists>r. irq bd = Inr r \<and> (\<forall>src. r = Some src \<longrightarrow> unat src < 32)" if bd: "bd \<in> set (BLOCK_DEVICES s)" for bd
  proof (cases "dev bd = 0")
    case False
    obtain j where j: "j < 8" "bd = BLOCK_DEVICES s ! j" using bd assms by (auto simp: in_set_conv_nth registry_inv_def)
    then have d: "dev bd = MMIO_VIRTIO_START + j * 4096" using assms False by (simp add: registry_inv_def slot_ok_def)
    have "unat (of_nat j :: u32) = j" using j(1) by (simp add: unat_of_nat)
    with j(1) d False have "irq bd = Inr (Some (of_nat (Suc j)))"
      by (simp add: irq_def usize_sub_def VIRTIO_MMIO_IRQ_BASE_def Let_def add.commute)
    moreover have "unat (of_nat (Suc j) :: u32) < 32" using j(1) by (simp add: unat_of_nat del: of_nat_Suc)
    ultimately show ?thesis by simp
  qed (simp add: irq_def)
  then obtain g where g: "\<And>bd. bd \<in> set (BLOCK_DEVICES s) \<Longrightarrow> irq bd = Inr (g bd) \<and> (\<forall>src. g bd = Some src \<longrightarrow> unat src < 32)"
    by metis
  then have "configured_irqs s = Inr (map g (take MAX_VIRTIO_DEVICES (BLOCK_DEVICES s)))"
    unfolding configured_irqs_def by (intro collect_res_map) (auto dest: in_set_takeD)
  then show ?thesis using g by (auto dest: in_set_takeD)
qed

lemma setup_devices_keeps:
  assumes c: "console_ok M fuel" and inv: "registry_inv L s"
  shows "\<exists>s'. setup_devices L M fuel s = Inr s' \<and> registry_inv L s' \<and> keeps_held L s s' \<and> proc_view s' = proc_view s"
proof -
  let ?B = "bus.truncate M"
  have q0: "quiet s (plic_set_threshold ?B 0 s)"
    by (auto simp: plic_set_threshold_def write_volatile32_def access_fault_trap_def quiet_def split: prod.split)
  obtain s1 where s1: "route_irq ?B UART0_IRQ (plic_set_threshold ?B 0 s) = Inr s1" "quiet s s1"
    using route_irq_quiet [of UART0_IRQ ?B "plic_set_threshold ?B 0 s"] quiet_trans [OF q0] by (auto simp: UART0_IRQ_def)
  obtain s2 where s2: "probe L M fuel s1 = Inr s2" "registry_inv L s2" "keeps_held L s1 s2"
    using probe_registers_run [OF c registry_quiet [OF inv s1(2)]] by blast
  obtain irqs where irqs: "configured_irqs s2 = Inr irqs" "\<forall>src. Some src \<in> set irqs \<longrightarrow> unat src < 32"
    using configured_irqs_small [OF s2(2)] by blast
  have "\<forall>src \<in> set (List.map_filter id irqs). unat src < 32" using irqs(2) by (auto simp: List.map_filter_def)
  then obtain s3 where s3: "fold_res (route_irq ?B) (List.map_filter id irqs) s2 = Inr s3" "quiet s2 s3"
    using route_irqs_quiet [of _ ?B s2] by blast
  have "keeps_held L s s1" "keeps_held L s2 s3"
    using quiet_keeps_held inv s1(2) s2(2) s3(2) by (auto simp: registry_inv_def)
  then have "keeps_held L s s3" using s2(3) keeps_held_trans by blast
  moreover have "proc_view s3 = proc_view s" using quiet_view s1(2) s3(2) probe_view [OF s2(1)] by metis
  ultimately show ?thesis using s1(1) s2(1) irqs(1) s3 registry_quiet [OF s2(2) s3(2)] by (simp add: setup_devices_def)
qed

section \<open>Booting to supervisor mode\<close>

text \<open>The table that the hardware walks for a value of \<open>satp\<close> in mode 8, Sv39.\<close>

definition satp_root :: "u64 \<Rightarrow> nat" where
  "satp_root w = unat (w AND mask 44) * 4096"

lemma satp_root_make:
  assumes "root mod 4096 = 0" "root < 2 ^ 56"
  shows "satp_root (make_satp_sv39 (of_nat root)) = root" "drop_bit 60 (make_satp_sv39 (of_nat root)) = 8"
proof -
  have u: "unat (of_nat root :: u64) = root" using assms(2) by (simp add: unat_of_nat)
  have hi: "n < 56" if "bit (of_nat root :: u64) n" for n
    using small_word_bits [of "of_nat root" 56 n] that assms(2) u by (simp add: word_less_nat_alt)
  then have low: "n < 44" if "bit (of_nat root :: u64) (12 + n)" for n using that by fastforce
  have "(push_bit 60 8 :: u64) = push_bit 63 1" by simp
  then have top: "bit (push_bit 60 8 :: u64) n \<longleftrightarrow> n = 63" for n
    by (simp only: bit_push_bit_iff) (auto simp: bit_1_iff)
  have "(8 :: u64) = push_bit 3 1" by simp
  then have eight: "bit (8 :: u64) n \<longleftrightarrow> n = 3" for n
    by (simp only: bit_push_bit_iff) (auto simp: bit_1_iff)
  have bits: "bit (make_satp_sv39 (of_nat root)) n \<longleftrightarrow> n = 63 \<or> bit (of_nat root :: u64) (12 + n)" for n
    by (simp only: make_satp_sv39_def bit_or_iff top bit_drop_bit_eq o_apply)
  have "make_satp_sv39 (of_nat root) AND mask 44 = drop_bit 12 (of_nat root)"
    by (rule bit_word_eqI) (use low in \<open>auto simp: bits bit_and_iff bit_mask_iff bit_drop_bit_eq\<close>)
  then show "satp_root (make_satp_sv39 (of_nat root)) = root"
    using assms(1) u by (simp add: satp_root_def unat_drop12 mod_0_imp_dvd)
  show "drop_bit 60 (make_satp_sv39 (of_nat root)) = 8"
    by (rule bit_word_eqI) (use low in \<open>fastforce simp only: bits eight bit_drop_bit_eq o_apply\<close>)
qed

lemma init_more: "init L s = Inr s' \<Longrightarrow> kmem.more s' = kmem.more s"
  by (auto simp: init_def Let_def bind_res_Inr_iff)

lemma identity_leaf: "bits < 2 ^ 10 \<Longrightarrow> unat va < 2 ^ 39 \<Longrightarrow> translate va (leaf_pte va bits, 0) = va"
  using translate_leaf_pte [of bits va 0 va]
  by (simp add: word_less_nat_alt in_page_def bit_eq_iff bit_or_iff bit_and_iff bit_not_iff del: translate.simps) blast

lemma kernel_flags_small: "kernel_flags L x = Some f \<Longrightarrow> f < 2 ^ 10"
  by (auto simp: kernel_flags_def kernel_flag_bits split: if_splits)

text \<open>From the table to the trap handler: the pages that are left suffice for the trap stack.\<close>

lemma install_spec:
  assumes inv: "frames_inv L s" and free: "npages L - free_count (descriptors L s) < npages L div 4"
  obtains t s' where "install L v s = Inr s'" "keeps_held L s s'" "(t, 4) \<in> held L s'"
     "TRAP_STACK_TOP s' = of_nat (t + 0x4000)" "trap_stack (TRAP_FRAME s') = of_nat (t + 0x4000)"
     "mscratch s' = StaticFrame" "mtvec s' = m_trap_vector" "regs (TRAP_FRAME s') = regs (TRAP_FRAME s)"
     "BLOCK_DEVICES s' = BLOCK_DEVICES s" "VIRTIO_DEVICES s' = VIRTIO_DEVICES s" "ALLOC_START s' = ALLOC_START s" "hw s' = hw s"
     "slots s' = slots s" "current s' = current s" "NEXT_PID s' = NEXT_PID s"
     "free_count (descriptors L s) = free_count (descriptors L s') + 4"
proof -
  obtain i where "window_free (descriptors L s) i 4" using free_window [of "descriptors L s" 4] free by auto
  then obtain t s1 where z: "zallocate L 4 s = Inr (Some t, s1)" using zallocate_window [OF inv, of 4 i] by auto
  note za = zallocate_Some [OF inv z]
  let ?top = "of_nat (t + TRAP_STACK_PAGES * PAGE_SIZE) :: u64"
  let ?s' = "s1\<lparr>TRAP_STACK_TOP := ?top, TRAP_FRAME := (TRAP_FRAME s1)\<lparr>satp := v, trap_stack := ?top, hartid := 0\<rparr>,
      mscratch := StaticFrame, mtvec := m_trap_vector\<rparr>"
  have run: "install L v s = Inr ?s'" using z by (simp add: install_def TRAP_STACK_PAGES_def Let_def)
  have kh: "keeps_held L s ?s'"
    using zallocate_keeps_held [OF inv z] by (simp add: keeps_held_def frames_inv_def held_def descriptors_def)
  have held: "(t, 4) \<in> held L ?s'" using za(2) by (simp add: held_def descriptors_def)
  have fc: "free_count (descriptors L s) = free_count (descriptors L ?s') + 4"
    using zallocate_free_count [OF inv z] by (simp add: descriptors_def)
  have same: "regs (TRAP_FRAME s1) = regs (TRAP_FRAME s)" "slots s1 = slots s" "current s1 = current s" "NEXT_PID s1 = NEXT_PID s" "hw s1 = hw s"
    using za(6) by (cases s; cases s1; simp)+
  show thesis
    by (rule that [OF run kh held _ _ _ _ _ _ _ _ _ _ _ _ fc])
      (use za(5) same vio_more [OF za(6)] in \<open>simp_all add: TRAP_STACK_PAGES_def\<close>)
qed

lemma kernel_table_built:
  fixes s :: "'z kmem_scheme"
  assumes lds: "lds_ok L" "0x200000 \<le> heap_size L"
  obtains s3 root s4 s5 where "init L s = Inr s3" "zallocate L 1 s3 = Inr (Some root, s4)" "map_kernel L root s4 = Inr s5"
    "pt_inv L root s5" "root mod 4096 = 0" "root < 2 ^ 56" "kmem.more s5 = kmem.more s"
    "ALLOC_START s5 < heap_start L + npages L + PAGE_SIZE" "npages L \<le> free_count (descriptors L s5) + 68"
    "\<And>va. unat va < 2 ^ 39 \<Longrightarrow>
       leaf_of (mem s5) root (vpath va) = map_option (\<lambda>f. (leaf_pte va f, 0)) (kernel_flags L (unat va))"
proof -
  have np: "512 \<le> npages L" using div_le_mono [OF lds(2), of 4096] by simp
  obtain s3 where s3: "init L s = Inr s3" "frames_inv L s3" "descriptors L s3 = replicate (npages L) 0"
    "ALLOC_START s3 = next_multiple (heap_start L + npages L) PAGE_SIZE"
    using init_spec [of L s] lds_init_bounds [OF lds(1)] np by auto
  have f3: "free_count (descriptors L s3) = npages L"
    using s3(3) by (simp add: free_count_def is_taken_def)
  obtain root s4 where z: "zallocate L 1 s3 = Inr (Some root, s4)"
    using zallocate_page_succeeds [OF s3(2)] f3 np by auto
  note fresh = fresh_root [OF s3(2) z] and za = zallocate_Some [OF s3(2) z]
  have f4: "npages L = free_count (descriptors L s4) + 1" using zallocate_free_count [OF s3(2) z] f3 by simp
  obtain s5 where s5: "map_kernel L root s4 = Inr s5" "pt_grow L root kernel_tables s4 s5"
    "\<And>va. unat va < 2 ^ 39 \<Longrightarrow>
       leaf_of (mem s5) root (vpath va) = map_option (\<lambda>f. (leaf_pte va f, 0)) (kernel_flags L (unat va))"
    using map_kernel_spec [OF lds(1) fresh(1,2)] f4 np by auto
  have "card (missing (mem s4) root kernel_tables) \<le> card kernel_tables"
    by (rule card_mono) (auto simp: missing_def kernel_tables_ok)
  then have left: "npages L \<le> free_count (descriptors L s5) + 68"
    using s5(2) f4 kernel_tables_ok(3) unfolding pt_grow_def by linarith
  have start: "ALLOC_START s5 < heap_start L + npages L + PAGE_SIZE"
    using s5(2) za(5) s3(4) next_multiple_lt [of PAGE_SIZE "heap_start L + npages L"] by (simp add: pt_grow_def)
  have "root mod 4096 = 0" "root < 2 ^ 56" using held_page_word [OF za(1), of root] za(2) by auto
  moreover have "kmem.more s5 = kmem.more s" "pt_inv L root s5"
    using s5(2) za(6) init_more [OF s3(1)] by (simp_all add: pt_grow_def)
  ultimately show thesis using that [OF s3(1) z s5(1) _ _ _ _ start left s5(3)] by simp
qed

section \<open>Properties\<close>

lemma boot_registry:
  assumes "frames_inv L s" "length (BLOCK_DEVICES s) = 8" "\<forall>bd \<in> set (BLOCK_DEVICES s). dev bd = 0" "length (VIRTIO_DEVICES s) = 8"
  shows "registry_inv L s"
proof -
  have "dev (BLOCK_DEVICES s ! i) = 0" if "i < 8" for i using assms(2,3) that by simp
  then show ?thesis using assms by (simp add: registry_inv_def)
qed

lemma enable_interrupts_runs:
  assumes "\<forall>d. unat (fst (rd64 M CLINT_MTIME d)) + unat TIMER_TICK < 2 ^ 64"
  shows "\<exists>d. enable_interrupts M s = Inr (s\<lparr>hw := d, mie := MIE_MEIE OR MIE_MTIE\<rparr>)"
proof -
  obtain t d where r: "rd64 M CLINT_MTIME (hw s) = (t, d)" by fastforce
  then have "u64_add t TIMER_TICK = Inr (t + TIMER_TICK)" using assms by (simp add: u64_add_def) (metis fst_conv)
  then show ?thesis using r by (auto simp: enable_interrupts_def rearm_timer_def)
qed

lemma proc_view_trap:
  "proc_view s' = proc_view s \<Longrightarrow> TRAP_STACK_TOP s' = TRAP_STACK_TOP s \<and> TRAP_FRAME s' = TRAP_FRAME s \<and>
     mscratch s' = mscratch s \<and> mtvec s' = mtvec s"
  for s s' :: "('d, 'z) trap_state_scheme"
  by (cases s; cases s') (simp add: proc_view_def)

text \<open>
  The run of \<open>kinit\<close>: \<open>s6\<close> is the state with the page table and the trap handler in place, before the
  devices are set up.
\<close>

lemma kinit_parts:
  fixes s :: "('d, 'z) trap_state_scheme"
  assumes lds: "lds_ok L" "0x200000 \<le> heap_size L" and uart: "uart_device M UART_BASE uv N" "N < fuel"
    and timer: "\<forall>d. unat (fst (rd64 M CLINT_MTIME d)) + unat TIMER_TICK < 2 ^ 64"
    and statics: "length (BLOCK_DEVICES s) = 8" "\<forall>bd \<in> set (BLOCK_DEVICES s). dev bd = 0" "length (VIRTIO_DEVICES s) = 8"
  obtains root stk s6 s7 s8 d8 where
    "kinit L M fuel s = Inr (enter_sv39 (make_satp_sv39 (of_nat root)) At_skmain, s8)"
    "bind_res (println M fuel [] (s\<lparr>hw := uart_init M UART_BASE (hw s)\<rparr>)) (println M fuel (bytes ''vesper booted successfully!'')) =
       Inr (s\<lparr>hw := hw s6\<rparr>)"
    "setup_devices L M fuel s6 = Inr s7" "enable_interrupts M s7 = Inr s8" "s8 = s7\<lparr>hw := d8, mie := MIE_MEIE OR MIE_MTIE\<rparr>"
    "registry_inv L s6" "registry_inv L s8" "keeps_held L s6 s8" "proc_view s7 = proc_view s6"
    "pt_inv L root s6" "root mod 4096 = 0" "root < 2 ^ 56"
    "\<And>va. unat va < 2 ^ 39 \<Longrightarrow>
       leaf_of (mem s6) root (vpath va) = map_option (\<lambda>f. (leaf_pte va f, 0)) (kernel_flags L (unat va))"
    "(stk, 4) \<in> held L s6" "TRAP_STACK_TOP s6 = of_nat (stk + 0x4000)" "trap_stack (TRAP_FRAME s6) = of_nat (stk + 0x4000)"
    "mscratch s6 = StaticFrame" "mtvec s6 = m_trap_vector" "regs (TRAP_FRAME s6) = regs (TRAP_FRAME s)"
    "BLOCK_DEVICES s6 = BLOCK_DEVICES s" "slots s6 = slots s" "current s6 = current s" "NEXT_PID s6 = NEXT_PID s"
    "ALLOC_START s6 < heap_start L + npages L + PAGE_SIZE" "npages L \<le> free_count (descriptors L s6) + 72"
proof -
  let ?s0 = "s\<lparr>hw := uart_init M UART_BASE (hw s)\<rparr>"
  obtain d1 where d1: "println M fuel [] ?s0 = Inr (s\<lparr>hw := d1\<rparr>)" using println_sends [OF uart, of "[]" ?s0] by auto
  obtain d2 where d2: "println M fuel (bytes ''vesper booted successfully!'') (s\<lparr>hw := d1\<rparr>) = Inr (s\<lparr>hw := d2\<rparr>)"
    using println_sends [OF uart, of _ "s\<lparr>hw := d1\<rparr>"] by auto
  let ?s2 = "s\<lparr>hw := d2\<rparr>"
  obtain s3 root s4 s5 where b: "init L ?s2 = Inr s3" "zallocate L 1 s3 = Inr (Some root, s4)" "map_kernel L root s4 = Inr s5"
    and t: "pt_inv L root s5" "root mod 4096 = 0" "root < 2 ^ 56" and m: "kmem.more s5 = kmem.more ?s2"
    and st: "ALLOC_START s5 < heap_start L + npages L + PAGE_SIZE" and fr: "npages L \<le> free_count (descriptors L s5) + 68"
    and leaf: "\<And>va. unat va < 2 ^ 39 \<Longrightarrow>
       leaf_of (mem s5) root (vpath va) = map_option (\<lambda>f. (leaf_pte va f, 0)) (kernel_flags L (unat va))"
    using kernel_table_built [OF lds, of ?s2] by blast
  have "128 \<le> npages L div 4" using div_le_mono [OF lds(2), of 4096] div_le_mono [of 512 "npages L" 4] by simp
  then have fr4: "npages L - free_count (descriptors L s5) < npages L div 4" using fr by linarith
  let ?v = "make_satp_sv39 (of_nat root)"
  obtain stk s6 where s6: "install L ?v s5 = Inr s6" "keeps_held L s5 s6" "(stk, 4) \<in> held L s6"
    "TRAP_STACK_TOP s6 = of_nat (stk + 0x4000)" "trap_stack (TRAP_FRAME s6) = of_nat (stk + 0x4000)"
    "mscratch s6 = StaticFrame" "mtvec s6 = m_trap_vector" "regs (TRAP_FRAME s6) = regs (TRAP_FRAME s5)"
    "BLOCK_DEVICES s6 = BLOCK_DEVICES s5" "VIRTIO_DEVICES s6 = VIRTIO_DEVICES s5" "ALLOC_START s6 = ALLOC_START s5" "hw s6 = hw s5"
    "slots s6 = slots s5" "current s6 = current s5" "NEXT_PID s6 = NEXT_PID s5"
    "free_count (descriptors L s5) = free_count (descriptors L s6) + 4"
    by (rule install_spec [OF pt_invD(1) [OF t(1)] fr4, of ?v])
  have same: "regs (TRAP_FRAME s5) = regs (TRAP_FRAME s)" "BLOCK_DEVICES s5 = BLOCK_DEVICES s" "VIRTIO_DEVICES s5 = VIRTIO_DEVICES s"
    "slots s5 = slots s" "current s5 = current s" "NEXT_PID s5 = NEXT_PID s" "hw s5 = d2"
    using m by (cases s; cases s5; simp)+
  have r6: "registry_inv L s6" using boot_registry [of L s6] s6(2,9,10) same statics by (simp add: keeps_held_def)
  then obtain s7 where s7: "setup_devices L M fuel s6 = Inr s7" "registry_inv L s7" "keeps_held L s6 s7" "proc_view s7 = proc_view s6"
    using setup_devices_keeps [OF uart_console_ok [OF uart]] by blast
  obtain d8 where s8: "enable_interrupts M s7 = Inr (s7\<lparr>hw := d8, mie := MIE_MEIE OR MIE_MTIE\<rparr>)"
    using enable_interrupts_runs [OF timer] by blast
  let ?s8 = "s7\<lparr>hw := d8, mie := MIE_MEIE OR MIE_MTIE\<rparr>"
  have run: "kinit L M fuel s = Inr (enter_sv39 ?v At_skmain, ?s8)"
    using d1 d2 b s6(1) s7(1) s8 by (simp add: kinit_def Let_def)
  have r8: "registry_inv L ?s8" and k8: "keeps_held L s6 ?s8" using s7(2,3)
    by (simp_all add: registry_inv_def slot_ok_def queue_at_def keeps_held_def frames_inv_def held_def descriptors_def)
  note k = keeps_held_tables [OF t(1) s6(2)]
  show thesis
    by (rule that [OF run _ s7(1) s8 refl r6 r8 k8 s7(4) k(1) t(2,3) _ s6(3-7)])
      (use d1 d2 s6(8-16) same st fr leaf k(2) [OF vpath_full] in simp_all)
qed

text \<open>
  C2: The kernel boots into the address space it means to have. For every layout the linker script
  allows that leaves two megabytes of heap, and for every behaviour of the interrupt controller
  and of the devices, \<open>kinit\<close> ends in a switch to supervisor mode at \<open>skmain\<close> with a \<open>satp\<close> whose
  table translates every address below \<open>2 ^ 39\<close> to itself, with exactly the flags of
  \<open>kernel_flags\<close>, or not at all: code is executable and never writable, constants are only
  readable, data, stack, heap and the registers of the devices are never executable, and nothing
  else is mapped. The trap handler is installed with a stack of its own, and the tables of the
  devices are well formed.
\<close>

theorem kinit_address_space:
  fixes s :: "('d, 'z) trap_state_scheme"
  assumes lds: "lds_ok L" "0x200000 \<le> heap_size L" and uart: "uart_device M UART_BASE uv N" "N < fuel"
    and timer: "\<forall>d. unat (fst (rd64 M CLINT_MTIME d)) + unat TIMER_TICK < 2 ^ 64"
    and statics: "length (BLOCK_DEVICES s) = 8" "\<forall>bd \<in> set (BLOCK_DEVICES s). dev bd = 0" "length (VIRTIO_DEVICES s) = 8"
  shows "\<exists>h s'. kinit L M fuel s = Inr (h, s') \<and>
     csr_mepc h = At_skmain \<and> drop_bit 11 (csr_mstatus h) AND 3 = 1 \<and> drop_bit 60 (csr_satp h) = 8 \<and>
     (\<forall>va. unat va < 2 ^ 39 \<longrightarrow>
        leaf_of (mem s') (satp_root (csr_satp h)) (vpath va) =
          map_option (\<lambda>f. (leaf_pte va f, 0)) (kernel_flags L (unat va)) \<and>
        v2p (mem s') (satp_root (csr_satp h)) va = Inr (map_option (\<lambda>_. va) (kernel_flags L (unat va)))) \<and>
     mtvec s' = m_trap_vector \<and> mscratch s' = StaticFrame \<and>
     (\<exists>t. (t, 4) \<in> held L s' \<and> trap_stack (TRAP_FRAME s') = of_nat (t + 0x4000)) \<and> registry_inv L s'"
proof -
  obtain root stk s6 s7 s8 d8 where run: "kinit L M fuel s = Inr (enter_sv39 (make_satp_sv39 (of_nat root)) At_skmain, s8)"
    and s8: "s8 = s7\<lparr>hw := d8, mie := MIE_MEIE OR MIE_MTIE\<rparr>" "registry_inv L s8" "keeps_held L s6 s8" "proc_view s7 = proc_view s6"
    and t: "pt_inv L root s6" "root mod 4096 = 0" "root < 2 ^ 56"
    and leaf: "\<And>va. unat va < 2 ^ 39 \<Longrightarrow>
       leaf_of (mem s6) root (vpath va) = map_option (\<lambda>f. (leaf_pte va f, 0)) (kernel_flags L (unat va))"
    and s6: "(stk, 4) \<in> held L s6" "trap_stack (TRAP_FRAME s6) = of_nat (stk + 0x4000)" "mscratch s6 = StaticFrame" "mtvec s6 = m_trap_vector"
    by (rule kinit_parts [OF assms]) (rule that)
  note satp = satp_root_make [OF t(2,3)] and k = keeps_held_tables [OF t(1) s8(3)]
  have v: "v2p (mem s8) root va = Inr (map_option (\<lambda>_. va) (kernel_flags L (unat va)))" if "unat va < 2 ^ 39" for va
    using v2p_leaf_of [OF k(1), of va] k(2) [OF vpath_full] leaf [OF that] identity_leaf [OF kernel_flags_small that]
    by (cases "kernel_flags L (unat va)") (simp_all del: translate.simps)
  have tr: "mtvec s8 = m_trap_vector" "mscratch s8 = StaticFrame" "trap_stack (TRAP_FRAME s8) = of_nat (stk + 0x4000)" "(stk, 4) \<in> held L s8"
    using proc_view_trap [OF s8(4)] s6 s8(3) by (auto simp: s8(1) keeps_held_def)
  show ?thesis
    by (rule exI, rule exI, rule conjI [OF run])
      (use satp v leaf k(2) [OF vpath_full] tr s8(2) in \<open>auto simp: enter_sv39_def\<close>)
qed

theorem kinit_address_space_witness:
  "\<exists>h s'. kinit demo_layout demo_soc 3 (demo_kernel (\<lparr>sent = [], rx = [], busy = 0\<rparr>, [], {})) = Inr (h, s') \<and>
     v2p (mem s') (satp_root (csr_satp h)) 0x80000123 = Inr (Some 0x80000123) \<and>
     leaf_of (mem s') (satp_root (csr_satp h)) (vpath 0x80000123) = Some (leaf_pte 0x80000123 rx_flags, 0) \<and>
     v2p (mem s') (satp_root (csr_satp h)) 0x0c200004 = Inr None"
proof -
  let ?s = "demo_kernel (\<lparr>sent = [], rx = [], busy = 0\<rparr>, [], {})"
  have f: "kernel_flags demo_layout 0x80000123 = Some rx_flags" "kernel_flags demo_layout 0x0c200004 = None"
    by (simp_all add: kernel_flags_def in_pages_def next_multiple_def demo_layout_def)
  have h: "0x200000 \<le> heap_size demo_layout" by (simp add: demo_layout_def)
  have t: "\<forall>d. unat (fst (rd64 demo_soc CLINT_MTIME d)) + unat TIMER_TICK < 2 ^ 64"
    by (simp add: demo_soc_def TIMER_TICK_def)
  have l: "length (BLOCK_DEVICES ?s) = 8" "\<forall>bd \<in> set (BLOCK_DEVICES ?s). dev bd = 0" "length (VIRTIO_DEVICES ?s) = 8"
    by (simp_all add: demo_kernel_def BlockDevice_empty_def)
  obtain h s' where k: "kinit demo_layout demo_soc 3 ?s = Inr (h, s')" and a: "\<And>va. unat va < 2 ^ 39 \<Longrightarrow>
        leaf_of (mem s') (satp_root (csr_satp h)) (vpath va) =
          map_option (\<lambda>f. (leaf_pte va f, 0)) (kernel_flags demo_layout (unat va)) \<and>
        v2p (mem s') (satp_root (csr_satp h)) va = Inr (map_option (\<lambda>_. va) (kernel_flags demo_layout (unat va)))"
    using kinit_address_space [OF demo_layout_ok h demo_soc_uart _ t l, of 3] by auto
  show ?thesis using k a [of "0x80000123"] a [of "0x0c200004"] f by auto
qed

end
