(* ===== verification/Context.thy ===== *)
theory Context
  imports Untouched
begin

text \<open>
  Context switches: a trap as a whole, from the trapped code through the vector and \<open>m_trap\<close> to
  the code that is resumed, and sequences of traps with arbitrary code running in between. The
  invariant \<open>trap_inv\<close> ties \<open>mscratch\<close> to the process table; with it, a process that was
  preempted is resumed exactly where it was, whatever ran since.
\<close>

section \<open>A trap as a whole\<close>

text \<open>The registers of the running code and its program counter.\<close>

type_synonym hart = "(nat \<Rightarrow> u64) \<times> u64"

definition take_trap ::
  "linker \<Rightarrow> 'd soc \<Rightarrow> nat \<Rightarrow> u64 \<Rightarrow> u64 \<Rightarrow> u64 \<Rightarrow> u64 \<Rightarrow> hart \<Rightarrow> ('d, 'z) trap_state_scheme \<Rightarrow>
   (hart \<times> ('d, 'z) trap_state_scheme) res"
where
  "take_trap L M fuel tval cause hart status c s =
     (case frame_of (mscratch s) s of
        None \<Rightarrow> Inl OutOfObject
      | Some f \<Rightarrow>
          bind_res (m_trap L M fuel (snd c) tval cause hart status (mscratch s)
                      (set_frame (mscratch s) (save_ctx (fst c) f) s)) (\<lambda>(p, s1).
          case frame_of (mscratch s1) s1 of
            None \<Rightarrow> Inl OutOfObject
          | Some f1 \<Rightarrow> Inr ((load_ctx f1, p), s1)))"

section \<open>The invariant\<close>

definition procs_ok :: "'z proc_state_scheme \<Rightarrow> bool" where
  "procs_ok s \<longleftrightarrow> table_ok s \<and> (\<forall>i p. proc_at s i = Some p \<longrightarrow> state p = Running \<and> length (regs (frame p)) = 32)"

definition trap_inv :: "('d, 'z) trap_state_scheme \<Rightarrow> bool" where
  "trap_inv s \<longleftrightarrow>
     procs_ok s \<and> length (regs (TRAP_FRAME s)) = 32 \<and>
     (case current s of
        None \<Rightarrow> mscratch s = StaticFrame
      | Some i \<Rightarrow> mscratch s = SlotFrame i \<and> proc_at s i \<noteq> None)"

text \<open>What the dispatcher's branches read and change of it.\<close>

definition trap_view :: "('d, 'z) trap_state_scheme \<Rightarrow> _" where
  "trap_view s = (slots s, current s, mscratch s, TRAP_FRAME s)"

lemma trap_view_proc: "proc_view s' = proc_view s \<Longrightarrow> trap_view s' = trap_view s"
  for s s' :: "('d, 'z) trap_state_scheme"
  by (cases s; cases s') (simp add: proc_view_def trap_view_def)

lemma trap_view_eqs:
  assumes "trap_view s' = trap_view s"
  shows "trap_inv s' = trap_inv s" "current s' = current s" "proc_at s' i = proc_at s i" "mscratch s' = mscratch s"
    "frame_of fp s' = frame_of fp s" "procs_ok s' = procs_ok s" "TRAP_FRAME s' = TRAP_FRAME s"
  using assms by (simp_all add: trap_view_def trap_inv_def procs_ok_def table_ok_def proc_at_def frame_of_def
      split: option.split frame_ptr.split)

lemma println_view: "println M fuel bs s = Inr s' \<Longrightarrow> trap_view s' = trap_view s"
  by (auto simp: println_def print_def bind_res_Inr_iff trap_view_def)

lemma rearm_timer_view: "rearm_timer M s = Inr s' \<Longrightarrow> trap_view s' = trap_view s"
  by (auto simp: rearm_timer_def bind_res_Inr_iff trap_view_def split: prod.splits)

lemma echo_uart_view: "echo_uart M fuel s = Inr s' \<Longrightarrow> trap_view s' = trap_view s"
  by (auto simp: echo_uart_def Let_def print_def println_def bind_res_Inr_iff trap_view_def
      split: prod.splits option.splits EscState.splits if_splits)

lemma pending_by_irq_view: "pending_by_irq B n s = Inr (b, s') \<Longrightarrow> proc_view s' = proc_view s"
  unfolding pending_by_irq_def Let_def
  by (auto simp: bind_res_Inr_iff split: prod.splits if_splits; metis proc_view_simps(6) snd_conv)

lemma handle_external_view:
  assumes "handle_external M fuel s = Inr s'"
  shows "trap_view s' = trap_view s"
proof -
  let ?B = "bus.truncate M"
  obtain r s1 where r: "plic_next ?B s = (r, s1)" by (cases "plic_next ?B s")
  have "proc_view s1 = proc_view s" using r by (auto simp: plic_next_def split: prod.splits) (metis proc_view_simps(6) snd_conv)
  then have v1: "trap_view s1 = trap_view s" by (rule trap_view_proc)
  show ?thesis
  proof (cases r)
    case None
    with assms r v1 show ?thesis by (simp add: handle_external_def)
  next
    case (Some src)
    have pc: "trap_view (plic_complete ?B src t) = trap_view t" for t :: "('a, 'b) trap_state_scheme"
      by (rule trap_view_proc) (simp add: plic_complete_def)
    have "trap_view s3 = trap_view s1"
      if "(if src = UART0_IRQ then echo_uart M fuel s1 else bind_res (pending_by_irq ?B src s1) (\<lambda>(serviced, s2).
             if serviced then Inr s2 else println M fuel (bytes ''non-UART external interrupt: '' @ dec (unat src)) s2)) = Inr s3" for s3
      using that by (auto simp: bind_res_Inr_iff split: if_splits dest!: echo_uart_view println_view
          dest: trap_view_proc [OF pending_by_irq_view])
    with assms r v1 Some pc show ?thesis by (auto simp: handle_external_def bind_res_Inr_iff)
  qed
qed

lemma sys_read_view:
  assumes "sys_read L B fuel dv ino buf sz off s = Inr (n, s')"
  shows "proc_view s' = proc_view s"
proof -
  have rest: "keeps proc_view (bind_res (assert_res (buf \<noteq> 0)) (\<lambda>_. bind_res (read_file L B fuel f node off buf (unat sz) t)
      (\<lambda>(r, s3). Inr (case r of Inl _ \<Rightarrow> 0 | Inr n \<Rightarrow> n, s3)))) t" for f node and t :: "('a, 'b) vio_state_scheme"
    unfolding read_file_def by (rule keeps_bind_pure, rule keeps_bind [OF pr.read_file_keeps]) simp
  have inode: "keeps proc_view (bind_res (read_inode L B fuel f ino t) (\<lambda>(r, s2). case r of Inl _ \<Rightarrow> Inr (0, s2)
      | Inr node \<Rightarrow> bind_res (assert_res (buf \<noteq> 0)) (\<lambda>_. bind_res (read_file L B fuel f node off buf (unat sz) s2)
          (\<lambda>(r, s3). Inr (case r of Inl _ \<Rightarrow> 0 | Inr n \<Rightarrow> n, s3))))) t" for f and t :: "('a, 'b) vio_state_scheme"
    unfolding read_inode_def by (rule keeps_bind [OF pr.read_inode_keeps]) (simp add: rest [unfolded neq0_conv] split: sum.split)
  have "keeps proc_view (sys_read L B fuel dv ino buf sz off s) s"
    unfolding sys_read_def mount_def by (rule keeps_bind [OF pr.mount_keeps]) (simp add: inode split: sum.split)
  with assms show ?thesis by (simp add: keeps_def)
qed

section \<open>The dispatcher keeps the invariant\<close>

text \<open>
  \<open>switched s s' pc\<close>: other processes than the current one are untouched, and unless the current
  one goes on, the new current process is resumed at its saved program counter.
\<close>

definition switched :: "('d, 'z) trap_state_scheme \<Rightarrow> ('d, 'z) trap_state_scheme \<Rightarrow> u64 \<Rightarrow> bool" where
  "switched s s' npc \<longleftrightarrow>
     trap_inv s' \<and> (\<forall>i. current s \<noteq> Some i \<longrightarrow> proc_at s' i = proc_at s i) \<and>
     (current s' = current s \<or> (\<exists>j p. current s' = Some j \<and> proc_at s' j = Some p \<and> npc = pc p))"

lemma switched_view: "trap_inv s \<Longrightarrow> trap_view s' = trap_view s \<Longrightarrow> switched s s' npc"
  by (simp add: switched_def trap_view_eqs [of s' s])

lemma schedule_switch:
  assumes ok: "procs_ok s" and sc: "schedule epc s = Inr (r, s')"
  shows "procs_ok s'" "\<And>i. current s \<noteq> Some i \<Longrightarrow> proc_at s' i = proc_at s i"
    "\<And>i p. current s = Some i \<Longrightarrow> proc_at s i = Some p \<Longrightarrow> proc_at s' i = Some (p\<lparr>pc := epc\<rparr>)"
    "proc_state.more s' = proc_state.more s"
    "case r of None \<Rightarrow> current s' = None \<and> (\<forall>i. proc_at s i = None)
     | Some (fp, npc) \<Rightarrow> \<exists>j p. fp = SlotFrame j \<and> current s' = Some j \<and> proc_at s' j = Some p \<and> npc = pc p"
proof -
  have tok: "table_ok s" and st: "\<And>i p. proc_at s i = Some p \<Longrightarrow> state p = Running \<and> length (regs (frame p)) = 32"
    using ok by (auto simp: procs_ok_def)
  note ef = schedule_effect [OF tok sc]
  show "proc_at s' i = proc_at s i" if "current s \<noteq> Some i" for i using that ef(2) by (simp add: saved_def)
  show "proc_at s' i = Some (p\<lparr>pc := epc\<rparr>)" if "current s = Some i" "proc_at s i = Some p" for i p
    using that ef(2) st by (simp add: saved_def)
  have "state p = Running \<and> length (regs (frame p)) = 32" if "proc_at s' i = Some p" for i p
    using that ef(2) st [of i] by (auto simp: saved_def split: if_splits)
  then show "procs_ok s'" using ef(1) by (simp add: procs_ok_def)
  show "proc_state.more s' = proc_state.more s" by (rule ef(3))
  show "case r of None \<Rightarrow> current s' = None \<and> (\<forall>i. proc_at s i = None)
     | Some (fp, npc) \<Rightarrow> \<exists>j p. fp = SlotFrame j \<and> current s' = Some j \<and> proc_at s' j = Some p \<and> npc = pc p"
    by (rule schedule_cases [OF tok, of epc]) (use sc st in \<open>auto simp: runnable_def\<close>)
qed

lemma more_trap:
  "proc_state.more s' = proc_state.more s \<Longrightarrow> mscratch s' = mscratch s \<and> TRAP_FRAME s' = TRAP_FRAME s"
  for s s' :: "('d, 'z) trap_state_scheme"
  by (cases s; cases s') simp

lemma mscratch_update [simp]:
  "proc_at (s\<lparr>mscratch := fp\<rparr>) i = proc_at s i" "procs_ok (s\<lparr>mscratch := fp\<rparr>) = procs_ok s"
  "proc_at (s\<lparr>TRAP_FRAME := f\<rparr>) i = proc_at s i" "procs_ok (s\<lparr>TRAP_FRAME := f\<rparr>) = procs_ok s"
  by (simp_all add: procs_ok_def table_ok_def proc_at_def)

text \<open>Dispatching what \<open>schedule\<close> picked: from the timer, and after an exit.\<close>

lemma dispatch_switched:
  assumes ok: "procs_ok s" "length (regs (TRAP_FRAME s)) = 32"
    and sc: "schedule epc s = Inr (Some (fp, npc), s')"
  shows "trap_inv (s'\<lparr>mscratch := fp\<rparr>)" "\<exists>j p. current s' = Some j \<and> proc_at s' j = Some p \<and> npc = pc p"
proof -
  note sw = schedule_switch [OF ok(1) sc]
  obtain j p where j: "fp = SlotFrame j" "current s' = Some j" "proc_at s' j = Some p" "npc = pc p"
    using sw(5) by auto
  show "trap_inv (s'\<lparr>mscratch := fp\<rparr>)"
    using j ok(2) sw(1) more_trap [OF sw(4)] by (simp add: trap_inv_def)
  show "\<exists>j p. current s' = Some j \<and> proc_at s' j = Some p \<and> npc = pc p" using j by blast
qed

lemma timer_switched:
  assumes inv: "trap_inv s" and r: "rearm_timer M s = Inr s1" and sc: "schedule epc s1 = Inr (r, s2)"
    and out: "out = (case r of Some (fp, npc) \<Rightarrow> (npc, s2\<lparr>mscratch := fp\<rparr>) | None \<Rightarrow> (epc, s2))"
  shows "switched s (snd out) (fst out)"
    "\<And>i p. current s = Some i \<Longrightarrow> proc_at s i = Some p \<Longrightarrow>
       proc_at (snd out) i = Some (p\<lparr>pc := epc\<rparr>) \<and> (\<exists>j q. current (snd out) = Some j \<and> proc_at (snd out) j = Some q \<and> fst out = pc q)"
proof -
  note v = trap_view_eqs [OF rearm_timer_view [OF r]]
  have ok: "procs_ok s1" "length (regs (TRAP_FRAME s1)) = 32" using inv v by (simp_all add: trap_inv_def)
  note sw = schedule_switch [OF ok(1) sc]
  have idle: "current s = None" if "r = None"
    using that sw(5) inv v(3) by (auto simp: trap_inv_def split: option.splits)
  have new: "\<exists>j q. current s2 = Some j \<and> proc_at s2 j = Some q \<and> npc = pc q" "trap_inv (s2\<lparr>mscratch := fp\<rparr>)"
    if "r = Some (fp, npc)" for fp npc
    using dispatch_switched [OF ok, of epc fp npc s2] sc that by simp_all
  show "switched s (snd out) (fst out)"
  proof (cases r)
    case None
    then have "current s2 = None" "mscratch s2 = StaticFrame" "length (regs (TRAP_FRAME s2)) = 32"
      using sw(5) idle inv v(4) ok(2) more_trap [OF sw(4)] by (auto simp: trap_inv_def)
    then show ?thesis using None idle sw(1,2) v(2,3) by (simp add: switched_def out trap_inv_def)
  next
    case (Some z)
    then show ?thesis using new sw(2) v(2,3) by (cases z) (simp add: switched_def out)
  qed
  show "proc_at (snd out) i = Some (p\<lparr>pc := epc\<rparr>) \<and> (\<exists>j q. current (snd out) = Some j \<and> proc_at (snd out) j = Some q \<and> fst out = pc q)"
    if "current s = Some i" "proc_at s i = Some p" for i p
    using that idle new sw(3) [of i p] v(2,3) by (cases r) (auto simp: out)
qed

lemma exit_switched:
  assumes inv: "trap_inv s" and ex: "exit_current s = Inr (r, s1)"
    and pr: "(case r of None \<Rightarrow> Inr s1 | Some p \<Rightarrow> println M fuel (msg p) s1) = Inr s2"
    and sc: "schedule epc s2 = Inr (Some (fp, npc), s3)"
  shows "switched s (s3\<lparr>mscratch := fp\<rparr>) npc"
proof -
  have v2: "trap_view s2 = trap_view s1" using pr println_view by (auto split: option.splits)
  have ok: "procs_ok s" and cur: "\<And>i. current s = Some i \<Longrightarrow> proc_at s i \<noteq> None"
    using inv by (auto simp: trap_inv_def)
  have s1: "procs_ok s1 \<and> current s1 = None \<and> (\<forall>i. current s \<noteq> Some i \<longrightarrow> proc_at s1 i = proc_at s i) \<and>
      TRAP_FRAME s1 = TRAP_FRAME s"
    using ex ok cur
    by (auto simp: exit_current_def procs_ok_def table_ok_def proc_at_def nth_list_update split: option.splits if_splits)
  then have ok2: "procs_ok s2" "length (regs (TRAP_FRAME s2)) = 32"
    using inv trap_view_eqs [OF v2] by (simp_all add: trap_inv_def)
  note sw = schedule_switch [OF ok2(1) sc]
  have "current s2 = None" "\<And>i. current s \<noteq> Some i \<Longrightarrow> proc_at s2 i = proc_at s i"
    using s1 trap_view_eqs [OF v2] by simp_all
  then have "\<And>i. current s \<noteq> Some i \<Longrightarrow> proc_at s3 i = proc_at s i" using sw(2) by simp
  then show ?thesis using dispatch_switched [OF ok2 sc] by (simp add: switched_def)
qed

text \<open>Writing to the frame of the current context.\<close>

lemma set_frame_current:
  assumes inv: "trap_inv s" and len: "length (regs f) = 32"
  shows "trap_inv (set_frame (mscratch s) f s)" "current (set_frame (mscratch s) f s) = current s"
    "mscratch (set_frame (mscratch s) f s) = mscratch s" "frame_of (mscratch s) (set_frame (mscratch s) f s) = Some f"
    "\<And>i. current s \<noteq> Some i \<Longrightarrow> proc_at (set_frame (mscratch s) f s) i = proc_at s i"
    "\<And>i p. current s = Some i \<Longrightarrow> proc_at s i = Some p \<Longrightarrow> proc_at (set_frame (mscratch s) f s) i = Some (p\<lparr>frame := f\<rparr>)"
proof -
  have "trap_inv (set_frame (mscratch s) f s) \<and> current (set_frame (mscratch s) f s) = current s \<and>
      mscratch (set_frame (mscratch s) f s) = mscratch s \<and> frame_of (mscratch s) (set_frame (mscratch s) f s) = Some f \<and>
      (\<forall>i. current s \<noteq> Some i \<longrightarrow> proc_at (set_frame (mscratch s) f s) i = proc_at s i) \<and>
      (\<forall>i p. current s = Some i \<longrightarrow> proc_at s i = Some p \<longrightarrow> proc_at (set_frame (mscratch s) f s) i = Some (p\<lparr>frame := f\<rparr>))"
  proof (cases "current s")
    case None
    then show ?thesis using inv len
      by (simp add: trap_inv_def set_frame_def frame_of_def)
  next
    case (Some i)
    then obtain p where p: "mscratch s = SlotFrame i" "proc_at s i = Some p" "i < length (slots s)"
      using inv by (auto simp: trap_inv_def proc_at_def split: if_splits)
    let ?s = "s\<lparr>slots := (slots s)[i := Some (p\<lparr>frame := f\<rparr>)]\<rparr>"
    have set: "set_frame (mscratch s) f s = ?s" by (simp add: set_frame_def p)
    have at: "proc_at ?s j = (if j = i then Some (p\<lparr>frame := f\<rparr>) else proc_at s j)" for j
      by (rule proc_at_slots [OF p(3)])
    have "procs_ok ?s" using inv p(2) len by (auto simp: trap_inv_def procs_ok_def at) (simp add: table_ok_def)
    then show ?thesis unfolding set using inv Some p at by (simp add: trap_inv_def frame_of_def)
  qed
  then show "trap_inv (set_frame (mscratch s) f s)" "current (set_frame (mscratch s) f s) = current s"
    "mscratch (set_frame (mscratch s) f s) = mscratch s" "frame_of (mscratch s) (set_frame (mscratch s) f s) = Some f"
    "\<And>i. current s \<noteq> Some i \<Longrightarrow> proc_at (set_frame (mscratch s) f s) i = proc_at s i"
    "\<And>i p. current s = Some i \<Longrightarrow> proc_at s i = Some p \<Longrightarrow> proc_at (set_frame (mscratch s) f s) i = Some (p\<lparr>frame := f\<rparr>)"
    by blast+
qed

lemma step_past_view: "step_past epc s = Inr (npc, s') \<Longrightarrow> s' = s"
  by (auto simp: step_past_def bind_res_Inr_iff)

lemma do_syscall_switched:
  assumes inv: "trap_inv s" and sy: "do_syscall L M fuel epc (mscratch s) s = Inr (npc, s')"
  shows "switched s s' npc"
proof -
  obtain f where f: "frame_of (mscratch s) s = Some f" using sy by (auto simp: do_syscall_def split: option.splits)
  have len: "length (regs f) = 32"
    using inv f by (auto simp: trap_inv_def procs_ok_def frame_of_def split: option.splits frame_ptr.splits)
  consider (ping) "regs f ! 10 = 1" | (read) "regs f ! 10 = 63" | (quit) "regs f ! 10 = 93"
    | (unknown) "regs f ! 10 \<notin> {1, 63, 93}" by blast
  then show ?thesis
  proof cases
    case ping
    with sy f have "s' = s" by (auto simp: do_syscall_def Let_def dest: step_past_view)
    then show ?thesis using switched_view [OF inv] by simp
  next
    case read
    obtain n s1 where n: "sys_read L (bus.truncate M) fuel (unat (regs f ! 11)) (ucast (regs f ! 12)) (unat (regs f ! 13))
        (ucast (regs f ! 14)) (ucast (regs f ! 15)) s = Inr (n, s1)"
      "s' = set_frame (mscratch s) (f\<lparr>regs := (regs f)[10 := of_nat n]\<rparr>) s1"
      using sy f read by (auto simp: do_syscall_def Let_def bind_res_Inr_iff dest!: step_past_view)
    note v = trap_view_eqs [OF trap_view_proc [OF sys_read_view [OF n(1)]]]
    have "trap_inv s1" "mscratch s = mscratch s1" "length (regs (f\<lparr>regs := (regs f)[10 := of_nat n]\<rparr>)) = 32"
      using inv len v by simp_all
    then show ?thesis using set_frame_current [of s1] n(2) v by (simp add: switched_def)
  next
    case quit
    let ?msg = "\<lambda>p. bytes ''process '' @ dec (unat p) @ bytes '' exited''"
    obtain r s1 s2 nf s3 where e: "exit_current s = Inr (r, s1)"
      "(case r of None \<Rightarrow> Inr s1 | Some p \<Rightarrow> println M fuel (?msg p) s1) = Inr s2" "schedule epc s2 = Inr (nf, s3)"
      "(case nf of Some (next_frame, next_pc) \<Rightarrow> Inr (next_pc, s3\<lparr>mscratch := next_frame\<rparr>) | None \<Rightarrow> Inl Diverges) = Inr (npc, s')"
      using sy f quit by (auto simp: do_syscall_def Let_def bind_res_Inr_iff)
    then show ?thesis using exit_switched [OF inv e(1,2)] by (auto split: option.splits)
  next
    case unknown
    with sy f show ?thesis
      by (auto simp: do_syscall_def Let_def bind_res_Inr_iff dest!: step_past_view intro: switched_view [OF inv println_view])
  qed
qed

lemma m_trap_switched:
  assumes inv: "trap_inv s" and m: "m_trap L M fuel epc tval cause hart status (mscratch s) s = Inr (npc, s')"
  shows "switched s s' npc"
proof -
  have report: "switched s s' npc" if "report_fault M fuel what hart epc tval s = Inr (npc, s')" for what
    using that by (auto simp: report_fault_def bind_res_Inr_iff dest!: step_past_view intro: switched_view [OF inv println_view])
  have timer: "switched s s' npc" if run: "bind_res (rearm_timer M s) (\<lambda>s1. bind_res (schedule epc s1) (\<lambda>(r, s2).
      case r of Some (next_frame, next_pc) \<Rightarrow> Inr (next_pc, s2\<lparr>mscratch := next_frame\<rparr>) | None \<Rightarrow> Inr (epc, s2))) = Inr (npc, s')"
  proof -
    obtain s1 r s2 where "rearm_timer M s = Inr s1" "schedule epc s1 = Inr (r, s2)"
      "(case r of Some (next_frame, next_pc) \<Rightarrow> Inr (next_pc, s2\<lparr>mscratch := next_frame\<rparr>) | None \<Rightarrow> Inr (epc, s2)) = (Inr (npc, s') :: _ res)"
      using run by (auto simp: bind_res_Inr_iff)
    then show ?thesis using timer_switched(1) [OF inv, of M s1 epc r s2, OF _ _ refl] by (cases r) auto
  qed
  have fault: "switched s s' npc" if "step_past epc (access_fault_trap s) = Inr (npc, s')"
    using step_past_view [OF that] by (auto intro!: switched_view [OF inv] trap_view_proc)
  show ?thesis
    using m unfolding m_trap_def Let_def
    by (auto split: if_splits simp: bind_res_Inr_iff
        intro: switched_view [OF inv println_view] switched_view [OF inv handle_external_view] report timer fault do_syscall_switched [OF inv])
qed

text \<open>A whole trap, from registers to registers.\<close>

lemma take_trap_switched:
  assumes inv: "trap_inv s" and t: "take_trap L M fuel tval cause hart status c s = Inr (c', s')"
  shows "trap_inv s'" "\<And>i. current s \<noteq> Some i \<Longrightarrow> proc_at s' i = proc_at s i"
    "\<And>i p. current s \<noteq> Some i \<Longrightarrow> current s' = Some i \<Longrightarrow> proc_at s' i = Some p \<Longrightarrow> c' = (load_ctx (frame p), pc p)"
proof -
  obtain f where f: "frame_of (mscratch s) s = Some f" using t by (auto simp: take_trap_def split: option.splits)
  let ?s = "set_frame (mscratch s) (save_ctx (fst c) f) s"
  obtain npc f' where m: "m_trap L M fuel (snd c) tval cause hart status (mscratch s) ?s = Inr (npc, s')"
    "frame_of (mscratch s') s' = Some f'" "c' = (load_ctx f', npc)"
    using t f by (auto simp: take_trap_def bind_res_Inr_iff split: option.splits)
  have len: "length (regs (save_ctx (fst c) f)) = 32" by (simp add: save_ctx_def)
  note sf = set_frame_current [OF inv len]
  have sw: "switched ?s s' npc" using m_trap_switched [OF sf(1)] m(1) sf(3) by simp
  then show inv': "trap_inv s'" by (simp add: switched_def)
  show "proc_at s' i = proc_at s i" if "current s \<noteq> Some i" for i
    using sw sf(2,5) that by (simp add: switched_def)
  show "c' = (load_ctx (frame p), pc p)" if i: "current s \<noteq> Some i" "current s' = Some i" "proc_at s' i = Some p" for i p
  proof -
    have "npc = pc p" using sw sf(2) i by (auto simp: switched_def)
    moreover have "f' = frame p" using inv' m(2) i(2,3) by (simp add: trap_inv_def frame_of_def)
    ultimately show ?thesis using m(3) by simp
  qed
qed

lemma timer_trap:
  assumes inv: "trap_inv s" and cause: "drop_bit 63 cause AND 1 = 1" "cause AND 0xfff = 7" and i: "current s = Some i"
    and t: "take_trap L M fuel tval cause hart status c s = Inr (c', s')"
  shows "\<exists>p. proc_at s' i = Some p \<and> pc p = snd c \<and> (\<forall>r. 0 < r \<and> r < 32 \<longrightarrow> load_ctx (frame p) r = fst c r)"
    "\<And>p. current s' = Some i \<Longrightarrow> proc_at s' i = Some p \<Longrightarrow> c' = (load_ctx (frame p), pc p)"
proof -
  obtain q where q: "proc_at s i = Some q" "mscratch s = SlotFrame i" using inv i by (auto simp: trap_inv_def)
  let ?f = "save_ctx (fst c) (frame q)"
  have f: "frame_of (mscratch s) s = Some (frame q)" using q by (simp add: frame_of_def)
  let ?s = "set_frame (mscratch s) ?f s"
  obtain npc f' where m: "m_trap L M fuel (snd c) tval cause hart status (mscratch s) ?s = Inr (npc, s')"
    "frame_of (mscratch s') s' = Some f'" "c' = (load_ctx f', npc)"
    using t f by (auto simp: take_trap_def bind_res_Inr_iff split: option.splits)
  have len: "length (regs ?f) = 32" by (simp add: save_ctx_def)
  note sf = set_frame_current [OF inv len]
  have run: "bind_res (rearm_timer M ?s) (\<lambda>s1. bind_res (schedule (snd c) s1) (\<lambda>(r, s2).
      case r of Some (fp, npc) \<Rightarrow> Inr (npc, s2\<lparr>mscratch := fp\<rparr>) | None \<Rightarrow> Inr (snd c, s2))) = Inr (npc, s')"
    using m(1) cause by (simp add: m_trap_def)
  obtain s1 r s2 where s1: "rearm_timer M ?s = Inr s1" "schedule (snd c) s1 = Inr (r, s2)"
      "(npc, s') = (case r of Some (fp, npc) \<Rightarrow> (npc, s2\<lparr>mscratch := fp\<rparr>) | None \<Rightarrow> (snd c, s2))"
    using run by (auto simp: bind_res_Inr_iff split: option.splits)
  have "proc_at s' i = Some (q\<lparr>frame := ?f, pc := snd c\<rparr>) \<and> (\<exists>j p. current s' = Some j \<and> proc_at s' j = Some p \<and> npc = pc p)"
    using timer_switched(2) [OF sf(1) s1, of i "q\<lparr>frame := ?f\<rparr>"] sf(2) sf(6) [OF i q(1)] i by simp
  moreover have "load_ctx ?f r = fst c r" if "0 < r" "r < 32" for r
    using that by (simp add: load_ctx_def save_ctx_def nth_Cons')
  ultimately show "\<exists>p. proc_at s' i = Some p \<and> pc p = snd c \<and> (\<forall>r. 0 < r \<and> r < 32 \<longrightarrow> load_ctx (frame p) r = fst c r)"
    by simp
  show "c' = (load_ctx (frame p), pc p)" if "current s' = Some i" "proc_at s' i = Some p" for p
  proof -
    have "trap_inv s'" using m_trap_switched [OF sf(1)] m(1) sf(3) by (simp add: switched_def)
    then have "f' = frame p" using m(2) that by (simp add: trap_inv_def frame_of_def)
    then show ?thesis using \<open>_ \<and> (\<exists>j p. _)\<close> that m(3) by auto
  qed
qed

section \<open>The timer interrupt\<close>

text \<open>The clock does not run out: the next tick still fits.\<close>

definition clock_ok :: "'d soc \<Rightarrow> 'd \<Rightarrow> bool" where
  "clock_ok M d \<longleftrightarrow> unat (fst (rd64 M CLINT_MTIME d)) + unat TIMER_TICK < 2 ^ 64"

lemma rearm_timer_returns:
  assumes "clock_ok M (hw s)"
  shows "\<exists>s1. rearm_timer M s = Inr s1"
  using assms by (auto simp: clock_ok_def rearm_timer_def u64_add_def split: prod.split)

lemma hw_set_frame [simp]: "hw (set_frame fp f s) = hw s"
  by (simp add: set_frame_def split: frame_ptr.split option.split)

text \<open>It returns, and resumes the first process after the interrupted one, cyclically.\<close>

lemma timer_trap_picks:
  assumes inv: "trap_inv s" and cause: "drop_bit 63 cause AND 1 = 1" "cause AND 0xfff = 7"
    and clk: "clock_ok M (hw s)" and some: "proc_at s j \<noteq> None"
  shows "\<exists>c' s' m k. take_trap L M fuel tval cause hart status c s = Inr (c', s') \<and> trap_inv s' \<and>
     m < 16 \<and> k = (search_start s + m) mod 16 \<and> proc_at s k \<noteq> None \<and>
     (\<forall>l < m. proc_at s ((search_start s + l) mod 16) = None) \<and> current s' = Some k \<and>
     (current s \<noteq> Some k \<longrightarrow> (\<exists>q. proc_at s k = Some q \<and> c' = (load_ctx (frame q), pc q)))"
proof -
  obtain f where f: "frame_of (mscratch s) s = Some f"
    using inv by (auto simp: trap_inv_def frame_of_def split: option.splits)
  let ?s = "set_frame (mscratch s) (save_ctx (fst c) f) s"
  have len: "length (regs (save_ctx (fst c) f)) = 32" by (simp add: save_ctx_def)
  note sf = set_frame_current [OF inv len]
  have at: "proc_at ?s i = None \<longleftrightarrow> proc_at s i = None" for i
    using sf(5) [of i] sf(6) [of i] inv by (cases "current s = Some i") (auto simp: trap_inv_def)
  obtain s1 where s1: "rearm_timer M ?s = Inr s1" using rearm_timer_returns [of M ?s] clk by auto
  note v = trap_view_eqs [OF rearm_timer_view [OF s1]]
  have ok: "procs_ok s1" using sf(1) v(1) by (simp add: trap_inv_def)
  then have run: "runnable s1 i \<longleftrightarrow> proc_at s i \<noteq> None" for i
    using v(3) [of i] at [of i] by (auto simp: procs_ok_def runnable_def)
  have start: "search_start s1 = search_start s" using v(2) sf(2) by (simp add: search_start_def)
  have tok: "table_ok s1" using ok by (simp add: procs_ok_def)
  show ?thesis
  proof (rule schedule_cases [OF tok, of "snd c"])
    assume "\<And>i. \<not> runnable s1 i"
    with some run show ?thesis by blast
  next
    fix m k p s2
    assume p: "m < 16" "k = (search_start s1 + m) mod 16" "runnable s1 k"
      "\<And>l. l < m \<Longrightarrow> \<not> runnable s1 ((search_start s1 + l) mod 16)"
      "saved (snd c) s1 k = Some p" "schedule (snd c) s1 = Inr (Some (SlotFrame k, pc p), s2)" "current s2 = Some k"
      "\<And>i. proc_at s2 i = saved (snd c) s1 i"
    let ?s' = "s2\<lparr>mscratch := SlotFrame k\<rparr>"
    have m: "m_trap L M fuel (snd c) tval cause hart status (mscratch s) ?s = Inr (pc p, ?s')"
      using cause s1 p(6) by (simp add: m_trap_def)
    have fr: "frame_of (mscratch ?s') ?s' = Some (frame p)" using p(5,8) by (simp add: frame_of_def)
    have t: "take_trap L M fuel tval cause hart status c s = Inr ((load_ctx (frame p), pc p), ?s')"
      unfolding take_trap_def f option.case m bind_res_simps prod.case fr by (rule refl)
    have "\<exists>q. proc_at s k = Some q \<and> (load_ctx (frame p), pc p) = (load_ctx (frame q), pc q)" if "current s \<noteq> Some k"
      using that p(5) v(2,3) sf(2,5) by (auto simp: saved_def)
    with t take_trap_switched(1) [OF inv t] p(1-4,7) run start show ?thesis
      by (intro exI [of _ "(load_ctx (frame p), pc p)"] exI [of _ ?s'] exI [of _ m] exI [of _ k]) simp
  qed
qed

section \<open>Preemption\<close>

text \<open>
  What may happen while process \<open>i\<close> is not running: code of others changes registers, the program
  counter, memory and devices but not the kernel's tables, and traps of any cause are taken.
\<close>

inductive away ::
  "linker \<Rightarrow> 'd soc \<Rightarrow> nat \<Rightarrow> nat \<Rightarrow> hart \<times> ('d, 'z) trap_state_scheme \<Rightarrow> hart \<times> ('d, 'z) trap_state_scheme \<Rightarrow> bool"
  for L M fuel i k
where
  here: "away L M fuel i k k"
| code: "away L M fuel i k (c, s) \<Longrightarrow> current s \<noteq> Some i \<Longrightarrow> trap_view s' = trap_view s \<Longrightarrow> away L M fuel i k (c', s')"
| trap: "away L M fuel i k (c, s) \<Longrightarrow> current s \<noteq> Some i \<Longrightarrow>
    take_trap L M fuel tval cause hart status c s = Inr (c', s') \<Longrightarrow> away L M fuel i k (c', s')"

lemma away_keeps:
  assumes "away L M fuel i k (c', s')" "k = (c, s)" "trap_inv s" "proc_at s i = Some p"
    "current s = Some i \<longrightarrow> c = (load_ctx (frame p), pc p)"
  shows "trap_inv s' \<and> proc_at s' i = Some p \<and> (current s' = Some i \<longrightarrow> c' = (load_ctx (frame p), pc p))"
  using assms
proof (induction "(c', s')" arbitrary: c' s' rule: away.induct)
  case here
  then show ?case by simp
next
  case (code c1 s1 s' c')
  then have "trap_inv s1 \<and> proc_at s1 i = Some p" by simp
  then show ?case using code(3,4) trap_view_eqs [OF code(4)] by simp
next
  case (trap c1 s1 tval cause hart status c' s')
  then have "trap_inv s1" "proc_at s1 i = Some p" by simp_all
  then show ?case using take_trap_switched [OF _ trap(4)] trap(3) by auto
qed

text \<open>
  C6: Preemption is transparent. A process interrupted by the timer is resumed with exactly the
  registers and program counter it had, whatever other processes and interrupts, system calls and
  exits of others included, have run in between; and \<open>mscratch\<close> always points to the frame of the
  process that is running.
\<close>

lemma preempted_process_resumes:
  assumes inv: "trap_inv s" and i: "current s = Some i"
    and cause: "drop_bit 63 cause AND 1 = 1" "cause AND 0xfff = 7"
    and t: "take_trap L M fuel tval cause hart status c s = Inr (c1, s1)"
    and away: "away L M fuel i (c1, s1) (c2, s2)" and again: "current s2 = Some i"
  shows "(\<forall>r. 0 < r \<and> r < 32 \<longrightarrow> fst c2 r = fst c r) \<and> snd c2 = snd c \<and> trap_inv s2"
proof -
  obtain p where p: "proc_at s1 i = Some p" "pc p = snd c" "\<forall>r. 0 < r \<and> r < 32 \<longrightarrow> load_ctx (frame p) r = fst c r"
    using timer_trap(1) [OF inv cause i t] by blast
  then show ?thesis
    using away_keeps [OF away refl take_trap_switched(1) [OF inv t] p(1)] timer_trap(2) [OF inv cause i t] again by auto
qed

definition demo_two :: "unit trap_state" where
  "demo_two =
     \<lparr>mem = (\<lambda>_. 0), ALLOC_START = 0,
      slots = Some (new_process 0x9000 0x80001000 0x4000 1) # Some (new_process 0x9000 0x80002000 0x6000 2) # replicate 14 None,
      current = Some 0, NEXT_PID = 3, BLOCK_DEVICES = [], VIRTIO_DEVICES = [], ACCESS_FAULT_SEEN = False, hw = (),
      TRAP_STACK_TOP = 0x9000, TRAP_FRAME = TrapFrame_empty, ESC_STATE = Idle, mscratch = SlotFrame 0,
      mtvec = m_trap_vector, mie = 0\<rparr>"

definition demo_timer :: "unit soc" where
  "demo_timer = \<lparr>rd32 = (\<lambda>_ d. (0, True, d)), wr32 = (\<lambda>_ _ d. (True, d)), dma = (\<lambda>m d. (m, d)),
     rd8 = (\<lambda>_ d. (0, d)), wr8 = (\<lambda>_ _ d. d), rd64 = (\<lambda>_ d. (0, d)), wr64 = (\<lambda>_ _ d. d)\<rparr>"

lemma demo_switch:
  "\<exists>c1 s1 c2 s2. take_trap blk_layout demo_timer 1 0 0x8000000000000007 0 0 c demo_two = Inr (c1, s1) \<and> current s1 = Some 1 \<and>
     take_trap blk_layout demo_timer 1 0 0x8000000000000007 0 0 c1 s1 = Inr (c2, s2) \<and> current s2 = Some 0"
  by (simp add: take_trap_def demo_two_def frame_of_def proc_at_def set_frame_def m_trap_def rearm_timer_def demo_timer_def
      u64_add_def TIMER_TICK_def schedule_def save_pc_def new_process_def Let_def upt_rec)

lemma demo_two_inv: "trap_inv demo_two"
proof -
  have "p = new_process 0x9000 0x80001000 0x4000 1 \<or> p = new_process 0x9000 0x80002000 0x6000 2" if "proc_at demo_two i = Some p" for i p
    using that by (auto simp: proc_at_def demo_two_def nth_Cons' split: if_splits)
  then have "state p = Running \<and> length (regs (frame p)) = 32" if "proc_at demo_two i = Some p" for i p
    using that by (fastforce simp: new_process_def TrapFrame_empty_def)
  then have "procs_ok demo_two" unfolding procs_ok_def by (simp add: table_ok_def) (simp add: demo_two_def)
  then show ?thesis by (simp add: trap_inv_def) (simp add: demo_two_def proc_at_def TrapFrame_empty_def)
qed

theorem preempted_process_resumes_witness:
  "\<exists>c1 s1 c2 s2. take_trap blk_layout demo_timer 1 0 0x8000000000000007 0 0 (\<lambda>r. of_nat (r + 100), 0x80001234) demo_two = Inr (c1, s1) \<and>
     take_trap blk_layout demo_timer 1 0 0x8000000000000007 0 0 c1 s1 = Inr (c2, s2) \<and> fst c2 5 = 105 \<and> snd c2 = 0x80001234"
proof -
  let ?c = "(\<lambda>r. of_nat (r + 100), 0x80001234)"
  obtain c1 s1 c2 s2 where r: "take_trap blk_layout demo_timer 1 0 0x8000000000000007 0 0 ?c demo_two = Inr (c1, s1)"
      "current s1 = Some 1" "take_trap blk_layout demo_timer 1 0 0x8000000000000007 0 0 c1 s1 = Inr (c2, s2)" "current s2 = Some 0"
    using demo_switch by blast
  have cur: "current demo_two = Some 0" by (simp add: demo_two_def)
  have "away blk_layout demo_timer 1 0 (c1, s1) (c2, s2)" by (rule away.trap [OF away.here _ r(3)]) (simp add: r(2))
  from preempted_process_resumes [OF demo_two_inv cur _ _ r(1) this r(4)]
  have "\<forall>r. 0 < r \<and> r < 32 \<longrightarrow> fst c2 r = fst ?c r" "snd c2 = snd ?c" by simp_all
  then have "fst c2 5 = 105" "snd c2 = 0x80001234" by simp_all
  with r show ?thesis by blast
qed

end
