(* ===== verification/MinixRead.thy ===== *)
theory MinixRead
  imports Minix
begin

text \<open>
  What the Minix 3 reader returns. The reader relies on a block read, a \<open>block_source\<close>: a locale
  with the laws that \<open>block_read\<close> and the driver's invariant provide. Inside it \<open>mount\<close>,
  \<open>read_inode\<close> and \<open>read_file\<close> are related to the bytes of the disk; the interpretation \<open>blk\<close>
  carries the results over to the virtio driver.
\<close>

section \<open>Runs of memory\<close>

definition in_run :: "nat \<times> nat \<Rightarrow> nat \<Rightarrow> bool" where
  "in_run r x \<longleftrightarrow> fst r \<le> x \<and> x < fst r + snd r * PAGE_SIZE"

definition covers :: "nat \<times> nat \<Rightarrow> nat \<Rightarrow> nat \<Rightarrow> bool" where
  "covers r a n \<longleftrightarrow> fst r \<le> a \<and> a + n \<le> fst r + snd r * PAGE_SIZE"

lemma covers_in_run: "covers r a n \<Longrightarrow> a \<le> x \<Longrightarrow> x < a + n \<Longrightarrow> in_run r x"
  by (simp add: covers_def in_run_def)

lemma runs_apart: "r \<in> held L s \<Longrightarrow> r' \<in> held L s \<Longrightarrow> in_run r x \<Longrightarrow> in_run r' x \<Longrightarrow> r = r'"
  using held_disjoint [of "fst r" "snd r" L s "fst r'" "snd r'"] by (auto simp: in_run_def prod_eq_iff)

lemma run_off_table: "frames_inv L s \<Longrightarrow> r \<in> held L s \<Longrightarrow> in_run r x \<Longrightarrow> x \<notin> desc_region L"
  using held_table_cases [of L s "fst r" "snd r" x] by (auto simp: in_run_def)

text \<open>
  A step of the reader: the source stays ready on the same disk, the allocator's table is as
  before, and of the memory in use only the addresses in \<open>W\<close> may have changed.
\<close>

definition fs_step :: "linker \<Rightarrow> ('z kmem_scheme \<Rightarrow> bool) \<Rightarrow> ('z kmem_scheme \<Rightarrow> u8 list) \<Rightarrow>
    ('z kmem_scheme \<Rightarrow> nat \<times> nat) \<Rightarrow> nat set \<Rightarrow> 'z kmem_scheme \<Rightarrow> 'z kmem_scheme \<Rightarrow> bool" where
  "fs_step L ready disk own W s s' \<longleftrightarrow>
     ready s' \<and> disk s' = disk s \<and> own s' = own s \<and> descriptors L s' = descriptors L s \<and>
     ALLOC_START s' = ALLOC_START s \<and>
     (\<forall>r x. r \<in> held L s \<longrightarrow> r \<noteq> own s \<longrightarrow> in_run r x \<longrightarrow> x \<notin> W \<longrightarrow> mem s' x = mem s x)"

lemma fs_step_held: "fs_step L ready disk own W s s' \<Longrightarrow> held L s' = held L s"
  by (simp add: fs_step_def held_def)

lemma fs_step_low_free: "fs_step L ready disk own W s s' \<Longrightarrow> low_free L s' = low_free L s"
  by (rule low_free_cong) (simp_all add: fs_step_def)

lemma fs_step_refl: "ready s \<Longrightarrow> fs_step L ready disk own W s s"
  by (simp add: fs_step_def)

lemma fs_step_trans:
  assumes "fs_step L ready disk own W s s'" "fs_step L ready disk own W s' s''"
  shows "fs_step L ready disk own W s s''"
  using assms fs_step_held [OF assms(1)] by (auto simp: fs_step_def)

lemma fs_step_mono: "fs_step L ready disk own V s s' \<Longrightarrow> V \<subseteq> W \<Longrightarrow> fs_step L ready disk own W s s'"
  by (auto simp: fs_step_def)

lemma fs_step_mem:
  assumes "fs_step L ready disk own W s s'" "r \<in> held L s" "r \<noteq> own s" "in_run r x" "x \<notin> W"
  shows "mem s' x = mem s x"
  using assms unfolding fs_step_def by blast

lemma fs_step_rd:
  assumes st: "fs_step L ready disk own W s s'" "r \<in> held L s" "r \<noteq> own s" "covers r a n" "W \<inter> {a..<a + n} = {}"
  shows "rd_bytes (mem s') a n = rd_bytes (mem s) a n"
proof (rule rd_bytes_cong)
  fix x assume "a \<le> x" "x < a + n"
  then show "mem s' x = mem s x"
    using st(5) by (intro fs_step_mem [OF st(1-3) covers_in_run [OF st(4)]]) auto
qed

lemma rd_bytes_append: "rd_bytes m a (n + k) = rd_bytes m a n @ rd_bytes m (a + n) k"
  by (rule nth_equalityI) (simp_all add: nth_append)

lemma rd_bytes_part: "i + n \<le> k \<Longrightarrow> rd_bytes m (a + i) n = take n (drop i (rd_bytes m a k))"
  by (rule nth_equalityI) (simp_all add: add.assoc)

lemma ld32_rd: "i + 4 \<le> n \<Longrightarrow> ld32 m (a + i) = le_u32 (rd_bytes m a n) i"
  by (simp add: ld32_def le_u32_def rd_bytes_part [of i 4 n])

lemma ld16_rd: "i + 2 \<le> n \<Longrightarrow> ld16 m (a + i) = le_u16 (rd_bytes m a n) i"
  by (simp add: ld16_def le_u16_def rd_bytes_part [of i 2 n])

section \<open>Structures in a block\<close>

lemma disk_image: "a + n \<le> length d \<Longrightarrow> rd_bytes (\<lambda>i. d ! i) a n = take n (drop a d)"
  by (rule nth_equalityI) simp_all

lemma ld_image:
  assumes "rd_bytes m p n = rd_bytes m' a n"
  shows "k + 4 \<le> n \<Longrightarrow> ld32 m (p + k) = ld32 m' (a + k)" "k + 2 \<le> n \<Longrightarrow> ld16 m (p + k) = ld16 m' (a + k)"
    "k < n \<Longrightarrow> m (p + k) = m' (a + k)"
proof -
  show "ld32 m (p + k) = ld32 m' (a + k)" if "k + 4 \<le> n" using ld32_rd [OF that, of m p] ld32_rd [OF that, of m' a] assms by simp
  show "ld16 m (p + k) = ld16 m' (a + k)" if "k + 2 \<le> n" using ld16_rd [OF that, of m p] ld16_rd [OF that, of m' a] assms by simp
  show "m (p + k) = m' (a + k)" if "k < n" using assms that by (metis nth_rd_bytes)
qed

lemma superblock_image:
  assumes "rd_bytes m p 1024 = rd_bytes m' a 1024"
  shows "read_SuperBlock m p = read_SuperBlock m' a"
  using ld_image(1) [OF assms, of 0] ld_image(1) [OF assms] ld_image(2) [OF assms] ld_image(3) [OF assms]
  by (simp add: read_SuperBlock_def)

lemma inode_image:
  assumes im: "rd_bytes m p 1024 = rd_bytes m' a 1024" and w: "w + 64 \<le> 1024"
  shows "read_Inode m (p + w) = read_Inode m' (a + w)"
proof -
  have "ld16 m (p + w + k) = ld16 m' (a + w + k)" "ld32 m (p + w + k) = ld32 m' (a + w + k)" if "k + 4 \<le> 64" for k
    using ld_image(1,2) [OF im, of "w + k"] that w by (simp_all add: add.assoc)
  from this [of 0] this(1) [of 2] this show ?thesis by (simp add: read_Inode_def add.assoc)
qed

text \<open>The block that holds an inode, and the place of the inode in it.\<close>

lemma inode_block:
  fixes num :: u32
  assumes a: "a = inode_table_offset f + (unat num - 1) * sizeof_Inode"
  shows "unat (of_nat a AND NOT (of_nat BLOCK_SIZE - 1) :: u64) = a div 1024 * 1024"
    "a div 1024 * 1024 + (a - a div 1024 * 1024) = a \<and> a - a div 1024 * 1024 + 64 \<le> 1024"
    "a div 1024 * 1024 < 2 ^ 64" "a div 1024 * 1024 mod 512 = 0"
proof -
  define t where "t = 2 + unat (imap_blocks (sb f)) + unat (zmap_blocks (sb f))"
  define k where "k = unat num - 1"
  have a': "a = t * 1024 + k * 64" by (simp add: a t_def k_def inode_table_offset_def BLOCK_SIZE_def sizeof_Inode_def)
  have "t < 2 ^ 18"
    using unsigned_less [of "imap_blocks (sb f)", where ?'a = nat] unsigned_less [of "zmap_blocks (sb f)", where ?'a = nat]
    by (simp add: t_def)
  moreover have "k \<le> unat num" "unat num < 2 ^ 32" using unsigned_less [of num, where ?'a = nat] by (simp_all add: k_def)
  ultimately have lt: "a < 2 ^ 64" by (simp add: a')
  then have "unat (of_nat a :: u64) = a" by (simp add: unat_of_nat)
  moreover have "(of_nat BLOCK_SIZE - 1 :: u64) = mask 10" by (simp add: BLOCK_SIZE_def mask_eq_exp_minus_1)
  ultimately show "unat (of_nat a AND NOT (of_nat BLOCK_SIZE - 1) :: u64) = a div 1024 * 1024"
    using unat_and_not_mask [of "of_nat a" 10] by simp
  have "a mod 1024 = k mod 16 * 64" using mod_mult_mult2 [of k 64 16] by (simp add: a')
  moreover have "k mod 16 < 16" by simp
  ultimately have "a mod 1024 + 64 \<le> 1024" by linarith
  then show "a div 1024 * 1024 + (a - a div 1024 * 1024) = a \<and> a - a div 1024 * 1024 + 64 \<le> 1024"
    by (simp add: minus_div_mult_eq_mod)
  show "a div 1024 * 1024 < 2 ^ 64" using lt by (meson div_times_less_eq_dividend le_less_trans)
  have "a div 1024 * 1024 = (a div 1024 * 2) * 512" by simp
  then show "a div 1024 * 1024 mod 512 = 0" by (metis mod_mult_self2_is_0)
qed

section \<open>Files on the disk\<close>

text \<open>
  The contents of a file by the format alone: \<open>path\<close> lists the zones visited to reach a logical
  block, the last of them holds its data; \<open>no_holes\<close> says that the blocks of the first \<open>fin\<close>
  bytes are all there.
\<close>

definition blk :: "u8 list \<Rightarrow> nat \<Rightarrow> u8 list" where
  "blk d z = take 1024 (drop (z * 1024) d)"

definition on_disk :: "u8 list \<Rightarrow> nat \<Rightarrow> bool" where
  "on_disk d z \<longleftrightarrow> z * 1024 + 1024 \<le> length d"

definition zptr :: "u8 list \<Rightarrow> u32 \<Rightarrow> nat \<Rightarrow> u32" where
  "zptr d z i = le_u32 (blk d (unat z)) (4 * i)"

definition path :: "u8 list \<Rightarrow> u32 list \<Rightarrow> nat \<Rightarrow> u32 list" where
  "path d zs b =
     (if b < 7 then [zs ! b]
      else if b < 263 then [zs ! 7, zptr d (zs ! 7) (b - 7)]
      else if b < 65799 then
        let c = b - 263; z1 = zptr d (zs ! 8) (c div 256) in [zs ! 8, z1, zptr d z1 (c mod 256)]
      else
        let c = b - 65799; z1 = zptr d (zs ! 9) (c div 65536); z2 = zptr d z1 (c div 256 mod 256)
        in [zs ! 9, z1, z2, zptr d z2 (c mod 256)])"

definition file_zone :: "u8 list \<Rightarrow> u32 list \<Rightarrow> nat \<Rightarrow> u32" where
  "file_zone d zs b = last (path d zs b)"

definition no_holes :: "u8 list \<Rightarrow> u32 list \<Rightarrow> nat \<Rightarrow> bool" where
  "no_holes d zs fin \<longleftrightarrow> (\<forall>b. b * 1024 < fin \<longrightarrow> (\<forall>z \<in> set (path d zs b). z \<noteq> 0 \<and> on_disk d (unat z)))"

definition file_byte :: "u8 list \<Rightarrow> u32 list \<Rightarrow> nat \<Rightarrow> u8" where
  "file_byte d zs x = d ! (unat (file_zone d zs (x div 1024)) * 1024 + x mod 1024)"

lemma length_blk: "on_disk d z \<Longrightarrow> length (blk d z) = 1024"
  by (simp add: blk_def on_disk_def)

text \<open>A piece of one block of the file.\<close>

lemma file_piece:
  assumes z: "z = file_zone d zs l" "on_disk d (unat z)" and x: "l * 1024 \<le> a" "a + n \<le> l * 1024 + 1024"
  shows "take n (drop (a - l * 1024) (blk d (unat z))) = map (file_byte d zs) [a..<a + n]"
proof (rule nth_equalityI)
  show "length (take n (drop (a - l * 1024) (blk d (unat z)))) = length (map (file_byte d zs) [a..<a + n])"
    using length_blk [OF z(2)] x by simp
next
  fix i assume "i < length (take n (drop (a - l * 1024) (blk d (unat z))))"
  then have i: "i < n" by simp
  define j where "j = a + i - l * 1024"
  have "a + i = l * 1024 + j" "j < 1024" using x i by (simp_all add: j_def)
  then have "(a + i) div 1024 = l" "(a + i) mod 1024 = j" by simp_all
  then show "take n (drop (a - l * 1024) (blk d (unat z))) ! i = map (file_byte d zs) [a..<a + n] ! i"
    using i x z length_blk [OF z(2)] by (simp add: file_byte_def blk_def on_disk_def j_def)
qed

text \<open>The zones of the file below a pointer, as far as the window reaches.\<close>

definition leaf_level :: "u8 list \<Rightarrow> u32 list \<Rightarrow> nat \<Rightarrow> nat \<Rightarrow> u32 \<Rightarrow> bool" where
  "leaf_level d zs fin l z \<longleftrightarrow>
     (\<forall>i < 256. (l + i) * 1024 < fin \<longrightarrow>
        file_zone d zs (l + i) = zptr d z i \<and> zptr d z i \<noteq> 0 \<and> on_disk d (unat (zptr d z i)))"

definition mid_level :: "u8 list \<Rightarrow> u32 list \<Rightarrow> nat \<Rightarrow> nat \<Rightarrow> u32 \<Rightarrow> bool" where
  "mid_level d zs fin l z \<longleftrightarrow>
     (\<forall>i < 256. (l + i * 256) * 1024 < fin \<longrightarrow>
        zptr d z i \<noteq> 0 \<and> on_disk d (unat (zptr d z i)) \<and> leaf_level d zs fin (l + i * 256) (zptr d z i))"

definition top_level :: "u8 list \<Rightarrow> u32 list \<Rightarrow> nat \<Rightarrow> nat \<Rightarrow> u32 \<Rightarrow> bool" where
  "top_level d zs fin l z \<longleftrightarrow>
     (\<forall>i < 256. (l + i * 65536) * 1024 < fin \<longrightarrow>
        zptr d z i \<noteq> 0 \<and> on_disk d (unat (zptr d z i)) \<and> mid_level d zs fin (l + i * 65536) (zptr d z i))"

lemma path_direct: "b < 7 \<Longrightarrow> path d zs b = [zs ! b]"
  by (simp add: path_def)

lemma path_single: "i < 256 \<Longrightarrow> path d zs (7 + i) = [zs ! 7, zptr d (zs ! 7) i]"
  by (simp add: path_def)

lemma path_double:
  assumes "i < 256" "j < 256"
  shows "path d zs (263 + i * 256 + j) = [zs ! 8, zptr d (zs ! 8) i, zptr d (zptr d (zs ! 8) i) j]"
proof -
  have "263 + i * 256 + j - 263 = i * 256 + j" "(i * 256 + j) div 256 = i" "(i * 256 + j) mod 256 = j"
    using assms by simp_all
  then show ?thesis using assms unfolding path_def Let_def by simp
qed

lemma path_triple:
  assumes "i < 256" "j < 256" "k < 256"
  shows "path d zs (65799 + i * 65536 + j * 256 + k) =
    [zs ! 9, zptr d (zs ! 9) i, zptr d (zptr d (zs ! 9) i) j, zptr d (zptr d (zptr d (zs ! 9) i) j) k]"
proof -
  define c where "c = i * 65536 + j * 256 + k"
  define h where "h = i * 256 + j"
  have "c = h * 256 + k" by (simp add: c_def h_def)
  then have "c div 256 = h" "c mod 256 = k" using assms by simp_all
  then have "c div 256 = i * 256 + j" "c mod 256 = k" by (simp_all add: h_def)
  moreover have "c div 65536 = i" using assms by (simp add: c_def)
  moreover have "(i * 256 + j) mod 256 = j" using assms by simp
  moreover have "65799 + i * 65536 + j * 256 + k - 65799 = c" by (simp add: c_def)
  ultimately show ?thesis unfolding path_def Let_def by simp
qed

lemma no_holesD: "no_holes d zs fin \<Longrightarrow> b * 1024 < fin \<Longrightarrow> z \<in> set (path d zs b) \<Longrightarrow> z \<noteq> 0 \<and> on_disk d (unat z)"
  by (auto simp: no_holes_def)

lemma no_holes_levels:
  assumes nh: "no_holes d zs fin"
  shows "7 * 1024 < fin \<Longrightarrow> zs ! 7 \<noteq> 0 \<and> on_disk d (unat (zs ! 7)) \<and> leaf_level d zs fin 7 (zs ! 7)"
    "263 * 1024 < fin \<Longrightarrow> zs ! 8 \<noteq> 0 \<and> on_disk d (unat (zs ! 8)) \<and> mid_level d zs fin 263 (zs ! 8)"
    "65799 * 1024 < fin \<Longrightarrow> zs ! 9 \<noteq> 0 \<and> on_disk d (unat (zs ! 9)) \<and> top_level d zs fin 65799 (zs ! 9)"
proof -
  note nhD = no_holesD [OF nh]
  show "zs ! 7 \<noteq> 0 \<and> on_disk d (unat (zs ! 7)) \<and> leaf_level d zs fin 7 (zs ! 7)" if "7 * 1024 < fin"
    using nhD [of "7 + 0"] path_single [of 0 d zs] that nhD [of "7 + _"] by (auto simp: leaf_level_def file_zone_def path_single)
  have d1: "zptr d (zs ! 8) i \<noteq> 0 \<and> on_disk d (unat (zptr d (zs ! 8) i))" if "i < 256" "(263 + i * 256) * 1024 < fin" for i
    using nhD [of "263 + i * 256 + 0"] path_double [of i 0 d zs] that by auto
  have d2: "leaf_level d zs fin (263 + i * 256) (zptr d (zs ! 8) i)" if "i < 256" for i
    using nhD [of "263 + i * 256 + _"] that by (auto simp: leaf_level_def file_zone_def path_double)
  show "zs ! 8 \<noteq> 0 \<and> on_disk d (unat (zs ! 8)) \<and> mid_level d zs fin 263 (zs ! 8)" if "263 * 1024 < fin"
    using nhD [of "263 + 0 * 256 + 0"] path_double [of 0 0 d zs] that d1 d2 by (auto simp: mid_level_def)
  let ?t = "zptr d (zs ! 9)"
  have t1: "?t i \<noteq> 0 \<and> on_disk d (unat (?t i))" if "i < 256" "(65799 + i * 65536) * 1024 < fin" for i
    using nhD [of "65799 + i * 65536 + 0 * 256 + 0"] path_triple [of i 0 0 d zs] that by auto
  have t2: "zptr d (?t i) j \<noteq> 0 \<and> on_disk d (unat (zptr d (?t i) j))"
    if "i < 256" "j < 256" "(65799 + i * 65536 + j * 256) * 1024 < fin" for i j
    using nhD [of "65799 + i * 65536 + j * 256 + 0"] path_triple [of i j 0 d zs] that by auto
  have t3: "leaf_level d zs fin (65799 + i * 65536 + j * 256) (zptr d (?t i) j)" if "i < 256" "j < 256" for i j
    using nhD [of "65799 + i * 65536 + j * 256 + _"] that by (auto simp: leaf_level_def file_zone_def path_triple)
  show "zs ! 9 \<noteq> 0 \<and> on_disk d (unat (zs ! 9)) \<and> top_level d zs fin 65799 (zs ! 9)" if "65799 * 1024 < fin"
    using nhD [of "65799 + 0 * 65536 + 0 * 256 + 0"] path_triple [of 0 0 0 d zs] that t1 t2 t3
    by (auto simp: top_level_def mid_level_def)
qed

section \<open>The contract of a block source\<close>

locale block_source =
  fixes L :: linker
    and rd :: "nat \<Rightarrow> u32 \<Rightarrow> u64 \<Rightarrow> 'z kmem_scheme \<Rightarrow> (bool \<times> 'z kmem_scheme) res"
    and ready :: "'z kmem_scheme \<Rightarrow> bool"
    and disk :: "'z kmem_scheme \<Rightarrow> u8 list"
    and own :: "'z kmem_scheme \<Rightarrow> nat \<times> nat"
  assumes ready_inv: "ready s \<Longrightarrow> frames_inv L s"
    and own_held: "ready s \<Longrightarrow> own s \<in> held L s"
    and ready_frame: "ready s \<Longrightarrow> frames_inv L s' \<Longrightarrow> own s \<in> held L s' \<Longrightarrow>
          (\<And>x. in_run (own s) x \<Longrightarrow> mem s' x = mem s x) \<Longrightarrow> kmem.more s' = kmem.more s \<Longrightarrow>
          ready s' \<and> disk s' = disk s \<and> own s' = own s"
    and read_law: "ready s \<Longrightarrow> whole_sectors (unat sz) \<Longrightarrow> r \<in> held L s \<Longrightarrow> r \<noteq> own s \<Longrightarrow> covers r buf (unat sz) \<Longrightarrow>
          0 < low_free L s \<Longrightarrow> fits = (unat off div 512 * 512 + unat sz \<le> length (disk s)) \<Longrightarrow>
          \<exists>s'. rd buf sz off s = Inr (fits, s') \<and> fs_step L ready disk own {buf..<buf + unat sz} s s' \<and>
               (fits \<longrightarrow> rd_bytes (mem s') buf (unat sz) = take (unat sz) (drop (unat off div 512 * 512) (disk s)))"
begin

abbreviation step :: "nat set \<Rightarrow> 'z kmem_scheme \<Rightarrow> 'z kmem_scheme \<Rightarrow> bool" where
  "step \<equiv> fs_step L ready disk own"

lemma write_step:
  assumes s: "ready s" and r: "r \<in> held L s" "r \<noteq> own s" "covers r a (length bs)"
  shows "step {a..<a + length bs} s (s\<lparr>mem := wr_bytes (mem s) a bs\<rparr>)"
proof -
  let ?s = "s\<lparr>mem := wr_bytes (mem s) a bs\<rparr>"
  have inv: "frames_inv L s" using s by (rule ready_inv)
  have out: "mem ?s x = mem s x" if "x < a \<or> a + length bs \<le> x" for x using that by (simp add: wr_bytes_out)
  have "mem ?s x = mem s x" if "x \<in> desc_region L" for x
    using run_off_table [OF inv r(1) covers_in_run [OF r(3)], of x] that by (intro out) (metis not_le)
  then have ds: "descriptors L ?s = descriptors L s" by (rule descriptors_frame)
  then have "frames_inv L ?s" "held L ?s = held L s" using inv by (simp_all add: frames_inv_def held_def)
  moreover have "mem ?s x = mem s x" if "in_run (own s) x" for x
    using runs_apart [OF r(1) own_held [OF s] covers_in_run [OF r(3)] that] r(2) by (intro out) (metis not_le)
  ultimately have "ready ?s \<and> disk ?s = disk s \<and> own ?s = own s"
    using ready_frame [OF s, of ?s] own_held [OF s] by simp
  then show ?thesis using ds by (auto simp: fs_step_def wr_bytes_out)
qed

lemma read_block_step:
  assumes s: "ready s" "0 < low_free L s" and r: "r \<in> held L s" "r \<noteq> own s" "covers r buf 1024"
    and off: "off < 2 ^ 64" "off mod 512 = 0"
    and fits: "fits = (off + 1024 \<le> length (disk s))"
  shows "\<exists>s'. read_block rd buf off s = Inr (if fits then Inr () else Inl BlockReadFailed, s') \<and>
     step {buf..<buf + 1024} s s' \<and> (fits \<longrightarrow> rd_bytes (mem s') buf 1024 = take 1024 (drop off (disk s)))"
proof -
  have u: "unat (of_nat off :: u64) = off" "unat (1024 :: u32) = 1024" using off(1) by (simp_all add: unat_of_nat)
  have "off div 512 * 512 = off" using off(2) by (metis mod_0_imp_dvd dvd_div_mult_self)
  with read_law [OF s(1) _ r(1,2), of 1024 buf fits "of_nat off"] r(3) s(2) fits show ?thesis
    by (auto simp: read_block_def BLOCK_SIZE_def whole_sectors_def u)
qed

text \<open>A buffer comes from a fresh page that the table below \<open>heap_end\<close> still has.\<close>

lemma take_buffer:
  assumes s: "ready s" "n < low_free L s"
  obtains j p s1 where "p = ALLOC_START s + j * PAGE_SIZE" "s1 = set_descriptors L (mark_run (descriptors L s) j 1) s"
    "window_free (descriptors L s) j 1" "p < heap_end L"
    "Buffer_new L BLOCK_SIZE s = Inr (Some \<lparr>buf_ptr = p, buf_pages = 1\<rparr>, s1)"
    "ready s1" "disk s1 = disk s" "own s1 = own s" "held L s1 = insert (p, 1) (held L s)" "(p, 1) \<notin> held L s"
    "n \<le> low_free L s1" "\<And>r x. r \<in> held L s \<Longrightarrow> in_run r x \<Longrightarrow> mem s1 x = mem s x"
proof -
  have inv: "frames_inv L s" using s(1) by (rule ready_inv)
  have "0 < low_free L s" using s(2) by simp
  then obtain j where j: "allocate L 1 s = Inr (Some (ALLOC_START s + j * PAGE_SIZE),
        set_descriptors L (mark_run (descriptors L s) j 1) s)"
    "window_free (descriptors L s) j 1" "ALLOC_START s + j * PAGE_SIZE < heap_end L"
    using low_page [OF inv] by blast
  define p where "p = ALLOC_START s + j * PAGE_SIZE"
  define s1 where "s1 = set_descriptors L (mark_run (descriptors L s) j 1) s"
  have al: "allocate L 1 s = Inr (Some p, s1)" using j(1) by (simp add: p_def s1_def)
  note as = allocate_Some [OF inv al]
  have same1: "mem s1 x = mem s x" if "r \<in> held L s" "in_run r x" for r x
    using run_off_table [OF inv that] by (rule as(7))
  have r1: "ready s1 \<and> disk s1 = disk s \<and> own s1 = own s"
    using ready_frame [OF s(1) as(1)] own_held [OF s(1)] same1 as(2,6) by simp
  have len: "length (mark_run (descriptors L s) j 1) = npages L" using j(2) by (simp add: window_free_def)
  have "Suc (low_free L s1) = low_free L s"
    by (rule low_free_mark [OF inv j(2,3)]) (simp_all only: s1_def descriptors_set_descriptors [OF len] set_descriptors_sel)
  then have "n \<le> low_free L s1" using s(2) by simp
  moreover have "div_ceil BLOCK_SIZE PAGE_SIZE = 1" by (simp add: div_ceil_def BLOCK_SIZE_def)
  then have "Buffer_new L BLOCK_SIZE s = Inr (Some \<lparr>buf_ptr = p, buf_pages = 1\<rparr>, s1)"
    using al by (simp add: Buffer_new_def)
  ultimately show thesis
    using that [OF p_def s1_def j(2)] j(3) as(1-3) r1 same1 by (auto simp: p_def)
qed

text \<open>Giving the page back: the table is as before, and so is what was not written meanwhile.\<close>

lemma return_buffer:
  assumes s: "ready s" and p: "p = ALLOC_START s + j * PAGE_SIZE" "s1 = set_descriptors L (mark_run (descriptors L s) j 1) s"
      "window_free (descriptors L s) j 1" "p < heap_end L"
    and s2: "ready s2" "disk s2 = disk s" "own s2 = own s" "descriptors L s2 = descriptors L s1" "ALLOC_START s2 = ALLOC_START s"
    and same: "\<And>r x. r \<in> held L s \<Longrightarrow> r \<noteq> own s \<Longrightarrow> in_run r x \<Longrightarrow> x \<notin> W \<Longrightarrow> mem s2 x = mem s x"
    and s3: "s3 = set_descriptors L (descriptors L s) s2"
  shows "deallocate L p s2 = Inr s3" "step W s s3" "\<And>r x. r \<in> held L s \<Longrightarrow> in_run r x \<Longrightarrow> mem s3 x = mem s2 x"
proof -
  have inv: "frames_inv L s" using s by (rule ready_inv)
  show "deallocate L p s2 = Inr s3"
    using page_back(1) [OF inv p(3) _ p(2) s2(5,4)] p(4) by (simp add: p(1) s3)
  have ds3: "descriptors L s3 = descriptors L s" and as3: "ALLOC_START s3 = ALLOC_START s"
    using s2(5) by (simp_all add: s3)
  have held3: "held L s3 = held L s" "frames_inv L s3" using inv by (simp_all add: held_def frames_inv_def ds3 as3)
  show same3: "mem s3 x = mem s2 x" if "r \<in> held L s" "in_run r x" for r x
    unfolding s3 using run_off_table [OF inv that] by (intro mem_set_descriptors_out) simp_all
  have "ready s3 \<and> disk s3 = disk s \<and> own s3 = own s"
    using ready_frame [of s2 s3] s2(1-3) held3 own_held [OF s] same3 by (simp add: s3)
  then show "step W s s3" using ds3 as3 same same3 by (auto simp: fs_step_def)
qed

lemma with_buffer_step:
  assumes s: "ready s" "n < low_free L s"
    and body: "\<And>p s1. ready s1 \<Longrightarrow> disk s1 = disk s \<Longrightarrow> own s1 = own s \<Longrightarrow>
        held L s1 = insert (p, 1) (held L s) \<Longrightarrow> (p, 1) \<notin> held L s \<Longrightarrow> n \<le> low_free L s1 \<Longrightarrow>
        \<exists>y s2. k p s1 = Inr (y, s2) \<and> step (W \<union> {p..<p + 4096}) s1 s2 \<and> Q y (mem s2)"
    and Q: "\<And>y m m'. Q y m \<Longrightarrow> (\<And>r x. r \<in> held L s \<Longrightarrow> r \<noteq> own s \<Longrightarrow> in_run r x \<Longrightarrow> m' x = m x) \<Longrightarrow> Q y m'"
  shows "\<exists>y s'. with_buffer L BLOCK_SIZE k s = Inr (y, s') \<and> step W s s' \<and> Q y (mem s')"
proof -
  have inv: "frames_inv L s" using s(1) by (rule ready_inv)
  obtain j p s1 where p: "p = ALLOC_START s + j * PAGE_SIZE" "s1 = set_descriptors L (mark_run (descriptors L s) j 1) s"
      "window_free (descriptors L s) j 1" "p < heap_end L"
      "Buffer_new L BLOCK_SIZE s = Inr (Some \<lparr>buf_ptr = p, buf_pages = 1\<rparr>, s1)"
    and r1: "ready s1" "disk s1 = disk s" "own s1 = own s" "held L s1 = insert (p, 1) (held L s)" "(p, 1) \<notin> held L s"
      "n \<le> low_free L s1" and same1: "\<And>r x. r \<in> held L s \<Longrightarrow> in_run r x \<Longrightarrow> mem s1 x = mem s x"
    by (rule take_buffer [OF s]) blast
  obtain y s2 where k: "k p s1 = Inr (y, s2)" "step (W \<union> {p..<p + 4096}) s1 s2" "Q y (mem s2)"
    using body [OF r1] by blast
  note st = k(2) [unfolded fs_step_def]
  define s3 where "s3 = set_descriptors L (descriptors L s) s2"
  have keep: "mem s2 x = mem s x" if rx: "r \<in> held L s" "r \<noteq> own s" "in_run r x" "x \<notin> W" for r x
  proof -
    have "r \<in> held L s1" "(p, 1) \<in> held L s1" "r \<noteq> (p, 1)" using r1(4,5) rx(1) by auto
    then have "x \<notin> {p..<p + 4096}" using runs_apart [of r L s1 "(p, 1)" x] rx(3) by (auto simp: in_run_def)
    with fs_step_mem [OF k(2), of r x] rx \<open>r \<in> held L s1\<close> r1 same1 [OF rx(1,3)] show ?thesis by simp
  qed
  have dealloc: "deallocate L p s2 = Inr s3" and st3: "step W s s3"
    and same3: "\<And>r x. r \<in> held L s \<Longrightarrow> in_run r x \<Longrightarrow> mem s3 x = mem s2 x"
    using return_buffer [OF s(1) p(1-4) _ _ _ _ _ keep s3_def] st r1 by (simp_all add: p(2))
  have run: "with_buffer L BLOCK_SIZE k s = Inr (y, s3)"
    using p(5) k(1) dealloc by (simp add: with_buffer_def Buffer_drop_def)
  with st3 k(3) Q [of y "mem s2" "mem s3"] same3 show ?thesis by blast
qed

lemma with_buffer_fault:
  assumes s: "ready s" "n < low_free L s"
    and body: "\<And>p s1. ready s1 \<Longrightarrow> disk s1 = disk s \<Longrightarrow> own s1 = own s \<Longrightarrow>
        held L s1 = insert (p, 1) (held L s) \<Longrightarrow> (p, 1) \<notin> held L s \<Longrightarrow> n \<le> low_free L s1 \<Longrightarrow> k p s1 = Inl e"
  shows "with_buffer L BLOCK_SIZE k s = Inl e"
proof -
  obtain p s1 where "Buffer_new L BLOCK_SIZE s = Inr (Some \<lparr>buf_ptr = p, buf_pages = 1\<rparr>, s1)" "k p s1 = Inl e"
    using take_buffer [OF s] body by metis
  then show ?thesis by (simp add: with_buffer_def)
qed

subsection \<open>Copying the blocks of a file\<close>

text \<open>The places of a read: the block buffer \<open>bb\<close> and the caller's slice in the run \<open>ro\<close>.\<close>

definition places :: "nat \<Rightarrow> nat \<times> nat \<Rightarrow> nat \<Rightarrow> nat \<Rightarrow> 'z kmem_scheme \<Rightarrow> bool" where
  "places bb ro out n s \<longleftrightarrow>
     ready s \<and> 0 < low_free L s \<and> (bb, 1) \<in> held L s \<and> (bb, 1) \<noteq> own s \<and>
     ro \<in> held L s \<and> ro \<noteq> own s \<and> ro \<noteq> (bb, 1) \<and> covers ro out n"

definition area :: "nat \<Rightarrow> nat \<Rightarrow> nat \<Rightarrow> nat set" where
  "area bb out n = {bb..<bb + 4096} \<union> {out..<out + n}"

definition filled :: "(nat \<Rightarrow> u8) \<Rightarrow> nat \<Rightarrow> nat \<Rightarrow> memory \<Rightarrow> nat \<Rightarrow> bool" where
  "filled fb out off m c \<longleftrightarrow> rd_bytes m out (c - off) = map fb [off..<c]"

lemma places_step: "places bb ro out n s \<Longrightarrow> step W s s' \<Longrightarrow> places bb ro out n s'"
  using fs_step_held [of L ready disk own W s s'] fs_step_low_free [of L ready disk own W s s']
  by (auto simp: places_def fs_step_def)

lemma copy_zone_step:
  assumes pl: "places bb ro out n s"
    and z: "z \<noteq> 0" "z = file_zone (disk s) zs l" "on_disk (disk s) (unat z)"
    and cur: "cur = max off (l * 1024)" "cur < fin" "fin - off \<le> n"
    and fill: "filled (file_byte (disk s) zs) out off (mem s) cur"
    and c': "c' = min fin (max off ((l + 1) * 1024))"
  shows "\<exists>s'. copy_zone rd bb out n fin z (l * 1024) cur (cur - off) s = Inr (Inr (c' < fin, c', c' - off), s') \<and>
     step (area bb out n) s s' \<and> filled (file_byte (disk s) zs) out off (mem s') c'"
proof (cases "(l + 1) * 1024 \<le> cur")
  case True
  then have "c' = cur" using cur by (auto simp: c' max_def min_def split: if_splits)
  with True z(1) cur(2) fill pl show ?thesis
    by (auto simp: copy_zone_def BLOCK_SIZE_def Let_def places_def intro: fs_step_refl)
next
  case False
  note pl' = pl [unfolded places_def]
  define chunk where "chunk = min (1024 - (cur - l * 1024)) (fin - cur)"
  have le: "l * 1024 \<le> cur" "off \<le> cur" using cur(1) by simp_all
  have c'': "c' = cur + chunk" "cur + chunk \<le> l * 1024 + 1024" "cur - off + chunk \<le> n"
    using False le cur by (auto simp: c' chunk_def max_def min_def split: if_splits)
  have u: "unat z * 1024 < 2 ^ 64" using unsigned_less [of z, where ?'a = nat] by simp
  have cov: "covers (bb, 1) bb 1024" by (simp add: covers_def)
  obtain s1 where s1: "read_block rd bb (unat z * 1024) s = Inr (Inr (), s1)" "step {bb..<bb + 1024} s s1"
    "rd_bytes (mem s1) bb 1024 = blk (disk s) (unat z)"
    using read_block_step [of s "(bb, 1)" bb "unat z * 1024" True] pl' cov u z(3)
    by (auto simp: on_disk_def blk_def)
  have d1: "disk s1 = disk s" "ready s1" "own s1 = own s" "held L s1 = held L s"
    using s1(2) fs_step_held [OF s1(2)] by (simp_all add: fs_step_def)
  define data where "data = rd_bytes (mem s1) (bb + (cur - l * 1024)) chunk"
  have "cur - l * 1024 + chunk \<le> 1024" using c''(2) le by simp
  then have data: "data = map (file_byte (disk s) zs) [cur..<cur + chunk]"
    using rd_bytes_part [of "cur - l * 1024" chunk 1024 "mem s1" bb] file_piece [OF z(2,3) le(1) c''(2)]
    by (simp add: data_def s1(3))
  define s2 where "s2 = s1\<lparr>mem := wr_bytes (mem s1) (out + (cur - off)) data\<rparr>"
  have cov2: "covers ro (out + (cur - off)) (length data)"
    using pl' c''(3) by (auto simp: covers_def data_def)
  have st2: "step {out + (cur - off)..<out + (cur - off) + length data} s1 s2"
    unfolding s2_def by (rule write_step) (use pl' d1 cov2 in auto)
  have run: "copy_zone rd bb out n fin z (l * 1024) cur (cur - off) s = Inr (Inr (c' < fin, c', c' - off), s2)"
  proof -
    have "usize_sub cur (l * 1024) = Inr (cur - l * 1024)" "usize_sub fin cur = Inr (fin - cur)"
      and neg: "\<not> l * 1024 + 1024 \<le> cur" and ce: "cur - off + chunk = c' - off"
      using le cur(2) False c''(1) by (simp_all add: usize_sub_def)
    then show ?thesis
      using z(1) neg s1(1) c''(1,3) unfolding copy_zone_def Let_def BLOCK_SIZE_def try_fs_def
      by (simp del: diff_diff_left diff_diff_right add: chunk_def [symmetric] data_def [symmetric] s2_def [symmetric])
  qed
  have "step (area bb out n) s s1" by (rule fs_step_mono [OF s1(2)]) (auto simp: area_def)
  moreover have "step (area bb out n) s1 s2"
    by (rule fs_step_mono [OF st2]) (use c''(3) in \<open>auto simp: area_def data_def\<close>)
  ultimately have "step (area bb out n) s s2" by (rule fs_step_trans)
  moreover have "rd_bytes (mem s1) out (cur - off) = rd_bytes (mem s) out (cur - off)"
  proof (rule fs_step_rd [OF s1(2)])
    show "ro \<in> held L s" "ro \<noteq> own s" using pl' by auto
    show cv: "covers ro out (cur - off)" using pl' c''(3) by (auto simp: covers_def)
    show "{bb..<bb + 1024} \<inter> {out..<out + (cur - off)} = {}"
      using runs_apart [of ro L s "(bb, 1)"] pl' covers_in_run [OF cv] by (fastforce simp: in_run_def)
  qed
  then have "filled (file_byte (disk s) zs) out off (mem s2) c'"
  proof -
    assume keep: "rd_bytes (mem s1) out (cur - off) = rd_bytes (mem s) out (cur - off)"
    have len: "chunk = length data" and ce: "c' - off = cur - off + chunk" using le c''(1) by (simp_all add: data_def)
    have "rd_bytes (mem s2) out (cur - off) = rd_bytes (mem s1) out (cur - off)"
      "rd_bytes (mem s2) (out + (cur - off)) chunk = data"
      unfolding s2_def by (simp_all add: rd_wr_disjoint rd_wr_same [OF len])
    moreover have "[off..<c'] = [off..<cur] @ [cur..<cur + chunk]"
      unfolding c''(1) by (rule upt_add_eq_append [OF le(2)])
    ultimately show ?thesis
      using fill keep data unfolding filled_def ce rd_bytes_append by simp
  qed
  ultimately show ?thesis using run by blast
qed

text \<open>The counters when \<open>l\<close> blocks of the file have been passed.\<close>

definition reached :: "(nat \<Rightarrow> u8) \<Rightarrow> nat \<Rightarrow> nat \<Rightarrow> nat \<Rightarrow> nat \<Rightarrow> flow \<Rightarrow> memory \<Rightarrow> bool" where
  "reached fb out off fin l x m \<longleftrightarrow>
     (if fin \<le> l * 1024 then x = Return (fin - off) \<and> filled fb out off m fin
      else x = Go (max off (l * 1024)) (max off (l * 1024) - off) (l * 1024) \<and>
           filled fb out off m (max off (l * 1024)))"

lemma then_go_simps [simp]:
  "then_go (Inr (Inr (Return w), s)) K = Inr (Inr (Return w), s)"
  "then_go (Inr (Inr (Go c w l), s)) K = K c w l s"
  by (simp_all add: then_go_def try_fs_def)

lemma try_then_go: "try_fs r (\<lambda>v s. then_go (k v s) K) = then_go (try_fs r k) K"
  by (cases r) (auto simp: then_go_def try_fs_def split: sum.split)

text \<open>Every loop of \<open>read_file\<close> passes \<open>wd\<close> blocks per iteration.\<close>

lemma flow_loop:
  fixes F :: "nat list \<Rightarrow> nat \<Rightarrow> nat \<Rightarrow> nat \<Rightarrow> 'z kmem_scheme \<Rightarrow> (flow, 'z kmem_scheme) fs_res"
  assumes nil: "\<And>c w l s. F [] c w l s = Inr (Inr (Go c w l), s)"
    and body: "\<And>i is c s. i < k \<Longrightarrow> step W t s \<Longrightarrow> c = max off ((lb + i * wd) * 1024) \<Longrightarrow> c < fin \<Longrightarrow>
        filled fb out off (mem s) c \<Longrightarrow>
        \<exists>x s'. F (i # is) c (c - off) ((lb + i * wd) * 1024) s = then_go (Inr (Inr x, s')) (F is) \<and>
               step W s s' \<and> reached fb out off fin (lb + Suc i * wd) x (mem s')"
    and off: "off < fin"
  shows "i \<le> k \<Longrightarrow> step W t s \<Longrightarrow> c = max off ((lb + i * wd) * 1024) \<Longrightarrow> c < fin \<Longrightarrow> filled fb out off (mem s) c \<Longrightarrow>
     \<exists>x s'. F [i..<k] c (c - off) ((lb + i * wd) * 1024) s = Inr (Inr x, s') \<and> step W s s' \<and>
            reached fb out off fin (lb + k * wd) x (mem s')"
proof (induction "k - i" arbitrary: i s c)
  case 0
  then have "i = k" by simp
  with 0 nil show ?case by (auto simp: reached_def fs_step_def)
next
  case (Suc n)
  then have i: "i < k" by simp
  then have upt: "[i..<k] = i # [Suc i..<k]" by (rule upt_conv_Cons)
  obtain x s' where x: "F [i..<k] c (c - off) ((lb + i * wd) * 1024) s = then_go (Inr (Inr x, s')) (F [Suc i..<k])"
    "step W s s'" "reached fb out off fin (lb + Suc i * wd) x (mem s')"
    using body [OF i Suc.prems(2-5)] unfolding upt by blast
  have st': "step W t s'" by (rule fs_step_trans [OF Suc.prems(2) x(2)])
  show ?case
  proof (cases "fin \<le> (lb + Suc i * wd) * 1024")
    case True
    have "(lb + Suc i * wd) * 1024 \<le> (lb + k * wd) * 1024" using i by (intro mult_le_mono1 add_le_mono mult_le_mono1) auto
    then have "fin \<le> (lb + k * wd) * 1024" using True by (rule le_trans [rotated])
    with True x show ?thesis by (auto simp: reached_def)
  next
    case False
    let ?c = "max off ((lb + Suc i * wd) * 1024)"
    have go: "x = Go ?c (?c - off) ((lb + Suc i * wd) * 1024)" "filled fb out off (mem s') ?c"
      using False x(3) by (simp_all add: reached_def)
    have "?c < fin" using False off by simp
    from Suc.hyps(1) [of "Suc i" s' ?c] Suc.hyps(2) i st' this go(2)
    obtain y s'' where "F [Suc i..<k] ?c (?c - off) ((lb + Suc i * wd) * 1024) s' = Inr (Inr y, s'')"
      "step W s' s''" "reached fb out off fin (lb + k * wd) y (mem s'')" by (metis diff_Suc_1 Suc_diff_Suc Suc_leI)
    with x(1) go(1) fs_step_trans [OF x(2)] show ?thesis by auto
  qed
qed

lemma copy_zones_level:
  assumes pl: "places bb ro out n s0" and w: "off < fin" "fin - off \<le> n"
    and get: "\<And>i s. i < k \<Longrightarrow> step (area bb out n) s0 s \<Longrightarrow> (l0 + i) * 1024 < fin \<Longrightarrow>
        get i (mem s) = file_zone (disk s0) zs (l0 + i) \<and> get i (mem s) \<noteq> 0 \<and> on_disk (disk s0) (unat (get i (mem s)))"
    and c: "c = max off (l0 * 1024)" "c < fin" "filled (file_byte (disk s0) zs) out off (mem s0) c"
  shows "\<exists>x s'. copy_zones (copy_zone rd bb out n fin) get fin [0..<k] c (c - off) (l0 * 1024) s0 = Inr (Inr x, s') \<and>
     step (area bb out n) s0 s' \<and> reached (file_byte (disk s0) zs) out off fin (l0 + k) x (mem s')"
proof -
  let ?fb = "file_byte (disk s0) zs"
  let ?F = "copy_zones (copy_zone rd bb out n fin) get fin"
  let ?W = "area bb out n"
  have body: "\<exists>x s'. ?F (i # is) c (c - off) ((l0 + i * 1) * 1024) s = then_go (Inr (Inr x, s')) (?F is) \<and>
      step ?W s s' \<and> reached ?fb out off fin (l0 + Suc i * 1) x (mem s')"
    if i: "i < k" and st: "step ?W s0 s" and c: "c = max off ((l0 + i * 1) * 1024)" "c < fin" "filled ?fb out off (mem s) c"
    for i "is" c s
  proof -
    have lt: "(l0 + i) * 1024 < fin" using c(1,2) by simp
    note g = get [OF i st lt]
    have d: "disk s = disk s0" using st by (simp add: fs_step_def)
    define c' where "c' = min fin (max off ((l0 + i + 1) * 1024))"
    obtain s' where s': "copy_zone rd bb out n fin (get i (mem s)) ((l0 + i) * 1024) c (c - off) s =
        Inr (Inr (c' < fin, c', c' - off), s')" "step ?W s s'" "filled ?fb out off (mem s') c'"
      using copy_zone_step [OF places_step [OF pl st], of "get i (mem s)" zs "l0 + i" c off fin c'] g c w(2)
      by (auto simp: d c'_def)
    let ?x = "if c' < fin then Go c' (c' - off) ((l0 + Suc i) * 1024) else Return (c' - off)"
    have "?F (i # is) c (c - off) ((l0 + i) * 1024) s = then_go (Inr (Inr ?x, s')) (?F is)"
      using s'(1) c(2) by (auto simp: try_fs_def BLOCK_SIZE_def algebra_simps)
    moreover have "reached ?fb out off fin (l0 + Suc i) ?x (mem s')"
      using s'(3) w(1) by (auto simp: reached_def c'_def min_def max_def split: if_splits)
    ultimately show ?thesis using s'(2) unfolding mult_1_right by blast
  qed
  have "ready s0" using pl by (simp add: places_def)
  then have refl: "step ?W s0 s0" by (rule fs_step_refl)
  from flow_loop [where F = ?F and k = k and W = ?W and t = s0 and lb = l0 and wd = 1 and fb = ?fb and out = out
      and off = off and fin = fin and i = 0 and s = s0 and c = c, OF _ body w(1)] c refl
  show ?thesis by simp
qed

lemma step_keeps_blk:
  assumes st: "step W s0 s" and p: "(p, 1) \<in> held L s0" "(p, 1) \<noteq> own s0" "W \<inter> {p..<p + 4096} = {}"
  shows "rd_bytes (mem s) p 1024 = rd_bytes (mem s0) p 1024"
  by (rule fs_step_rd [OF st p(1,2)]) (use p(3) in \<open>auto simp: covers_def\<close>)

lemma ptr_at_blk: "rd_bytes m p 1024 = blk d (unat z) \<Longrightarrow> i < 256 \<Longrightarrow> ptr_at p i m = zptr d z i"
  using ld32_rd [of "4 * i" 1024 m p] by (simp add: ptr_at_def zptr_def)

text \<open>The buffers for pointer blocks: runs of their own, apart from the block buffer and the slice.\<close>

definition spare :: "nat \<Rightarrow> nat \<times> nat \<Rightarrow> nat \<Rightarrow> 'z kmem_scheme \<Rightarrow> bool" where
  "spare bb ro p s \<longleftrightarrow> (p, 1) \<in> held L s \<and> (p, 1) \<noteq> own s \<and> p \<noteq> bb \<and> (p, 1) \<noteq> ro"

lemma spare_step: "spare bb ro p s \<Longrightarrow> step W s s' \<Longrightarrow> spare bb ro p s'"
  using fs_step_held [of L ready disk own W s s'] by (simp add: spare_def fs_step_def)

lemma area_spare:
  assumes pl: "places bb ro out n s" and sp: "spare bb ro p s"
  shows "area bb out n \<inter> {p..<p + 4096} = {}"
proof -
  have h: "(p, 1) \<in> held L s" "(bb, 1) \<in> held L s" "(fst ro, snd ro) \<in> held L s"
    using pl sp by (simp_all add: places_def spare_def)
  have "p + 4096 \<le> bb \<or> bb + 4096 \<le> p" using held_disjoint [OF h(1,2)] sp by (simp add: spare_def)
  moreover have "p + 4096 \<le> fst ro \<or> fst ro + snd ro * 4096 \<le> p"
    using held_disjoint [OF h(1,3)] sp by (auto simp add: spare_def prod_eq_iff)
  moreover have "fst ro \<le> out" "out + n \<le> fst ro + snd ro * 4096" using pl by (simp_all add: places_def covers_def)
  ultimately show ?thesis by (auto simp: area_def)
qed

lemma pages_apart: "(p, 1) \<in> held L s \<Longrightarrow> (q, 1) \<in> held L s \<Longrightarrow> p \<noteq> q \<Longrightarrow> {p..<p + 4096} \<inter> {q..<q + 4096} = {}"
  using held_disjoint [of p 1 L s q 1] by auto

lemma read_indirect_step:
  assumes pl: "places bb ro out n s" and sp: "spare bb ro p s" and z: "on_disk (disk s) (unat z)"
  obtains s' where "read_indirect_zone rd z p s = Inr (Inr (), s')" "step {p..<p + 4096} s s'"
    "rd_bytes (mem s') p 1024 = blk (disk s) (unat z)"
proof -
  have u: "unat z * 1024 < 2 ^ 64" using unsigned_less [of z, where ?'a = nat] by simp
  have cov: "covers (p, 1) p 1024" by (simp add: covers_def)
  obtain s' where s': "read_block rd p (unat z * 1024) s = Inr (Inr (), s')" "step {p..<p + 1024} s s'"
    "rd_bytes (mem s') p 1024 = blk (disk s) (unat z)"
    using read_block_step [of s "(p, 1)" p "unat z * 1024" True] pl sp cov u z
    by (auto simp: on_disk_def blk_def places_def spare_def)
  have "step {p..<p + 4096} s s'" by (rule fs_step_mono [OF s'(2)]) auto
  with that s' show thesis by (simp add: read_indirect_zone_def BLOCK_SIZE_def)
qed

text \<open>A block of 256 pointers in the buffer \<open>ib\<close> is followed to the end of its range.\<close>

lemma single_level:
  assumes pl: "places bb ro out n s" and sp: "spare bb ro ib s" and w: "off < fin" "fin - off \<le> n"
    and ptrs: "rd_bytes (mem s) ib 1024 = blk (disk s) (unat z)"
    and zn: "\<And>i. i < 256 \<Longrightarrow> (l0 + i) * 1024 < fin \<Longrightarrow>
        file_zone (disk s) zs (l0 + i) = zptr (disk s) z i \<and> zptr (disk s) z i \<noteq> 0 \<and>
        on_disk (disk s) (unat (zptr (disk s) z i))"
    and c: "c = max off (l0 * 1024)" "c < fin" "filled (file_byte (disk s) zs) out off (mem s) c"
  shows "\<exists>x s'. copy_zones (copy_zone rd bb out n fin) (ptr_at ib) fin [0..<256] c (c - off) (l0 * 1024) s = Inr (Inr x, s') \<and>
     step (area bb out n) s s' \<and> reached (file_byte (disk s) zs) out off fin (l0 + 256) x (mem s')"
proof (rule copy_zones_level [OF pl w _ c])
  fix i s' assume i: "i < 256" and st: "step (area bb out n) s s'" and lt: "(l0 + i) * 1024 < fin"
  have "rd_bytes (mem s') ib 1024 = blk (disk s) (unat z)"
    using step_keeps_blk [OF st _ _ area_spare [OF pl sp]] sp ptrs by (simp add: spare_def)
  then have "ptr_at ib i (mem s') = zptr (disk s) z i" using i by (rule ptr_at_blk)
  with zn [OF i lt] show "ptr_at ib i (mem s') = file_zone (disk s) zs (l0 + i) \<and> ptr_at ib i (mem s') \<noteq> 0 \<and>
      on_disk (disk s) (unat (ptr_at ib i (mem s')))" by simp
qed

lemma filled_step:
  assumes pl: "places bb ro out n s" and sp: "spare bb ro p s" and st: "step {p..<p + 4096} s s'"
    and f: "filled fb out off (mem s) c" "c - off \<le> n"
  shows "filled fb out off (mem s') c"
proof -
  have "{out..<out + (c - off)} \<subseteq> area bb out n" using f(2) by (auto simp: area_def)
  then have "{p..<p + 4096} \<inter> {out..<out + (c - off)} = {}" using area_spare [OF pl sp] by blast
  moreover have "covers ro out (c - off)" using pl f(2) by (simp add: places_def covers_def)
  ultimately have "rd_bytes (mem s') out (c - off) = rd_bytes (mem s) out (c - off)"
    using pl by (intro fs_step_rd [OF st, of ro]) (simp_all add: places_def)
  with f(1) show ?thesis by (simp add: filled_def)
qed

text \<open>
  A loop over a block of pointers in \<open>pb\<close> that reads each block pointed to into \<open>qb\<close> and hands it
  to \<open>G\<close>, which passes \<open>wd\<close> blocks of the file.
\<close>

lemma ptr_level:
  fixes F :: "nat list \<Rightarrow> nat \<Rightarrow> nat \<Rightarrow> nat \<Rightarrow> 'z kmem_scheme \<Rightarrow> (flow, 'z kmem_scheme) fs_res"
  assumes nil: "\<And>c w l s. F [] c w l s = Inr (Inr (Go c w l), s)"
    and cons: "\<And>i is c w l s. ptr_at pb i (mem s) \<noteq> 0 \<Longrightarrow> F (i # is) c w l s =
        try_fs (read_indirect_zone rd (ptr_at pb i (mem s)) qb s) (\<lambda>_ s1. then_go (G c w l s1) (F is))"
    and pl: "places bb ro out n s" and sp: "spare bb ro pb s" "spare bb ro qb s"
    and W: "{qb..<qb + 4096} \<subseteq> W" "W \<inter> {pb..<pb + 4096} = {}" and w: "off < fin" "fin - off \<le> n"
    and ptrs: "rd_bytes (mem s) pb 1024 = blk (disk s) (unat z)"
    and nz: "\<And>i. i < 256 \<Longrightarrow> (l0 + i * wd) * 1024 < fin \<Longrightarrow>
        zptr (disk s) z i \<noteq> 0 \<and> on_disk (disk s) (unat (zptr (disk s) z i))"
    and inner: "\<And>i s1 c. i < 256 \<Longrightarrow> step W s s1 \<Longrightarrow>
        rd_bytes (mem s1) qb 1024 = blk (disk s) (unat (zptr (disk s) z i)) \<Longrightarrow>
        c = max off ((l0 + i * wd) * 1024) \<Longrightarrow> c < fin \<Longrightarrow> filled fb out off (mem s1) c \<Longrightarrow>
        \<exists>x s2. G c (c - off) ((l0 + i * wd) * 1024) s1 = Inr (Inr x, s2) \<and> step W s1 s2 \<and>
               reached fb out off fin (l0 + Suc i * wd) x (mem s2)"
    and c: "c = max off (l0 * 1024)" "c < fin" "filled fb out off (mem s) c"
  shows "\<exists>x s'. F [0..<256] c (c - off) (l0 * 1024) s = Inr (Inr x, s') \<and> step W s s' \<and>
     reached fb out off fin (l0 + 256 * wd) x (mem s')"
proof -
  have body: "\<exists>x s'. F (i # is) c (c - off) ((l0 + i * wd) * 1024) s1 = then_go (Inr (Inr x, s')) (F is) \<and>
      step W s1 s' \<and> reached fb out off fin (l0 + Suc i * wd) x (mem s')"
    if i: "i < 256" and st: "step W s s1" and c: "c = max off ((l0 + i * wd) * 1024)" "c < fin" "filled fb out off (mem s1) c"
    for i "is" c s1
  proof -
    let ?dz = "zptr (disk s) z i"
    note pl1 = places_step [OF pl st] and sq1 = spare_step [OF sp(2) st]
    have d: "disk s1 = disk s" using st by (simp add: fs_step_def)
    have "rd_bytes (mem s1) pb 1024 = blk (disk s) (unat z)"
      using step_keeps_blk [OF st _ _ W(2)] sp(1) ptrs by (simp add: spare_def)
    then have p: "ptr_at pb i (mem s1) = ?dz" using i by (rule ptr_at_blk)
    have "(l0 + i * wd) * 1024 < fin" using c(1,2) by simp
    note dz = nz [OF i this]
    obtain s2 where s2: "read_indirect_zone rd ?dz qb s1 = Inr (Inr (), s2)" "step {qb..<qb + 4096} s1 s2"
      "rd_bytes (mem s2) qb 1024 = blk (disk s1) (unat ?dz)"
      using read_indirect_step [OF pl1 sq1, of ?dz] dz d by auto
    have st2: "step W s1 s2" by (rule fs_step_mono [OF s2(2) W(1)])
    have f2: "filled fb out off (mem s2) c" using filled_step [OF pl1 sq1 s2(2) c(3)] c(2) w(2) by simp
    obtain x s3 where "G c (c - off) ((l0 + i * wd) * 1024) s2 = Inr (Inr x, s3)" "step W s2 s3"
      "reached fb out off fin (l0 + Suc i * wd) x (mem s3)"
      using inner [OF i fs_step_trans [OF st st2] _ c(1,2) f2] s2(3) d by auto
    with fs_step_trans [OF st2] cons [of i s1 "is" c "c - off"] s2(1) dz show ?thesis
      by (auto simp: p try_fs_def)
  qed
  have "ready s" using pl by (simp add: places_def)
  then have refl: "step W s s" by (rule fs_step_refl)
  from flow_loop [where F = F and k = 256 and W = W and t = s and lb = l0 and wd = wd and fb = fb and out = out
      and off = off and fin = fin and i = 0 and s = s and c = c, OF nil body w(1)] c refl
  show ?thesis by simp
qed

subsection \<open>The levels of the zone tree\<close>

abbreviation single where
  "single bb out n fin ib \<equiv> copy_zones (copy_zone rd bb out n fin) (ptr_at ib) fin [0..<256]"

lemma single_run:
  assumes pl: "places bb ro out n s" and sp: "spare bb ro ib s" and w: "off < fin" "fin - off \<le> n"
    and ptrs: "rd_bytes (mem s) ib 1024 = blk (disk s) (unat z)" and lv: "leaf_level (disk s) zs fin l z"
    and c: "c = max off (l * 1024)" "c < fin" "filled (file_byte (disk s) zs) out off (mem s) c"
  shows "\<exists>x s'. single bb out n fin ib c (c - off) (l * 1024) s = Inr (Inr x, s') \<and>
     step (area bb out n) s s' \<and> reached (file_byte (disk s) zs) out off fin (l + 256) x (mem s')"
  by (rule single_level [OF pl sp w ptrs _ c]) (use lv in \<open>simp add: leaf_level_def\<close>)

lemma mid_run:
  fixes F :: "nat list \<Rightarrow> nat \<Rightarrow> nat \<Rightarrow> nat \<Rightarrow> 'z kmem_scheme \<Rightarrow> (flow, 'z kmem_scheme) fs_res"
  assumes nil: "\<And>c w l s. F [] c w l s = Inr (Inr (Go c w l), s)"
    and cons: "\<And>i is c w l s. ptr_at db i (mem s) \<noteq> 0 \<Longrightarrow> F (i # is) c w l s =
        try_fs (read_indirect_zone rd (ptr_at db i (mem s)) ib s) (\<lambda>_ s1. then_go (single bb out n fin ib c w l s1) (F is))"
    and pl: "places bb ro out n s" and sp: "spare bb ro db s" "spare bb ro ib s" "db \<noteq> ib"
    and w: "off < fin" "fin - off \<le> n"
    and ptrs: "rd_bytes (mem s) db 1024 = blk (disk s) (unat z)" and lv: "mid_level (disk s) zs fin l z"
    and c: "c = max off (l * 1024)" "c < fin" "filled (file_byte (disk s) zs) out off (mem s) c"
  shows "\<exists>x s'. F [0..<256] c (c - off) (l * 1024) s = Inr (Inr x, s') \<and>
     step (area bb out n \<union> {ib..<ib + 4096}) s s' \<and> reached (file_byte (disk s) zs) out off fin (l + 65536) x (mem s')"
proof -
  let ?W = "area bb out n \<union> {ib..<ib + 4096}"
  have Wd: "?W \<inter> {db..<db + 4096} = {}" and Wi: "{ib..<ib + 4096} \<subseteq> ?W"
    using area_spare [OF pl sp(1)] pages_apart [of ib s db] sp by (auto simp: spare_def)
  have nz: "zptr (disk s) z i \<noteq> 0 \<and> on_disk (disk s) (unat (zptr (disk s) z i))"
    if "i < 256" "(l + i * 256) * 1024 < fin" for i
    using lv that by (simp add: mid_level_def)
  have inner: "\<exists>x s2. single bb out n fin ib c (c - off) ((l + i * 256) * 1024) s1 = Inr (Inr x, s2) \<and> step ?W s1 s2 \<and>
        reached (file_byte (disk s) zs) out off fin (l + Suc i * 256) x (mem s2)"
    if i: "i < 256" and st: "step ?W s s1" and p: "rd_bytes (mem s1) ib 1024 = blk (disk s) (unat (zptr (disk s) z i))"
      and c: "c = max off ((l + i * 256) * 1024)" "c < fin" "filled (file_byte (disk s) zs) out off (mem s1) c" for i s1 c
  proof -
    have d: "disk s1 = disk s" using st by (simp add: fs_step_def)
    have "leaf_level (disk s1) zs fin (l + i * 256) (zptr (disk s) z i)"
      using lv i c(1,2) by (simp add: mid_level_def d)
    from single_run [OF places_step [OF pl st] spare_step [OF sp(2) st] w _ this c(1,2)] p c(3)
    obtain x s2 where x: "single bb out n fin ib c (c - off) ((l + i * 256) * 1024) s1 = Inr (Inr x, s2)"
      "step (area bb out n) s1 s2" "reached (file_byte (disk s) zs) out off fin (l + i * 256 + 256) x (mem s2)"
      unfolding d by blast
    have "step ?W s1 s2" by (rule fs_step_mono [OF x(2)]) blast
    moreover have "l + i * 256 + 256 = l + Suc i * 256" by simp
    ultimately show ?thesis using x(1,3) by metis
  qed
  have e: "l + 65536 = l + 256 * 256" by simp
  show ?thesis unfolding e by (rule ptr_level [OF nil cons pl sp(1,2) Wi Wd w ptrs nz inner c]) assumption+
qed

lemma top_run:
  assumes pl: "places bb ro out n s" and sp: "spare bb ro tb s" "spare bb ro db s" "spare bb ro ib s"
      "tb \<noteq> db" "tb \<noteq> ib" "db \<noteq> ib"
    and w: "off < fin" "fin - off \<le> n"
    and ptrs: "rd_bytes (mem s) tb 1024 = blk (disk s) (unat z)" and lv: "top_level (disk s) zs fin l z"
    and c: "c = max off (l * 1024)" "c < fin" "filled (file_byte (disk s) zs) out off (mem s) c"
  shows "\<exists>x s'. tind_loop (single bb out n fin ib) rd tb db ib fin [0..<256] c (c - off) (l * 1024) s = Inr (Inr x, s') \<and>
     step (area bb out n \<union> {ib..<ib + 4096} \<union> {db..<db + 4096}) s s' \<and>
     reached (file_byte (disk s) zs) out off fin (l + 256 * 65536) x (mem s')"
proof -
  let ?V = "area bb out n \<union> {ib..<ib + 4096}"
  let ?W = "?V \<union> {db..<db + 4096}"
  let ?G = "tind_inner (single bb out n fin ib) rd db ib [0..<256]"
  let ?F = "tind_loop (single bb out n fin ib) rd tb db ib fin"
  have Wd: "?W \<inter> {tb..<tb + 4096} = {}" and Wi: "{db..<db + 4096} \<subseteq> ?W"
    using area_spare [OF pl sp(1)] pages_apart [of ib s tb] pages_apart [of db s tb] sp by (auto simp: spare_def)
  have nz: "zptr (disk s) z i \<noteq> 0 \<and> on_disk (disk s) (unat (zptr (disk s) z i))"
    if "i < 256" "(l + i * 65536) * 1024 < fin" for i
    using lv that by (simp add: top_level_def)
  have nilI: "tind_inner (single bb out n fin ib) rd db ib [] c w l s = Inr (Inr (Go c w l), s)" for c w l s by simp
  have consI: "tind_inner (single bb out n fin ib) rd db ib (i # is) c w l s =
      try_fs (read_indirect_zone rd (ptr_at db i (mem s)) ib s)
        (\<lambda>_ s1. then_go (single bb out n fin ib c w l s1) (tind_inner (single bb out n fin ib) rd db ib is))"
    if "ptr_at db i (mem s) \<noteq> 0" for i "is" c w l s
    using that by simp
  have inner: "\<exists>x s2. ?G c (c - off) ((l + i * 65536) * 1024) s1 = Inr (Inr x, s2) \<and> step ?W s1 s2 \<and>
        reached (file_byte (disk s) zs) out off fin (l + Suc i * 65536) x (mem s2)"
    if i: "i < 256" and st: "step ?W s s1" and p: "rd_bytes (mem s1) db 1024 = blk (disk s) (unat (zptr (disk s) z i))"
      and c: "c = max off ((l + i * 65536) * 1024)" "c < fin" "filled (file_byte (disk s) zs) out off (mem s1) c" for i s1 c
  proof -
    have d: "disk s1 = disk s" using st by (simp add: fs_step_def)
    have "mid_level (disk s1) zs fin (l + i * 65536) (zptr (disk s) z i)"
      using lv i c(1,2) by (simp add: top_level_def d)
    from mid_run [OF nilI consI places_step [OF pl st] spare_step [OF sp(2) st] spare_step [OF sp(3) st] sp(6) w _ this c(1,2)] p c(3)
    obtain x s2 where x: "?G c (c - off) ((l + i * 65536) * 1024) s1 = Inr (Inr x, s2)"
      "step ?V s1 s2" "reached (file_byte (disk s) zs) out off fin (l + i * 65536 + 65536) x (mem s2)"
      unfolding d by blast
    have "step ?W s1 s2" by (rule fs_step_mono [OF x(2)]) blast
    moreover have "l + i * 65536 + 65536 = l + Suc i * 65536" by simp
    ultimately show ?thesis using x(1,3) by metis
  qed
  have nil: "?F [] c w l s = Inr (Inr (Go c w l), s)" for c w l s by simp
  have cons: "?F (i # is) c w l s =
      try_fs (read_indirect_zone rd (ptr_at tb i (mem s)) db s) (\<lambda>_ s1. then_go (?G c w l s1) (?F is))"
    if "ptr_at tb i (mem s) \<noteq> 0" for i "is" c w l s
    using that by (simp add: INDIRECT_PTRS_PER_BLOCK_def BLOCK_SIZE_def)
  show ?thesis by (rule ptr_level [OF nil cons pl sp(1,2) Wi Wd w ptrs nz inner c]) assumption+
qed

lemma then_go_reached:
  assumes r: "r = Inr (Inr x, s1)" "step W s s1" "reached fb out off fin l x (mem s1)" and l: "l \<le> l'" and off: "off < fin"
    and K: "\<And>c. c = max off (l * 1024) \<Longrightarrow> c < fin \<Longrightarrow> filled fb out off (mem s1) c \<Longrightarrow>
      \<exists>y s2. K c (c - off) (l * 1024) s1 = Inr (Inr y, s2) \<and> step W s1 s2 \<and> reached fb out off fin l' y (mem s2)"
  shows "\<exists>y s2. then_go r K = Inr (Inr y, s2) \<and> step W s s2 \<and> reached fb out off fin l' y (mem s2)"
proof (cases "fin \<le> l * 1024")
  case True
  then have "fin \<le> l' * 1024" using l by (meson le_trans mult_le_mono1)
  with True r show ?thesis by (auto simp: reached_def)
next
  case False
  let ?c = "max off (l * 1024)"
  have x: "x = Go ?c (?c - off) (l * 1024)" "filled fb out off (mem s1) ?c" using False r(3) by (simp_all add: reached_def)
  have "?c < fin" using False off by simp
  from K [OF refl this x(2)] obtain y s2 where "K ?c (?c - off) (l * 1024) s1 = Inr (Inr y, s2)" "step W s1 s2"
    "reached fb out off fin l' y (mem s2)" by blast
  with fs_step_trans [OF r(2)] show ?thesis by (auto simp: r(1) x(1))
qed

text \<open>Reading a block of pointers and then following it.\<close>

lemma read_then:
  assumes pl: "places bb ro out n s" and sp: "spare bb ro p s" and W: "{p..<p + 4096} \<subseteq> W"
    and w: "fin - off \<le> n" "c < fin" and z: "on_disk (disk s) (unat z)" and f: "filled fb out off (mem s) c"
    and K: "\<And>s1. step W s s1 \<Longrightarrow> rd_bytes (mem s1) p 1024 = blk (disk s) (unat z) \<Longrightarrow> filled fb out off (mem s1) c \<Longrightarrow>
      \<exists>y s2. K s1 = Inr (Inr y, s2) \<and> step W s1 s2 \<and> R y (mem s2)"
  shows "\<exists>y s2. try_fs (read_indirect_zone rd z p s) (\<lambda>_ s1. K s1) = Inr (Inr y, s2) \<and> step W s s2 \<and> R y (mem s2)"
proof -
  obtain s1 where s1: "read_indirect_zone rd z p s = Inr (Inr (), s1)" "step {p..<p + 4096} s s1"
    "rd_bytes (mem s1) p 1024 = blk (disk s) (unat z)"
    by (rule read_indirect_step [OF pl sp z])
  have st: "step W s s1" by (rule fs_step_mono [OF s1(2) W])
  have "filled fb out off (mem s1) c" using filled_step [OF pl sp s1(2) f] w by simp
  from K [OF st s1(3) this] obtain y s2 where "K s1 = Inr (Inr y, s2)" "step W s1 s2" "R y (mem s2)" by blast
  with s1(1) fs_step_trans [OF st] show ?thesis by (auto simp: try_fs_def)
qed

text \<open>The four sections of \<open>read_file\<close>, each from the block where it starts.\<close>

definition scratch :: "nat \<Rightarrow> nat \<times> nat \<Rightarrow> nat \<Rightarrow> nat \<Rightarrow> nat \<Rightarrow> 'z kmem_scheme \<Rightarrow> bool" where
  "scratch bb ro ib db tb s \<longleftrightarrow>
     spare bb ro ib s \<and> spare bb ro db s \<and> spare bb ro tb s \<and> ib \<noteq> db \<and> ib \<noteq> tb \<and> db \<noteq> tb"

definition places_area :: "nat \<Rightarrow> nat \<Rightarrow> nat \<Rightarrow> nat \<Rightarrow> nat \<Rightarrow> nat \<Rightarrow> nat set" where
  "places_area bb out n ib db tb = area bb out n \<union> {ib..<ib + 4096} \<union> {db..<db + 4096} \<union> {tb..<tb + 4096}"

lemma single_section:
  assumes pl: "places bb ro out n s" and sc: "scratch bb ro ib db tb s" and w: "off < fin" "fin - off \<le> n"
    and nh: "no_holes (disk s) zs fin"
    and c: "c = max off (7 * 1024)" "c < fin" "filled (file_byte (disk s) zs) out off (mem s) c"
  shows "\<exists>y s2. try_fs (read_indirect_zone rd (zs ! 7) ib s) (\<lambda>_ s1. single bb out n fin ib c (c - off) (7 * 1024) s1) = Inr (Inr y, s2) \<and>
     step (places_area bb out n ib db tb) s s2 \<and> reached (file_byte (disk s) zs) out off fin 263 y (mem s2)"
proof (rule read_then [OF pl _ _ w(2) c(2) _ c(3)])
  show sp: "spare bb ro ib s" using sc by (simp add: scratch_def)
  show "{ib..<ib + 4096} \<subseteq> places_area bb out n ib db tb" by (auto simp: places_area_def)
  have lv: "on_disk (disk s) (unat (zs ! 7)) \<and> leaf_level (disk s) zs fin 7 (zs ! 7)"
    using no_holes_levels(1) [OF nh] c(1,2) by simp
  then show "on_disk (disk s) (unat (zs ! 7))" by blast
  fix s1 assume st: "step (places_area bb out n ib db tb) s s1"
    and p: "rd_bytes (mem s1) ib 1024 = blk (disk s) (unat (zs ! 7))" and f: "filled (file_byte (disk s) zs) out off (mem s1) c"
  have d: "disk s1 = disk s" using st by (simp add: fs_step_def)
  obtain y s2 where y: "single bb out n fin ib c (c - off) (7 * 1024) s1 = Inr (Inr y, s2)" "step (area bb out n) s1 s2"
      "reached (file_byte (disk s) zs) out off fin (7 + 256) y (mem s2)"
    using single_run [OF places_step [OF pl st] spare_step [OF sp st] w, of "zs ! 7" zs 7 c] p lv c(1,2) f
    unfolding d by blast
  have "step (places_area bb out n ib db tb) s1 s2" by (rule fs_step_mono [OF y(2)]) (auto simp: places_area_def)
  moreover have "(7 :: nat) + 256 = 263" by simp
  ultimately show "\<exists>y s2. single bb out n fin ib c (c - off) (7 * 1024) s1 = Inr (Inr y, s2) \<and>
      step (places_area bb out n ib db tb) s1 s2 \<and> reached (file_byte (disk s) zs) out off fin 263 y (mem s2)"
    using y(1,3) by metis
qed

lemma double_section:
  assumes pl: "places bb ro out n s" and sc: "scratch bb ro ib db tb s" and w: "off < fin" "fin - off \<le> n"
    and nh: "no_holes (disk s) zs fin"
    and c: "c = max off (263 * 1024)" "c < fin" "filled (file_byte (disk s) zs) out off (mem s) c"
  shows "\<exists>y s2. try_fs (read_indirect_zone rd (zs ! 8) db s)
        (\<lambda>_ s1. dind_loop (single bb out n fin ib) rd db ib fin [0..<256] c (c - off) (263 * 1024) s1) = Inr (Inr y, s2) \<and>
     step (places_area bb out n ib db tb) s s2 \<and> reached (file_byte (disk s) zs) out off fin 65799 y (mem s2)"
proof (rule read_then [OF pl _ _ w(2) c(2) _ c(3)])
  let ?F = "dind_loop (single bb out n fin ib) rd db ib fin"
  show sp: "spare bb ro db s" using sc by (simp add: scratch_def)
  have sp2: "spare bb ro ib s" "db \<noteq> ib" using sc by (auto simp: scratch_def)
  show "{db..<db + 4096} \<subseteq> places_area bb out n ib db tb" by (auto simp: places_area_def)
  have lv: "on_disk (disk s) (unat (zs ! 8)) \<and> mid_level (disk s) zs fin 263 (zs ! 8)"
    using no_holes_levels(2) [OF nh] c(1,2) by simp
  then show "on_disk (disk s) (unat (zs ! 8))" by blast
  fix s1 assume st: "step (places_area bb out n ib db tb) s s1"
    and p: "rd_bytes (mem s1) db 1024 = blk (disk s) (unat (zs ! 8))" and f: "filled (file_byte (disk s) zs) out off (mem s1) c"
  have d: "disk s1 = disk s" using st by (simp add: fs_step_def)
  have nil: "?F [] c w l s = Inr (Inr (Go c w l), s)" for c w l s by simp
  have cons: "?F (i # is) c w l s = try_fs (read_indirect_zone rd (ptr_at db i (mem s)) ib s)
      (\<lambda>_ s1. then_go (single bb out n fin ib c w l s1) (?F is))"
    if "ptr_at db i (mem s) \<noteq> 0" for i "is" c w l s using that by simp
  obtain y s2 where y: "?F [0..<256] c (c - off) (263 * 1024) s1 = Inr (Inr y, s2)"
      "step (area bb out n \<union> {ib..<ib + 4096}) s1 s2" "reached (file_byte (disk s) zs) out off fin (263 + 65536) y (mem s2)"
    using mid_run [OF nil cons places_step [OF pl st] spare_step [OF sp st] spare_step [OF sp2(1) st] sp2(2) w,
        of "zs ! 8" zs 263 c] p lv c(1,2) f unfolding d by blast
  have "step (places_area bb out n ib db tb) s1 s2" by (rule fs_step_mono [OF y(2)]) (auto simp: places_area_def)
  moreover have "(263 :: nat) + 65536 = 65799" by simp
  ultimately show "\<exists>y s2. ?F [0..<256] c (c - off) (263 * 1024) s1 = Inr (Inr y, s2) \<and>
      step (places_area bb out n ib db tb) s1 s2 \<and> reached (file_byte (disk s) zs) out off fin 65799 y (mem s2)"
    using y(1,3) by metis
qed

lemma triple_section:
  assumes pl: "places bb ro out n s" and sc: "scratch bb ro ib db tb s" and w: "off < fin" "fin - off \<le> n"
    and nh: "no_holes (disk s) zs fin"
    and c: "c = max off (65799 * 1024)" "c < fin" "filled (file_byte (disk s) zs) out off (mem s) c"
  shows "\<exists>y s2. try_fs (read_indirect_zone rd (zs ! 9) tb s)
        (\<lambda>_ s1. tind_loop (single bb out n fin ib) rd tb db ib fin [0..<256] c (c - off) (65799 * 1024) s1) = Inr (Inr y, s2) \<and>
     step (places_area bb out n ib db tb) s s2 \<and> reached (file_byte (disk s) zs) out off fin 16843015 y (mem s2)"
proof (rule read_then [OF pl _ _ w(2) c(2) _ c(3)])
  let ?F = "tind_loop (single bb out n fin ib) rd tb db ib fin"
  show sp: "spare bb ro tb s" using sc by (simp add: scratch_def)
  have sp2: "spare bb ro db s" "spare bb ro ib s" "tb \<noteq> db" "tb \<noteq> ib" "db \<noteq> ib" using sc by (auto simp: scratch_def)
  show "{tb..<tb + 4096} \<subseteq> places_area bb out n ib db tb" by (auto simp: places_area_def)
  have lv: "on_disk (disk s) (unat (zs ! 9)) \<and> top_level (disk s) zs fin 65799 (zs ! 9)"
    using no_holes_levels(3) [OF nh] c(1,2) by simp
  then show "on_disk (disk s) (unat (zs ! 9))" by blast
  fix s1 assume st: "step (places_area bb out n ib db tb) s s1"
    and p: "rd_bytes (mem s1) tb 1024 = blk (disk s) (unat (zs ! 9))" and f: "filled (file_byte (disk s) zs) out off (mem s1) c"
  have d: "disk s1 = disk s" using st by (simp add: fs_step_def)
  obtain y s2 where y: "?F [0..<256] c (c - off) (65799 * 1024) s1 = Inr (Inr y, s2)"
      "step (area bb out n \<union> {ib..<ib + 4096} \<union> {db..<db + 4096}) s1 s2"
      "reached (file_byte (disk s) zs) out off fin (65799 + 256 * 65536) y (mem s2)"
    using top_run [OF places_step [OF pl st] spare_step [OF sp st] spare_step [OF sp2(1) st] spare_step [OF sp2(2) st]
        sp2(3-5) w, of "zs ! 9" zs 65799 c] p lv c(1,2) f unfolding d by blast
  have "step (places_area bb out n ib db tb) s1 s2" by (rule fs_step_mono [OF y(2)]) (auto simp: places_area_def)
  moreover have "(65799 :: nat) + 256 * 65536 = 16843015" by simp
  ultimately show "\<exists>y s2. ?F [0..<256] c (c - off) (65799 * 1024) s1 = Inr (Inr y, s2) \<and>
      step (places_area bb out n ib db tb) s1 s2 \<and> reached (file_byte (disk s) zs) out off fin 16843015 y (mem s2)"
    using y(1,3) by metis
qed

lemma scratch_step: "scratch bb ro ib db tb s \<Longrightarrow> step W s s' \<Longrightarrow> scratch bb ro ib db tb s'"
  by (auto simp: scratch_def intro: spare_step)

lemma read_zones_run:
  assumes pl: "places bb ro out n s" and sc: "scratch bb ro ib db tb s" and w: "off < fin" "fin - off \<le> n"
    and nh: "no_holes (disk s) (zones inode) fin"
  shows "\<exists>x s'. read_zones rd inode fin out n bb ib db tb off s = Inr (Inr x, s') \<and>
     step (places_area bb out n ib db tb) s s' \<and>
     reached (file_byte (disk s) (zones inode)) out off fin 16843015 x (mem s')"
proof -
  let ?zs = "zones inode"
  let ?fb = "file_byte (disk s) ?zs"
  let ?W = "places_area bb out n ib db tb"
  define K4 where "K4 = (\<lambda>cur written logical t. if cur < fin \<and> ?zs ! 9 \<noteq> 0
      then try_fs (read_indirect_zone rd (?zs ! 9) tb t)
             (\<lambda>_ t. tind_loop (single bb out n fin ib) rd tb db ib fin [0..<256] cur written logical t)
      else Inr (Inr (Go cur written logical), t))"
  define K3 where "K3 = (\<lambda>cur written logical t. then_go (if cur < fin \<and> ?zs ! 8 \<noteq> 0
      then try_fs (read_indirect_zone rd (?zs ! 8) db t)
             (\<lambda>_ t. dind_loop (single bb out n fin ib) rd db ib fin [0..<256] cur written logical t)
      else Inr (Inr (Go cur written logical), t)) K4)"
  define K2 where "K2 = (\<lambda>cur written logical t. then_go (if cur < fin \<and> ?zs ! 7 \<noteq> 0
      then try_fs (read_indirect_zone rd (?zs ! 7) ib t) (\<lambda>_ t. single bb out n fin ib cur written logical t)
      else Inr (Inr (Go cur written (logical + 256 * 1024)), t)) K3)"
  have num: "INDIRECT_PTRS_PER_BLOCK = 256" "BLOCK_SIZE = 1024" "NUM_DIRECT_ZONES = 7"
      "(7 :: nat) + 1 = 8" "(7 :: nat) + 2 = 9"
    by (simp_all add: minix_consts)
  have unf: "read_zones rd inode fin out n bb ib db tb off s =
      then_go (copy_zones (copy_zone rd bb out n fin) (\<lambda>i _. ?zs ! i) fin [0..<7] off 0 0 s) K2"
    unfolding read_zones_def Let_def K2_def K3_def K4_def
    by (simp only: num)
  have k4: "\<exists>y s2. K4 c (c - off) (65799 * 1024) t = Inr (Inr y, s2) \<and> step ?W t s2 \<and> reached ?fb out off fin 16843015 y (mem s2)"
    if t: "step ?W s t" and c: "c = max off (65799 * 1024)" "c < fin" "filled ?fb out off (mem t) c" for c t
  proof -
    have d: "disk t = disk s" using t by (simp add: fs_step_def)
    have "?zs ! 9 \<noteq> 0" using no_holes_levels(3) [OF nh] c(1,2) by simp
    with triple_section [OF places_step [OF pl t] scratch_step [OF sc t] w, of ?zs c] c nh show ?thesis
      by (simp add: K4_def d)
  qed
  have k3: "\<exists>y s2. K3 c (c - off) (263 * 1024) t = Inr (Inr y, s2) \<and> step ?W t s2 \<and> reached ?fb out off fin 16843015 y (mem s2)"
    if t: "step ?W s t" and c: "c = max off (263 * 1024)" "c < fin" "filled ?fb out off (mem t) c" for c t
  proof -
    have d: "disk t = disk s" using t by (simp add: fs_step_def)
    have "?zs ! 8 \<noteq> 0" using no_holes_levels(2) [OF nh] c(1,2) by simp
    moreover obtain y s2 where y: "try_fs (read_indirect_zone rd (?zs ! 8) db t)
        (\<lambda>_ t. dind_loop (single bb out n fin ib) rd db ib fin [0..<256] c (c - off) (263 * 1024) t) = Inr (Inr y, s2)"
      "step ?W t s2" "reached ?fb out off fin 65799 y (mem s2)"
      using double_section [OF places_step [OF pl t] scratch_step [OF sc t] w, of ?zs c] c nh unfolding d by blast
    ultimately have "K3 c (c - off) (263 * 1024) t = then_go (Inr (Inr y, s2)) K4" using c(2) by (simp add: K3_def)
    then show ?thesis
      by (simp only:) (rule then_go_reached [where K = K4 and l' = 16843015, OF refl y(2,3) _ w(1) k4 [OF fs_step_trans [OF t y(2)]]]; simp)
  qed
  have k2: "\<exists>y s2. K2 c (c - off) (7 * 1024) t = Inr (Inr y, s2) \<and> step ?W t s2 \<and> reached ?fb out off fin 16843015 y (mem s2)"
    if t: "step ?W s t" and c: "c = max off (7 * 1024)" "c < fin" "filled ?fb out off (mem t) c" for c t
  proof -
    have d: "disk t = disk s" using t by (simp add: fs_step_def)
    have "?zs ! 7 \<noteq> 0" using no_holes_levels(1) [OF nh] c(1,2) by simp
    moreover obtain y s2 where y: "try_fs (read_indirect_zone rd (?zs ! 7) ib t)
        (\<lambda>_ t. single bb out n fin ib c (c - off) (7 * 1024) t) = Inr (Inr y, s2)"
      "step ?W t s2" "reached ?fb out off fin 263 y (mem s2)"
      using single_section [OF places_step [OF pl t] scratch_step [OF sc t] w, of ?zs c] c nh unfolding d by blast
    ultimately have "K2 c (c - off) (7 * 1024) t = then_go (Inr (Inr y, s2)) K3" using c(2) by (simp add: K2_def)
    then show ?thesis
      by (simp only:) (rule then_go_reached [where K = K3 and l' = 16843015, OF refl y(2,3) _ w(1) k3 [OF fs_step_trans [OF t y(2)]]]; simp)
  qed
  have get: "?zs ! i = file_zone (disk s) ?zs (0 + i) \<and> ?zs ! i \<noteq> 0 \<and> on_disk (disk s) (unat (?zs ! i))"
    if "i < 7" "(0 + i) * 1024 < fin" for i
    using no_holesD [OF nh, of i "?zs ! i"] that by (simp add: path_direct file_zone_def)
  have c0: "off = max off (0 * 1024)" "filled ?fb out off (mem s) off" by (simp_all add: filled_def rd_bytes_def)
  have "\<exists>x s1. copy_zones (copy_zone rd bb out n fin) (\<lambda>i _. ?zs ! i) fin [0..<7] off (off - off) (0 * 1024) s = Inr (Inr x, s1) \<and>
      step (area bb out n) s s1 \<and> reached ?fb out off fin (0 + 7) x (mem s1)"
    by (rule copy_zones_level [OF pl w _ c0(1) w(1) c0(2)]) (use get in blast)
  then obtain x s1 where x: "copy_zones (copy_zone rd bb out n fin) (\<lambda>i _. ?zs ! i) fin [0..<7] off (off - off) (0 * 1024) s = Inr (Inr x, s1)"
    "step (area bb out n) s s1" "reached ?fb out off fin (0 + 7) x (mem s1)" by blast
  have st: "step ?W s s1" by (rule fs_step_mono [OF x(2)]) (auto simp: places_area_def)
  have "read_zones rd inode fin out n bb ib db tb off s = then_go (Inr (Inr x, s1)) K2" using x(1) by (simp add: unf)
  moreover have "reached ?fb out off fin 7 x (mem s1)" using x(3) by simp
  ultimately show ?thesis
    by (simp only:) (rule then_go_reached [where K = K2 and l' = 16843015 and l = 7 and fb = ?fb, OF refl st _ _ w(1) k2 [OF st]]; simp)
qed

subsection \<open>Files\<close>

lemma slice_kept:
  assumes "ro \<in> held L s" "ro \<noteq> own s" "covers ro out n" "k \<le> n"
    and same: "\<And>r x. r \<in> held L s \<Longrightarrow> r \<noteq> own s \<Longrightarrow> in_run r x \<Longrightarrow> m' x = m x"
  shows "rd_bytes m' out k = rd_bytes m out k"
proof (rule rd_bytes_cong)
  fix x assume "out \<le> x" "x < out + k"
  then have "in_run ro x" using assms(4) by (intro covers_in_run [OF assms(3)]) auto
  then show "m' x = m x" by (rule same [OF assms(1,2)])
qed

lemma read_buffers:
  assumes s: "ready s" "4 < low_free L s" and ro: "ro \<in> held L s" "ro \<noteq> own s" "covers ro out n"
    and w: "off < fin" "fin - off \<le> n" "fin \<le> 16843015 * 1024" and nh: "no_holes (disk s) (zones inode) fin"
  shows "\<exists>y s'. with_buffer L BLOCK_SIZE (\<lambda>block_buf.
      with_buffer L BLOCK_SIZE (\<lambda>ind.
      with_buffer L BLOCK_SIZE (\<lambda>dind.
      with_buffer L BLOCK_SIZE (\<lambda>tind s1.
        try_fs (read_zones rd inode fin out n block_buf ind dind tind off s1) (\<lambda>x s2. Inr (Inr (flow_written x), s2)))))) s = Inr (y, s') \<and>
     step {out..<out + n} s s' \<and>
     (y = Inr (fin - off) \<and> rd_bytes (mem s') out (fin - off) = map (file_byte (disk s) (zones inode)) [off..<fin])"
proof (rule with_buffer_step [where n = 4, OF s])
  let ?Q = "\<lambda>y m. y = Inr (fin - off) \<and> rd_bytes m out (fin - off) = map (file_byte (disk s) (zones inode)) [off..<fin]"
  show "?Q y m'" if "?Q y m" "\<And>r x. r \<in> held L s \<Longrightarrow> r \<noteq> own s \<Longrightarrow> in_run r x \<Longrightarrow> m' x = m x" for y :: "FsError + nat" and m m'
    using that(1) slice_kept [OF ro w(2) that(2)] by simp
  fix bb s1
  assume 1: "ready s1" "disk s1 = disk s" "own s1 = own s" "held L s1 = insert (bb, 1) (held L s)" "(bb, 1) \<notin> held L s"
    "4 \<le> low_free L s1"
  have own: "own s \<in> held L s" using s(1) by (rule own_held)
  show "\<exists>y s2. with_buffer L BLOCK_SIZE (\<lambda>ind.
      with_buffer L BLOCK_SIZE (\<lambda>dind.
      with_buffer L BLOCK_SIZE (\<lambda>tind s1.
        try_fs (read_zones rd inode fin out n bb ind dind tind off s1) (\<lambda>x s2. Inr (Inr (flow_written x), s2))))) s1 = Inr (y, s2) \<and>
     step ({out..<out + n} \<union> {bb..<bb + 4096}) s1 s2 \<and> ?Q y (mem s2)"
  proof (rule with_buffer_step [where n = 3, OF 1(1)])
    show "3 < low_free L s1" using 1(6) by simp
    show "?Q y m'" if "?Q y m" "\<And>r x. r \<in> held L s1 \<Longrightarrow> r \<noteq> own s1 \<Longrightarrow> in_run r x \<Longrightarrow> m' x = m x" for y :: "FsError + nat" and m m'
      using that(1) slice_kept [of ro s1 out n "fin - off" m' m, OF _ _ ro(3) w(2) that(2)] ro 1(3,4) by simp
    fix ib s2
    assume 2: "ready s2" "disk s2 = disk s1" "own s2 = own s1" "held L s2 = insert (ib, 1) (held L s1)" "(ib, 1) \<notin> held L s1"
      "3 \<le> low_free L s2"
    show "\<exists>y s3. with_buffer L BLOCK_SIZE (\<lambda>dind.
        with_buffer L BLOCK_SIZE (\<lambda>tind s1.
          try_fs (read_zones rd inode fin out n bb ib dind tind off s1) (\<lambda>x s2. Inr (Inr (flow_written x), s2)))) s2 = Inr (y, s3) \<and>
       step ({out..<out + n} \<union> {bb..<bb + 4096} \<union> {ib..<ib + 4096}) s2 s3 \<and> ?Q y (mem s3)"
    proof (rule with_buffer_step [where n = 2, OF 2(1)])
      show "2 < low_free L s2" using 2(6) by simp
      show "?Q y m'" if "?Q y m" "\<And>r x. r \<in> held L s2 \<Longrightarrow> r \<noteq> own s2 \<Longrightarrow> in_run r x \<Longrightarrow> m' x = m x" for y :: "FsError + nat" and m m'
        using that(1) slice_kept [of ro s2 out n "fin - off" m' m, OF _ _ ro(3) w(2) that(2)] ro 1(3,4) 2(3,4) by simp
      fix db s3
      assume 3: "ready s3" "disk s3 = disk s2" "own s3 = own s2" "held L s3 = insert (db, 1) (held L s2)" "(db, 1) \<notin> held L s2"
        "2 \<le> low_free L s3"
      show "\<exists>y s4. with_buffer L BLOCK_SIZE (\<lambda>tind s1.
            try_fs (read_zones rd inode fin out n bb ib db tind off s1) (\<lambda>x s2. Inr (Inr (flow_written x), s2))) s3 = Inr (y, s4) \<and>
         step ({out..<out + n} \<union> {bb..<bb + 4096} \<union> {ib..<ib + 4096} \<union> {db..<db + 4096}) s3 s4 \<and> ?Q y (mem s4)"
      proof (rule with_buffer_step [where n = 1, OF 3(1)])
        show "1 < low_free L s3" using 3(6) by simp
        show "?Q y m'" if "?Q y m" "\<And>r x. r \<in> held L s3 \<Longrightarrow> r \<noteq> own s3 \<Longrightarrow> in_run r x \<Longrightarrow> m' x = m x" for y :: "FsError + nat" and m m'
          using that(1) slice_kept [of ro s3 out n "fin - off" m' m, OF _ _ ro(3) w(2) that(2)] ro 1(3,4) 2(3,4) 3(3,4) by simp
        fix tb s4
        assume 4: "ready s4" "disk s4 = disk s3" "own s4 = own s3" "held L s4 = insert (tb, 1) (held L s3)" "(tb, 1) \<notin> held L s3"
          "1 \<le> low_free L s4"
        have pl: "places bb ro out n s4" using 1 2 3 4 ro own by (auto simp: places_def)
        have sc: "scratch bb ro ib db tb s4" using 1 2 3 4 ro own by (auto simp: scratch_def spare_def)
        have d: "disk s4 = disk s" using 1 2 3 4 by simp
        obtain x s5 where x: "read_zones rd inode fin out n bb ib db tb off s4 = Inr (Inr x, s5)"
          "step (places_area bb out n ib db tb) s4 s5" "reached (file_byte (disk s) (zones inode)) out off fin 16843015 x (mem s5)"
          using read_zones_run [OF pl sc w(1,2), of inode] nh unfolding d by blast
        have "flow_written x = fin - off" "filled (file_byte (disk s) (zones inode)) out off (mem s5) fin"
          using x(3) w(3) by (simp_all add: reached_def)
        moreover have "places_area bb out n ib db tb =
            {out..<out + n} \<union> {bb..<bb + 4096} \<union> {ib..<ib + 4096} \<union> {db..<db + 4096} \<union> {tb..<tb + 4096}"
          by (auto simp: places_area_def area_def)
        ultimately show "\<exists>y s5. try_fs (read_zones rd inode fin out n bb ib db tb off s4) (\<lambda>x s2. Inr (Inr (flow_written x), s2)) = Inr (y, s5) \<and>
            step ({out..<out + n} \<union> {bb..<bb + 4096} \<union> {ib..<ib + 4096} \<union> {db..<db + 4096} \<union> {tb..<tb + 4096}) s4 s5 \<and> ?Q y (mem s5)"
          using x(1,2) by (simp add: try_fs_def filled_def)
      qed
    qed
  qed
qed

lemma read_file_run:
  assumes s: "ready s" "4 < low_free L s" and ro: "ro \<in> held L s" "ro \<noteq> own s" "covers ro out n"
    and want: "offset < isize inode" "want = min (unat (of_nat n :: u32)) (unat (isize inode - offset))" "0 < want"
    and nh: "no_holes (disk s) (zones inode) (unat offset + want)"
  shows "\<exists>s'. read_file_with L rd inode offset out n s = Inr (Inr want, s') \<and> step {out..<out + n} s s' \<and>
     rd_bytes (mem s') out want = map (file_byte (disk s) (zones inode)) [unat offset..<unat offset + want]"
proof -
  have wm: "unat (min (of_nat n) (isize inode - offset)) = want" using want(2) by (simp add: min_def word_le_nat_alt)
  have "want \<le> unat (of_nat n :: u32)" using want(2) by simp
  also have "\<dots> \<le> n" by (simp add: unat_of_nat)
  finally have wn: "want \<le> n" .
  have "want < 2 ^ 32" using want(2) unsigned_less [of "isize inode - offset", where ?'a = nat] by simp
  moreover have "unat offset < 2 ^ 32" using unsigned_less [of offset, where ?'a = nat] by simp
  ultimately have big: "unat offset + want \<le> 16843015 * 1024" by simp
  obtain y s' where y: "with_buffer L BLOCK_SIZE (\<lambda>block_buf.
      with_buffer L BLOCK_SIZE (\<lambda>ind.
      with_buffer L BLOCK_SIZE (\<lambda>dind.
      with_buffer L BLOCK_SIZE (\<lambda>tind s1.
        try_fs (read_zones rd inode (unat offset + want) out n block_buf ind dind tind (unat offset) s1)
          (\<lambda>x s2. Inr (Inr (flow_written x), s2)))))) s = Inr (y, s')" "step {out..<out + n} s s'"
     "y = Inr (unat offset + want - unat offset)"
     "rd_bytes (mem s') out (unat offset + want - unat offset) =
        map (file_byte (disk s) (zones inode)) [unat offset..<unat offset + want]"
    using read_buffers [where off = "unat offset", OF s ro _ _ big nh] want(3) wn by auto
  then show ?thesis using want(1,3) by (auto simp: read_file_with_def Let_def wm)
qed

text \<open>
  A zero zone sets the running offset to the end of its block, also when that is before the window.
  With a hole in front of the window the copying then starts too early and overruns the window.
\<close>

lemma hole_overruns:
  assumes pl: "places bb ro out 1024 s"
    and zs: "zs ! 0 = (0 :: u32)" "zs ! 1 \<noteq> 0" "on_disk (disk s) (unat (zs ! 1))"
      "zs ! 2 \<noteq> 0" "on_disk (disk s) (unat (zs ! 2))"
  shows "copy_zones (copy_zone rd bb out 1024 3072) (\<lambda>i _. zs ! i) 3072 (0 # 1 # 2 # is) 2048 0 0 s = Inl OutOfObject"
proof -
  let ?c = "copy_zone rd bb out 1024 3072"
  have rb: "\<exists>s'. read_block rd bb (unat z * BLOCK_SIZE) s = Inr (Inr (), s') \<and> step {bb..<bb + 1024} s s'"
    if p: "places bb ro out 1024 s" and z: "on_disk (disk s) (unat z)" for z :: u32 and s
  proof -
    have "unat z * 1024 < 2 ^ 64" using unsigned_less [of z, where ?'a = nat] by simp
    moreover have "covers (bb, 1) bb 1024" by (simp add: covers_def)
    ultimately show ?thesis using read_block_step [of s "(bb, 1)" bb "unat z * 1024" True] p z
      by (auto simp: places_def on_disk_def BLOCK_SIZE_def)
  qed
  obtain s1 where s1: "read_block rd bb (unat (zs ! 1) * BLOCK_SIZE) s = Inr (Inr (), s1)" "step {bb..<bb + 1024} s s1"
    using rb [OF pl zs(3)] by blast
  define s2 where "s2 = s1\<lparr>mem := wr_bytes (mem s1) out (rd_bytes (mem s1) bb 1024)\<rparr>"
  have c1: "?c (zs ! 1) 1024 1024 0 s = Inr (Inr (True, 2048, 1024), s2)"
    using zs(2) s1(1) by (simp add: copy_zone_def BLOCK_SIZE_def usize_sub_def s2_def try_fs_def)
  have p1: "places bb ro out 1024 s1" by (rule places_step [OF pl s1(2)])
  have st2: "step {out..<out + 1024} s1 s2"
    using write_step [of s1 ro out "rd_bytes (mem s1) bb 1024"] p1 by (simp add: places_def s2_def)
  have "on_disk (disk s2) (unat (zs ! 2))" using zs(5) s1(2) st2 by (simp add: fs_step_def)
  then obtain s3 where "read_block rd bb (unat (zs ! 2) * BLOCK_SIZE) s2 = Inr (Inr (), s3)"
    using rb [OF places_step [OF p1 st2]] by blast
  then have c2: "?c (zs ! 2) 2048 2048 1024 s2 = Inl OutOfObject"
    using zs(4) by (simp add: copy_zone_def BLOCK_SIZE_def usize_sub_def try_fs_def)
  have c0: "?c 0 0 2048 0 s = Inr (Inr (True, 1024, 0), s)" by (simp add: copy_zone_def BLOCK_SIZE_def)
  show ?thesis by (simp add: zs(1) c0 c1 [unfolded One_nat_def] c2 BLOCK_SIZE_def try_fs_def)
qed

lemma read_buffers_fault:
  assumes s: "ready s" "4 < low_free L s" and ro: "ro \<in> held L s" "ro \<noteq> own s" "covers ro out n"
    and body: "\<And>bb ib db tb s'. places bb ro out n s' \<Longrightarrow> disk s' = disk s \<Longrightarrow>
        read_zones rd inode fin out n bb ib db tb off s' = Inl e"
  shows "with_buffer L BLOCK_SIZE (\<lambda>block_buf.
      with_buffer L BLOCK_SIZE (\<lambda>ind.
      with_buffer L BLOCK_SIZE (\<lambda>dind.
      with_buffer L BLOCK_SIZE (\<lambda>tind s1.
        try_fs (read_zones rd inode fin out n block_buf ind dind tind off s1) (\<lambda>x s2. Inr (Inr (flow_written x), s2)))))) s = Inl e"
proof (rule with_buffer_fault [where n = 4, OF s])
  fix bb s1
  assume 1: "ready s1" "disk s1 = disk s" "own s1 = own s" "held L s1 = insert (bb, 1) (held L s)" "(bb, 1) \<notin> held L s"
    "4 \<le> low_free L s1"
  have pl: "places bb ro out n s1" using 1 ro own_held [OF s(1)] by (auto simp: places_def)
  show "with_buffer L BLOCK_SIZE (\<lambda>ind.
      with_buffer L BLOCK_SIZE (\<lambda>dind.
      with_buffer L BLOCK_SIZE (\<lambda>tind s1.
        try_fs (read_zones rd inode fin out n bb ind dind tind off s1) (\<lambda>x s2. Inr (Inr (flow_written x), s2))))) s1 = Inl e"
  proof (rule with_buffer_fault [where n = 3, OF 1(1)], use 1(6) in simp, rule with_buffer_fault [where n = 2],
      assumption, simp, rule with_buffer_fault [where n = 1], assumption, simp)
    fix ib s2 db s3 tb s4
    assume "ready s4" "disk s2 = disk s1" "disk s3 = disk s2" "disk s4 = disk s3" "1 \<le> low_free L s4"
      "own s2 = own s1" "own s3 = own s2" "own s4 = own s3" "held L s2 = insert (ib, 1) (held L s1)"
      "held L s3 = insert (db, 1) (held L s2)" "held L s4 = insert (tb, 1) (held L s3)"
    then have "read_zones rd inode fin out n bb ib db tb off s4 = Inl e"
      using pl 1(2) by (intro body) (auto simp: places_def)
    then show "try_fs (read_zones rd inode fin out n bb ib db tb off s4) (\<lambda>x s2. Inr (Inr (flow_written x), s2)) = Inl e"
      by (simp add: try_fs_def)
  qed
qed

lemma read_file_hole:
  assumes s: "ready s" "4 < low_free L s" and ro: "ro \<in> held L s" "ro \<noteq> own s" "covers ro out 1024"
    and size: "3072 \<le> isize inode"
    and zs: "zones inode ! 0 = 0" "zones inode ! 1 \<noteq> 0" "on_disk (disk s) (unat (zones inode ! 1))"
      "zones inode ! 2 \<noteq> 0" "on_disk (disk s) (unat (zones inode ! 2))"
  shows "read_file_with L rd inode 2048 out 1024 s = Inl OutOfObject"
proof -
  have sz: "\<not> isize inode \<le> 2048" "min 1024 (isize inode - 2048) = 1024"
    using size by (auto simp: min_def word_le_nat_alt unat_sub)
  have z: "[0..<NUM_DIRECT_ZONES] = 0 # 1 # 2 # [3..<7]" by (simp add: NUM_DIRECT_ZONES_def upt_rec)
  have "read_zones rd inode 3072 out 1024 bb ib db tb 2048 s' = Inl OutOfObject"
    if "places bb ro out 1024 s'" "disk s' = disk s" for bb ib db tb s'
    using hole_overruns [OF that(1), of "zones inode" "[3..<7]"] zs that(2)
    unfolding read_zones_def Let_def z then_go_def by (simp add: try_fs_def del: copy_zones.simps)
  from read_buffers_fault [OF s ro this] show ?thesis
    by (simp add: read_file_with_def Let_def sz)
qed

subsection \<open>Superblock and inodes\<close>

lemma mount_run:
  assumes s: "ready s" "1 < low_free L s" and b: "b = read_SuperBlock (\<lambda>i. disk s ! i) 1024"
    and y: "y = (if length (disk s) < 2048 then Inl BlockReadFailed
                 else if magic b \<noteq> MINIX_MAGIC then Inl BadMagic else Inr \<lparr>fs_dev = dv, sb = b\<rparr>)"
  shows "\<exists>s'. mount_with L rd dv s = Inr (y, s') \<and> step {} s s'"
proof -
  have "\<exists>z s'. mount_with L rd dv s = Inr (z, s') \<and> step {} s s' \<and> z = y"
    unfolding mount_with_def
  proof (rule with_buffer_step [where n = 1, OF s])
    fix p s1
    assume 1: "ready s1" "disk s1 = disk s" "own s1 = own s" "held L s1 = insert (p, 1) (held L s)" "(p, 1) \<notin> held L s"
      "1 \<le> low_free L s1"
    have r: "(p, 1) \<in> held L s1" "(p, 1) \<noteq> own s1" using 1 own_held [OF s(1)] by auto
    let ?f = "1024 + 1024 \<le> length (disk s1)"
    obtain s2 where s2: "read_block rd p 1024 s1 = Inr (if ?f then Inr () else Inl BlockReadFailed, s2)"
      "step {p..<p + 1024} s1 s2" "?f \<longrightarrow> rd_bytes (mem s2) p 1024 = take 1024 (drop 1024 (disk s1))"
      using read_block_step [OF 1(1) _ r, of p 1024 ?f] 1(6) by (auto simp: covers_def)
    have "step ({} \<union> {p..<p + 4096}) s1 s2" by (rule fs_step_mono [OF s2(2)]) auto
    moreover have "read_SuperBlock (mem s2) p = b" if ?f
      using that s2(3) 1(2) by (simp add: b superblock_image [of "mem s2" p _ 1024] disk_image)
    ultimately show "\<exists>z s2. try_fs (read_block rd p BLOCK_SIZE s1) (\<lambda>_ s1. let b = read_SuperBlock (mem s1) p in
        if magic b \<noteq> MINIX_MAGIC then Inr (Inl BadMagic, s1) else Inr (Inr \<lparr>fs_dev = dv, sb = b\<rparr>, s1)) = Inr (z, s2) \<and>
        step ({} \<union> {p..<p + 4096}) s1 s2 \<and> z = y"
      using s2(1) 1(2) by (auto simp: try_fs_def BLOCK_SIZE_def y Let_def)
  qed
  then show ?thesis by blast
qed

lemma read_inode_run:
  assumes s: "ready s" "1 < low_free L s"
    and a: "a = inode_table_offset f + (unat num - 1) * sizeof_Inode"
    and y: "y = (if num = 0 \<or> num > ninodes (sb f) then Inl InodeOutOfRange
                 else if length (disk s) < a div 1024 * 1024 + 1024 then Inl BlockReadFailed
                 else Inr (read_Inode (\<lambda>i. disk s ! i) a))"
  shows "\<exists>s'. read_inode_with L rd f num s = Inr (y, s') \<and> step {} s s'"
proof (cases "num = 0 \<or> num > ninodes (sb f)")
  case True
  then show ?thesis using s(1) by (auto simp: read_inode_with_def y intro: fs_step_refl)
next
  case False
  note bo = inode_block [OF a]
  let ?o = "a div 1024 * 1024"
  let ?k = "\<lambda>buf s1. try_fs (read_block rd buf ?o s1) (\<lambda>_ s2. Inr (Inr (read_Inode (mem s2) (buf + (a - ?o))), s2))"
  have "\<exists>z s'. with_buffer L BLOCK_SIZE ?k s = Inr (z, s') \<and> step {} s s' \<and> z = y"
  proof (rule with_buffer_step [where n = 1, OF s])
    fix p s1
    assume 1: "ready s1" "disk s1 = disk s" "own s1 = own s" "held L s1 = insert (p, 1) (held L s)" "(p, 1) \<notin> held L s"
      "1 \<le> low_free L s1"
    have r: "(p, 1) \<in> held L s1" "(p, 1) \<noteq> own s1" using 1 own_held [OF s(1)] by auto
    let ?f = "?o + 1024 \<le> length (disk s1)"
    obtain s2 where s2: "read_block rd p ?o s1 = Inr (if ?f then Inr () else Inl BlockReadFailed, s2)"
      "step {p..<p + 1024} s1 s2" "?f \<longrightarrow> rd_bytes (mem s2) p 1024 = take 1024 (drop ?o (disk s1))"
      using read_block_step [OF 1(1) _ r, of p ?o ?f] 1(6) bo(3,4) by (auto simp: covers_def)
    have "step ({} \<union> {p..<p + 4096}) s1 s2" by (rule fs_step_mono [OF s2(2)]) auto
    moreover have "read_Inode (mem s2) (p + (a - ?o)) = read_Inode (\<lambda>i. disk s ! i) a" if ?f
      using inode_image [of "mem s2" p "\<lambda>i. disk s ! i" ?o "a - ?o"] that s2(3) 1(2) bo(2) by (simp add: disk_image)
    ultimately show "\<exists>z s2. ?k p s1 = Inr (z, s2) \<and> step ({} \<union> {p..<p + 4096}) s1 s2 \<and> z = y"
      using s2(1) 1(2) False by (auto simp: try_fs_def y)
  qed
  moreover have "read_inode_with L rd f num s = with_buffer L BLOCK_SIZE ?k s"
    unfolding read_inode_with_def Let_def a [symmetric] bo(1) by (simp only: False if_False)
  ultimately show ?thesis by simp
qed

end

section \<open>The virtio driver is a block source\<close>

definition blk_ready ::
  "linker \<Rightarrow> 'd bus \<Rightarrow> nat \<Rightarrow> nat \<Rightarrow> ('d \<Rightarrow> dview option) \<Rightarrow> ('d \<Rightarrow> nat) \<Rightarrow> nat \<Rightarrow> ('d, 'z) vio_state_scheme \<Rightarrow> bool"
where
  "blk_ready L B fuel i view rank N s \<longleftrightarrow>
     drv_ok L i view s \<and> blk_device B (dev (BLOCK_DEVICES s ! i)) view rank N \<and> N \<le> fuel"

lemma vio_more_eq:
  "kmem.more s' = kmem.more s \<Longrightarrow> BLOCK_DEVICES s' = BLOCK_DEVICES s \<and> hw s' = hw s"
  by (cases s; cases s') simp

lemma drv_ok_frame:
  assumes ok: "drv_ok L i view s" and inv: "frames_inv L s'" and held: "(queue_at s i, 2) \<in> held L s'"
    and same: "\<And>x. in_run (queue_at s i, 2) x \<Longrightarrow> mem s' x = mem s x" and more: "kmem.more s' = kmem.more s"
  shows "drv_ok L i view s'" "disk_of view s' = disk_of view s" "queue_at s' i = queue_at s i"
proof -
  note vm = vio_more_eq [OF more]
  show q: "queue_at s' i = queue_at s i" and "disk_of view s' = disk_of view s"
    using vm by (simp_all add: queue_at_def disk_of_def)
  have ag: "agree (mem s') (mem s) (queue_at s i) 8192" using same by (intro agreeI) (simp add: in_run_def)
  show "drv_ok L i view s'"
    using ok inv held vm agree_ld(1) [OF ag, of "queue_at s i + 4096 + 2"] agree_ld(1) [OF ag, of "queue_at s i + 128 + 2"]
    by (simp add: drv_ok_def q idle_dev_def synced_def used_idx_addr_def avail_idx_addr_def)
qed

lemma io_frame_step:
  assumes fr: "io_frame L i buf n s s'" and ok: "blk_ready L B fuel i view rank N s" "drv_ok L i view s'"
    and d: "disk_of view s' = disk_of view s"
  shows "fs_step L (blk_ready L B fuel i view rank N) (disk_of view) (\<lambda>s. (queue_at s i, 2)) {buf..<buf + n} s s'"
proof -
  note fr' = fr [unfolded io_frame_def]
  have "mem s' x = mem s x" if "r \<in> held L s" "r \<noteq> (queue_at s i, 2)" "in_run r x" "x \<notin> {buf..<buf + n}" for r x
    using fr' that by (cases r) (auto simp: in_run_def)
  moreover have "blk_ready L B fuel i view rank N s'" using ok fr' by (simp add: blk_ready_def)
  ultimately show ?thesis using fr' d by (simp add: fs_step_def)
qed

interpretation blk: block_source L "block_read L B fuel i" "blk_ready L B fuel i view rank N" "disk_of view"
    "\<lambda>s. (queue_at s i, 2)" for L B fuel i view rank N
proof
  show "frames_inv L s" "(queue_at s i, 2) \<in> held L s" if "blk_ready L B fuel i view rank N s" for s
    using that by (simp_all add: blk_ready_def drv_ok_def)
  show "blk_ready L B fuel i view rank N s' \<and> disk_of view s' = disk_of view s \<and> (queue_at s' i, 2) = (queue_at s i, 2)"
    if "blk_ready L B fuel i view rank N s" "frames_inv L s'" "(queue_at s i, 2) \<in> held L s'"
      "\<And>x. in_run (queue_at s i, 2) x \<Longrightarrow> mem s' x = mem s x" "kmem.more s' = kmem.more s" for s s'
    using drv_ok_frame [of L i view s s', OF _ that(2-5)] that(1) vio_more_eq [OF that(5)] by (simp add: blk_ready_def)
  fix s r buf and sz :: u32 and fits and off :: u64
  assume ok: "blk_ready L B fuel i view rank N s" and ws: "whole_sectors (unat sz)" and r: "r \<in> held L s" "r \<noteq> (queue_at s i, 2)" "covers r buf (unat sz)"
    and low: "0 < low_free L s" and fits: "fits = (unat off div 512 * 512 + unat sz \<le> length (disk_of view s))"
  have dv: "blk_device B (dev (BLOCK_DEVICES s ! i)) view rank N" "N \<le> fuel" "drv_ok L i view s"
    using ok by (simp_all add: blk_ready_def)
  have buf: "buffer_in L (queue_at s i) s buf (unat sz)"
    using r by (cases r) (auto simp: buffer_in_def covers_def)
  obtain s' where "block_op L B fuel i buf sz off False s = Inr (fits, s')" "drv_ok L i view s'"
    "io_frame L i buf (unat sz) s s'" "disk_of view s' = disk_of view s"
    "rd_bytes (mem s') buf (unat sz) = (if fits
       then take (unat sz) (drop (unat off div 512 * 512) (disk_of view s)) else rd_bytes (mem s) buf (unat sz))"
    using block_op_spec [OF dv(1,2) ws dv(3) buf low, of False fits off] fits by auto
  with io_frame_step [OF _ ok] show "\<exists>s'. block_read L B fuel i buf sz off s = Inr (fits, s') \<and>
      fs_step L (blk_ready L B fuel i view rank N) (disk_of view) (\<lambda>s. (queue_at s i, 2)) {buf..<buf + unat sz} s s' \<and>
      (fits \<longrightarrow> rd_bytes (mem s') buf (unat sz) = take (unat sz) (drop (unat off div 512 * 512) (disk_of view s)))"
    by (auto simp: block_read_def)
qed

end
