(* ===== verification/MinixProps.thy ===== *)
theory MinixProps
  imports MinixRead
begin

text \<open>
  The properties of the Minix 3 reader on the virtio driver: what \<open>mount\<close>, \<open>read_inode\<close> and
  \<open>read_file\<close> return in terms of the bytes of the disk, what a hole in a file does, and the
  names of directory entries. The laws come from the interpretation \<open>blk\<close> of \<open>block_source\<close>.
\<close>

section \<open>A disk for the examples\<close>

definition demo_disk :: "u8 list" where
  "demo_disk = replicate 1048 0 @ [0x5a, 0x4d] @ replicate 998 0 @ replicate 1024 7 @ replicate 2048 9"

definition demo_inode :: Inode where
  "demo_inode = \<lparr>mode = 0x8000, nlinks = 1, uid = 0, gid = 0, isize = 3072, atime = 0, mtime = 0, ctime = 0,
     zones = [2, 3, 4, 0, 0, 0, 0, 0, 0, 0]\<rparr>"

abbreviation demo_machine :: "dview option vio_state" where
  "demo_machine \<equiv> blk_machine buffer_page demo_disk"

abbreviation demo_ready :: "dview option vio_state \<Rightarrow> bool" where
  "demo_ready \<equiv> blk_ready blk_layout instant_bus 1 0 (\<lambda>d. d) (\<lambda>_. 0) 1"

lemma demo_machine_ready: "demo_ready demo_machine"
  using buffer_page_machine(1) [of demo_disk] instant_bus_device by (simp add: blk_ready_def)

lemma demo_machine_disk: "disk_of (\<lambda>d. d) (blk_machine ds d) = d"
  by (simp add: disk_of_def blk_machine_def)

lemma demo_machine_queue: "queue_at (blk_machine ds d) 0 = 0x2000"
  by (simp add: queue_at_def blk_machine_def blk_queue_def)

lemma demo_machine_pages: "4 < low_free blk_layout (blk_machine buffer_page d)"
proof -
  let ?s = "blk_machine buffer_page d"
  let ?P = "{j. j < npages blk_layout \<and> \<not> is_taken (descriptors blk_layout ?s ! j) \<and>
    ALLOC_START ?s + j * PAGE_SIZE < heap_end blk_layout}"
  have ds: "descriptors blk_layout ?s = 1 # 3 # buffer_page"
    by (rule blk_machine_descriptors) (simp add: buffer_page_def)
  have "{3, 4, 5, 6, 7} \<subseteq> ?P"
    unfolding ds by (simp add: buffer_page_def is_taken_def) (simp add: blk_machine_def)
  then have "card {3, 4, 5, 6, 7 :: nat} \<le> card ?P" by (intro card_mono) simp_all
  then show ?thesis by (simp add: low_free_def)
qed

lemma demo_machine_buffer: "(0x4000, 1) \<in> held blk_layout (blk_machine buffer_page d)"
proof -
  have "run_at (1 # 3 # buffer_page) 2 1" by (simp add: run_at_def buffer_page_def)
  then show ?thesis
    using heldI [of blk_layout "blk_machine buffer_page d" 2 1] blk_machine_descriptors [of buffer_page d]
    by (simp add: buffer_page_def) (simp add: blk_machine_def)
qed

section \<open>Properties\<close>

text \<open>
  C34: \<open>mount\<close> decides by the disk alone. It fails with \<open>BlockReadFailed\<close> when the disk ends before
  the superblock does, with \<open>BadMagic\<close> when the magic is not the one of Minix 3, and otherwise
  returns the superblock of bytes 1024 on; its scratch page is given back on every path.
\<close>

lemma mount_decides:
  assumes ready: "blk_ready L B fuel i view rank N s" and low: "1 < low_free L s"
    and b: "b = read_SuperBlock (\<lambda>k. disk_of view s ! k) BLOCK_SIZE"
    and y: "y = (if length (disk_of view s) < 2 * BLOCK_SIZE then Inl BlockReadFailed
                 else if magic b \<noteq> MINIX_MAGIC then Inl BadMagic else Inr \<lparr>fs_dev = i, sb = b\<rparr>)"
  shows "\<exists>s'. mount L B fuel i s = Inr (y, s') \<and>
     fs_step L (blk_ready L B fuel i view rank N) (disk_of view) (\<lambda>s. (queue_at s i, 2)) {} s s'"
  using blk.mount_run [OF ready low, of b y i] b y by (simp add: mount_def BLOCK_SIZE_def)

theorem mount_decides_witness:
  "\<exists>s'. mount blk_layout instant_bus 1 0 demo_machine =
     Inr (Inr \<lparr>fs_dev = 0, sb = read_SuperBlock (\<lambda>k. demo_disk ! k) BLOCK_SIZE\<rparr>, s')"
proof -
  let ?b = "read_SuperBlock (\<lambda>k. demo_disk ! k) BLOCK_SIZE"
  have len: "\<not> length demo_disk < 2 * BLOCK_SIZE" by (simp add: demo_disk_def BLOCK_SIZE_def)
  have "rd_bytes (\<lambda>k. demo_disk ! k) 1048 2 = take 2 (drop 1048 demo_disk)"
    by (rule disk_image) (simp add: demo_disk_def)
  also have "\<dots> = [0x5a, 0x4d]" by (simp add: demo_disk_def)
  finally have "magic ?b = MINIX_MAGIC"
    by (simp add: read_SuperBlock_def BLOCK_SIZE_def ld16_def MINIX_MAGIC_def)
  with len mount_decides [OF demo_machine_ready _ refl refl] demo_machine_pages [of demo_disk] show ?thesis
    unfolding demo_machine_disk by auto
qed

text \<open>
  C35: \<open>read_inode\<close> returns the 64 bytes of the inode table that belong to the inode. Numbers outside
  \<open>1 .. ninodes\<close> are rejected without touching the disk, and the structure never straddles the
  block that is read.
\<close>

lemma read_inode_decodes:
  assumes ready: "blk_ready L B fuel i view rank N s" and low: "1 < low_free L s" and i: "fs_dev f = i"
    and a: "a = inode_table_offset f + (unat num - 1) * sizeof_Inode"
    and y: "y = (if num = 0 \<or> num > ninodes (sb f) then Inl InodeOutOfRange
                 else if length (disk_of view s) < a div BLOCK_SIZE * BLOCK_SIZE + BLOCK_SIZE then Inl BlockReadFailed
                 else Inr (read_Inode (\<lambda>k. disk_of view s ! k) a))"
  shows "\<exists>s'. read_inode L B fuel f num s = Inr (y, s') \<and>
     fs_step L (blk_ready L B fuel i view rank N) (disk_of view) (\<lambda>s. (queue_at s i, 2)) {} s s'"
  using blk.read_inode_run [OF ready low a y [unfolded BLOCK_SIZE_def]] by (simp only: read_inode_def i)

theorem read_inode_decodes_witness:
  "\<exists>s'. read_inode blk_layout instant_bus 1
       \<lparr>fs_dev = 0, sb = (read_SuperBlock (\<lambda>_. 0) 0)\<lparr>ninodes := 20\<rparr>\<rparr> 1 demo_machine =
     Inr (Inr (read_Inode (\<lambda>k. demo_disk ! k) 2048), s')"
proof -
  let ?f = "\<lparr>fs_dev = 0, sb = (read_SuperBlock (\<lambda>_. 0) 0)\<lparr>ninodes := 20\<rparr>\<rparr>"
  have z: "ld16 (\<lambda>_. 0) a = 0" for a by (simp add: ld16_def rd_bytes_def map_replicate_const)
  have "inode_table_offset ?f + (unat (1 :: u32) - 1) * sizeof_Inode = 2048"
    by (simp add: inode_table_offset_def BLOCK_SIZE_def read_SuperBlock_def z)
  moreover have "4096 \<le> length demo_disk" by (simp add: demo_disk_def)
  ultimately show ?thesis
    using read_inode_decodes [OF demo_machine_ready _ _ refl refl, of ?f 1] demo_machine_pages [of demo_disk]
    unfolding demo_machine_disk by (auto simp add: BLOCK_SIZE_def)
qed

text \<open>
  C33: \<open>read_file\<close> on a file without holes returns exactly the window it was asked for: \<open>want\<close>
  bytes, the smaller of the room in the slice and the rest of the file, from direct, indirect,
  double and triple indirect zones alike, and it writes nowhere but into the slice.
\<close>

lemma read_file_exact:
  assumes ready: "blk_ready L B fuel i view rank N s" and low: "4 < low_free L s" and i: "fs_dev f = i"
    and ro: "ro \<in> held L s" "ro \<noteq> (queue_at s i, 2)" "covers ro out n"
    and want: "offset < isize inode" "want = min (unat (of_nat n :: u32)) (unat (isize inode - offset))" "0 < want"
    and nh: "no_holes (disk_of view s) (zones inode) (unat offset + want)"
  shows "\<exists>s'. read_file L B fuel f inode offset out n s = Inr (Inr want, s') \<and>
     fs_step L (blk_ready L B fuel i view rank N) (disk_of view) (\<lambda>s. (queue_at s i, 2)) {out..<out + n} s s' \<and>
     rd_bytes (mem s') out want =
       map (file_byte (disk_of view s) (zones inode)) [unat offset..<unat offset + want]"
  using blk.read_file_run [OF ready low ro want nh] by (simp only: read_file_def i)

theorem read_file_exact_witness:
  "\<exists>s'. read_file blk_layout instant_bus 1 \<lparr>fs_dev = 0, sb = read_SuperBlock (\<lambda>_. 0) 0\<rparr> demo_inode 1022 0x4000 4
       demo_machine = Inr (Inr 4, s') \<and> rd_bytes (mem s') 0x4000 4 = [7, 7, 9, 9]"
proof -
  have len: "length demo_disk = 5120" by (simp add: demo_disk_def)
  have "path demo_disk (zones demo_inode) b = [if b = 0 then 2 else 3]" if "b * 1024 < 1026" for b
    using that by (cases b) (auto simp: path_def demo_inode_def)
  then have nh: "no_holes demo_disk (zones demo_inode) (unat (1022 :: u32) + 4)"
    by (auto simp: no_holes_def on_disk_def len)
  have "file_byte demo_disk (zones demo_inode) x = demo_disk ! (x + 2048)" if "x \<in> {1022, 1023, 1024, 1025}" for x
    using that by (auto simp: file_byte_def file_zone_def path_def demo_inode_def)
  then have "map (file_byte demo_disk (zones demo_inode)) [unat (1022 :: u32)..<unat (1022 :: u32) + 4] = [7, 7, 9, 9]"
    by (simp add: upt_rec demo_disk_def nth_append)
  with read_file_exact [OF demo_machine_ready demo_machine_pages _ demo_machine_buffer, where out = "0x4000" and n = 4 and
      offset = 1022 and inode = demo_inode and want = 4 and f = "\<lparr>fs_dev = 0, sb = read_SuperBlock (\<lambda>_. 0) 0\<rparr>"]
    nh show ?thesis
    unfolding demo_machine_disk by (auto simp: covers_def demo_machine_queue demo_inode_def)
qed

text \<open>
  C36: A hole before the window makes \<open>read_file\<close> overrun the slice. In a file whose first block is
  a hole, reading the third block into a slice of one block starts copying at the second block,
  and the copy of the third block is past the end of the slice.
\<close>

lemma read_file_hole_overruns:
  assumes ready: "blk_ready L B fuel i view rank N s" and low: "4 < low_free L s" and i: "fs_dev f = i"
    and ro: "ro \<in> held L s" "ro \<noteq> (queue_at s i, 2)" "covers ro out 1024"
    and size: "3072 \<le> isize inode" and hole: "zones inode ! 0 = 0"
    and zs: "\<forall>k\<in>{1, 2}. zones inode ! k \<noteq> 0 \<and> on_disk (disk_of view s) (unat (zones inode ! k))"
  shows "read_file L B fuel f inode 2048 out 1024 s = Inl OutOfObject"
  using blk.read_file_hole [OF ready low ro size hole] zs by (simp add: read_file_def i)

theorem read_file_hole_overruns_witness:
  "read_file blk_layout instant_bus 1 \<lparr>fs_dev = 0, sb = read_SuperBlock (\<lambda>_. 0) 0\<rparr>
     (demo_inode\<lparr>zones := [0, 3, 4, 0, 0, 0, 0, 0, 0, 0]\<rparr>) 2048 0x4000 1024 demo_machine = Inl OutOfObject"
  by (rule read_file_hole_overruns [OF demo_machine_ready demo_machine_pages _ demo_machine_buffer])
    (unfold demo_machine_disk, simp_all add: covers_def demo_machine_queue demo_inode_def on_disk_def demo_disk_def)

text \<open>
  C37: An entry stored as an inode number and a NUL-padded name reads back as that number and name.
\<close>

lemma name_str_roundtrip:
  assumes name: "0 \<notin> set name" "length name \<le> MAX_NAME_LEN" "utf8 name"
    and m: "m = wr_bytes (st32 m0 a num) (a + 4) (name @ replicate (MAX_NAME_LEN - length name) 0)"
  shows "de_inode (read_DirEntry m a) = num \<and> name_str (read_DirEntry m a) = name"
proof -
  let ?n = "name @ replicate (MAX_NAME_LEN - length name) (0 :: u8)"
  have "de_name (read_DirEntry m a) = ?n"
    using name(2) by (simp add: read_DirEntry_def m rd_wr_same)
  moreover have "position (\<lambda>b. b = 0) ?n = (if length name < MAX_NAME_LEN then Some (length name) else None)"
    using name(1,2) by (auto simp: position_Some position_None nth_append in_set_conv_nth)
  ultimately show ?thesis using name(2,3) by (auto simp: name_str_def read_DirEntry_def m mem_simps)
qed

theorem name_str_roundtrip_witness:
  "name_str (read_DirEntry (wr_bytes (st32 (\<lambda>_. 0) 0 5) (0 + 4) ([0x65, 0x74, 0x63] @ replicate (MAX_NAME_LEN - length [0x65 :: u8, 0x74, 0x63]) 0)) 0)
    = [0x65, 0x74, 0x63]"
  using name_str_roundtrip [of "[0x65, 0x74, 0x63]", OF _ _ _ refl, of "\<lambda>_. 0" 0 5]
  by (simp add: MAX_NAME_LEN_def)

end
