(* ===== verification/SyscallProps.thy ===== *)
theory SyscallProps
  imports Context MinixProps
begin

text \<open>
  The read system call as a whole: from the registers of the caller through mount, inode and file
  read on the block driver to the bytes in the caller's buffer and the count in its register.
\<close>

section \<open>The read\<close>

text \<open>What the disk says about a request: the inode it names and how many bytes it gets.\<close>

definition wanted_inode :: "u8 list \<Rightarrow> u32 \<Rightarrow> Inode option" where
  "wanted_inode d ino =
     (let b = read_SuperBlock (\<lambda>k. d ! k) 1024;
          a = inode_table_offset \<lparr>fs_dev = 0, sb = b\<rparr> + (unat ino - 1) * sizeof_Inode
      in if length d < 2048 \<or> magic b \<noteq> MINIX_MAGIC \<or> ino = 0 \<or> ino > ninodes b \<or> length d < a div 1024 * 1024 + 1024
         then None else Some (read_Inode (\<lambda>k. d ! k) a))"

definition wanted_count :: "Inode option \<Rightarrow> u32 \<Rightarrow> u32 \<Rightarrow> nat" where
  "wanted_count node sz off =
     (case node of
        None \<Rightarrow> 0
      | Some n \<Rightarrow> if off < isize n then min (unat sz) (unat (isize n - off)) else 0)"

lemma read_file_count:
  assumes ready: "blk_ready L B fuel dv view rank N s" "4 < low_free L s" and dv: "fs_dev f = dv"
    and ro: "ro \<in> held L s" "ro \<noteq> (queue_at s dv, 2)" "covers ro buf (unat sz)"
    and want: "want = wanted_count (Some node) sz off"
    and nh: "no_holes (disk_of view s) (zones node) (unat off + want)"
  shows "\<exists>s'. read_file L B fuel f node off buf (unat sz) s = Inr (Inr want, s') \<and>
     fs_step L (blk_ready L B fuel dv view rank N) (disk_of view) (\<lambda>s. (queue_at s dv, 2)) {buf..<buf + unat sz} s s' \<and>
     rd_bytes (mem s') buf want = map (file_byte (disk_of view s) (zones node)) [unat off..<unat off + want]"
proof (cases "want = 0")
  case True
  then have "off \<ge> isize node \<or> unat (min (of_nat (unat sz)) (isize node - off)) = 0"
    using want by (auto simp: wanted_count_def min_def not_less word_le_nat_alt split: if_splits)
  then have "read_file L B fuel f node off buf (unat sz) s = Inr (Inr 0, s)"
    by (auto simp: read_file_def read_file_with_def Let_def)
  with True ready show ?thesis by (auto simp: rd_bytes_def intro: fs_step_refl)
next
  case False
  then have "off < isize node" "want = min (unat (of_nat (unat sz) :: u32)) (unat (isize node - off))"
    using want by (simp_all add: wanted_count_def split: if_splits)
  then show ?thesis
    using blk.read_file_run [OF ready ro, of off node want] False nh by (simp add: read_file_def dv)
qed

lemma sys_read_run:
  assumes ready: "blk_ready L B fuel dv view rank N s" "4 < low_free L s"
    and ro: "ro \<in> held L s" "ro \<noteq> (queue_at s dv, 2)" "covers ro buf (unat sz)" "buf \<noteq> 0"
    and node: "node = wanted_inode (disk_of view s) ino" and want: "want = wanted_count node sz off"
    and nh: "\<And>n. node = Some n \<Longrightarrow> no_holes (disk_of view s) (zones n) (unat off + want)"
  shows "\<exists>s'. sys_read L B fuel dv ino buf sz off s = Inr (want, s') \<and>
     (\<forall>n. node = Some n \<longrightarrow> rd_bytes (mem s') buf want = map (file_byte (disk_of view s) (zones n)) [unat off..<unat off + want])"
proof -
  let ?rdy = "blk_ready L B fuel dv view rank N" and ?d = "disk_of view s"
  let ?step = "fs_step L ?rdy (disk_of view) (\<lambda>s. (queue_at s dv, 2))"
  define b where "b = read_SuperBlock (\<lambda>k. ?d ! k) 1024"
  define a where "a = inode_table_offset \<lparr>fs_dev = dv, sb = b\<rparr> + (unat ino - 1) * sizeof_Inode"
  have a': "inode_table_offset \<lparr>fs_dev = 0, sb = b\<rparr> + (unat ino - 1) * sizeof_Inode = a"
    by (simp add: a_def inode_table_offset_def)
  have node': "node = (if length ?d < 2048 \<or> magic b \<noteq> MINIX_MAGIC \<or> ino = 0 \<or> ino > ninodes b \<or> length ?d < a div 1024 * 1024 + 1024
      then None else Some (read_Inode (\<lambda>k. ?d ! k) a))"
    unfolding node wanted_inode_def Let_def b_def [symmetric] a' by (rule refl)
  have low: "1 < low_free L s" using ready(2) by simp
  obtain s1 where m: "mount L B fuel dv s = Inr (if length ?d < 2048 then Inl BlockReadFailed
      else if magic b \<noteq> MINIX_MAGIC then Inl BadMagic else Inr \<lparr>fs_dev = dv, sb = b\<rparr>, s1)" and st1: "?step {} s s1"
    using blk.mount_run [OF ready(1) low b_def refl, of dv] by (auto simp: mount_def)
  have s1: "?rdy s1" "disk_of view s1 = ?d" "low_free L s1 = low_free L s"
    using st1 fs_step_low_free [OF st1] by (simp_all add: fs_step_def)
  have low1: "1 < low_free L s1" using low s1(3) by simp
  obtain s2 where i: "read_inode L B fuel \<lparr>fs_dev = dv, sb = b\<rparr> ino s1 = Inr (if ino = 0 \<or> ino > ninodes b then Inl InodeOutOfRange
      else if length ?d < a div 1024 * 1024 + 1024 then Inl BlockReadFailed else Inr (read_Inode (\<lambda>k. ?d ! k) a), s2)"
    and st2: "?step {} s1 s2"
    using blk.read_inode_run [OF s1(1) low1 a_def refl] by (auto simp: read_inode_def s1(2))
  have st: "?step {} s s2" by (rule fs_step_trans [OF st1 st2])
  have s2: "?rdy s2" "4 < low_free L s2" "disk_of view s2 = ?d" "held L s2 = held L s" "queue_at s2 dv = queue_at s dv"
    using st fs_step_low_free [OF st] fs_step_held [OF st] ready(2) by (simp_all add: fs_step_def)
  show ?thesis
  proof (cases node)
    case None
    then have "want = 0" by (simp add: want wanted_count_def)
    with None node' m i show ?thesis by (auto simp: sys_read_def split: if_splits)
  next
    case (Some n)
    have f: "fs_dev \<lparr>fs_dev = dv, sb = b\<rparr> = dv" by simp
    obtain s3 where "read_file L B fuel \<lparr>fs_dev = dv, sb = b\<rparr> n off buf (unat sz) s2 = Inr (Inr want, s3)"
      "rd_bytes (mem s3) buf want = map (file_byte ?d (zones n)) [unat off..<unat off + want]"
      using read_file_count [OF s2(1,2) f, of ro buf sz want n off] ro s2(3-5) want nh Some by auto
    with Some node' m i ro(4) show ?thesis by (auto simp: sys_read_def assert_res_def split: if_splits)
  qed
qed

lemma frame_of_set_frame: "frame_of fp s = Some f \<Longrightarrow> frame_of fp (set_frame fp g s) = Some g"
  by (auto simp: frame_of_def set_frame_def proc_at_def split: frame_ptr.splits option.splits if_splits)

lemma mem_set_frame [simp]: "mem (set_frame fp g s) = mem s"
  by (simp add: set_frame_def split: frame_ptr.split option.split)

text \<open>
  C5: The read system call delivers the file. With the request in the caller's registers, and for a
  file without holes up to the end of the window asked for (every zone number on the way to its
  blocks is nonzero and on the disk), the count in \<open>a0\<close>
  and the bytes in the buffer are those of the file on the disk; a disk without a
  filesystem, an inode out of range or beyond the disk and an offset past the end give the count
  0; the caller goes on after its \<open>ecall\<close>.
\<close>

lemma syscall_read_delivers:
  assumes frame: "frame_of fp s = Some f" "regs f ! 10 = 63" "dv = unat (regs f ! 11)" and epc: "unat epc + 4 < 2 ^ 64"
    and args: "buf = unat (regs f ! 13)" "sz = ucast (regs f ! 14)" "off = ucast (regs f ! 15)"
    and ready: "blk_ready L (bus.truncate M) fuel dv view rank N s" "4 < low_free L s"
    and ro: "ro \<in> held L s" "ro \<noteq> (queue_at s dv, 2)" "covers ro buf (unat sz)" "buf \<noteq> 0"
    and node: "node = wanted_inode (disk_of view s) (ucast (regs f ! 12))" and want: "want = wanted_count node sz off"
    and nh: "\<forall>n. node = Some n \<longrightarrow> no_holes (disk_of view s) (zones n) (unat off + want)"
  shows "\<exists>s'. do_syscall L M fuel epc fp s = Inr (epc + 4, s') \<and>
     frame_of fp s' = Some (f\<lparr>regs := (regs f)[10 := of_nat want]\<rparr>) \<and>
     (\<forall>n. node = Some n \<longrightarrow>
        rd_bytes (mem s') buf want = map (file_byte (disk_of view s) (zones n)) [unat off..<unat off + want])"
proof -
  obtain s1 where s1: "sys_read L (bus.truncate M) fuel dv (ucast (regs f ! 12)) buf sz off s = Inr (want, s1)"
    "\<forall>n. node = Some n \<longrightarrow> rd_bytes (mem s1) buf want = map (file_byte (disk_of view s) (zones n)) [unat off..<unat off + want]"
    using sys_read_run [OF ready ro node want] nh by auto
  have f1: "frame_of fp s1 = Some f"
    using frame(1) trap_view_eqs(5) [OF trap_view_proc [OF sys_read_view [OF s1(1)]]] by simp
  have "do_syscall L M fuel epc fp s = Inr (epc + 4, set_frame fp (f\<lparr>regs := (regs f)[10 := of_nat want]\<rparr>) s1)"
    using s1(1) frame args epc by (simp add: do_syscall_def Let_def step_past_def u64_add_def)
  with s1(2) frame_of_set_frame [OF f1] show ?thesis by simp
qed

section \<open>A disk with a file\<close>

definition file_disk :: "u8 list" where
  "file_disk = replicate 1024 0 @ [1, 0, 0, 0] @ replicate 20 0 @ [0x5a, 0x4d] @ replicate 998 0 @
     replicate 8 0 @ [4, 0, 0, 0] @ replicate 12 0 @ [3, 0, 0, 0] @ replicate 996 0 @ [0x76, 0x65, 0x73, 0x70] @ replicate 1020 0"

definition file_soc :: "dview option soc" where
  "file_soc = bus.extend instant_bus (soc.fields (\<lambda>_ d. (0, d)) (\<lambda>_ _ d. d) (\<lambda>_ d. (0, d)) (\<lambda>_ _ d. d))"

definition caller :: TrapFrame where
  "caller = TrapFrame_empty\<lparr>regs := (replicate 32 0)[10 := 63, 12 := 1, 13 := 0x4000, 14 := 3, 15 := 1]\<rparr>"

definition file_machine :: "dview option trap_state" where
  "file_machine = vio_state.extend (blk_machine buffer_page file_disk)
     (trap_state.fields 0 caller Idle StaticFrame m_trap_vector 0)"

lemma extend_sels [simp]:
  "mem (vio_state.extend s x) = mem s" "ALLOC_START (vio_state.extend s x) = ALLOC_START s"
  "BLOCK_DEVICES (vio_state.extend s x) = BLOCK_DEVICES s" "hw (vio_state.extend s x) = hw s"
  by (simp_all add: vio_state.extend_def)

lemma extend_ready: "blk_ready L B fuel i view rank N (vio_state.extend s x) = blk_ready L B fuel i view rank N s"
    "held L (vio_state.extend s x) = held L s" "low_free L (vio_state.extend s x) = low_free L s"
    "queue_at (vio_state.extend s x) i = queue_at s i" "disk_of view (vio_state.extend s x) = disk_of view s"
  by (simp_all add: blk_ready_def drv_ok_def frames_inv_def held_def descriptors_def queue_at_def low_free_def disk_of_def)

lemma file_disk_inode: "\<exists>n. wanted_inode file_disk 1 = Some n \<and> isize n = 4 \<and> zones n ! 0 = 3"
proof -
  have len: "length file_disk = 4096" by (simp add: file_disk_def)
  have ld: "ld32 (\<lambda>k. file_disk ! k) a = of_nat (le_val (take 4 (drop a file_disk)))"
    "ld16 (\<lambda>k. file_disk ! k) a = of_nat (le_val (take 2 (drop a file_disk)))" if "a < 4000" for a
    using that len disk_image [of a 4 file_disk] disk_image [of a 2 file_disk] by (simp_all add: ld32_def ld16_def)
  let ?b = "read_SuperBlock (\<lambda>k. file_disk ! k) 1024"
  have b: "ninodes ?b = 1" "imap_blocks ?b = 0" "zmap_blocks ?b = 0" "magic ?b = MINIX_MAGIC"
    by (simp_all add: read_SuperBlock_def ld MINIX_MAGIC_def) (simp_all add: file_disk_def)
  let ?n = "read_Inode (\<lambda>k. file_disk ! k) 2048"
  have n: "isize ?n = 4" "zones ?n ! 0 = 3"
    by (simp_all add: read_Inode_def ld) (simp_all add: file_disk_def)
  have "wanted_inode file_disk 1 = Some ?n"
    using b by (simp add: wanted_inode_def Let_def inode_table_offset_def BLOCK_SIZE_def len)
  with n show ?thesis by blast
qed

text \<open>Reading three bytes at offset 1 of the file \<open>vesp\<close>.\<close>

theorem syscall_read_delivers_witness:
  "\<exists>s'. do_syscall blk_layout file_soc 1 0x80001000 StaticFrame file_machine = Inr (0x80001004, s') \<and>
     regs (TRAP_FRAME s') ! 10 = 3 \<and> rd_bytes (mem s') 0x4000 3 = [0x65, 0x73, 0x70]"
proof -
  obtain n where n: "wanted_inode file_disk 1 = Some n" "isize n = 4" "zones n ! 0 = 3" using file_disk_inode by blast
  have len: "length file_disk = 4096" by (simp add: file_disk_def)
  have fm: "frame_of StaticFrame file_machine = Some caller" by (simp add: frame_of_def file_machine_def vio_state.extend_def trap_state.fields_def)
  have bus: "bus.truncate file_soc = instant_bus" by (simp add: file_soc_def bus.truncate_def bus.extend_def)
  have rd: "blk_ready blk_layout (bus.truncate file_soc) 1 0 (\<lambda>d. d) (\<lambda>_. 0) 1 file_machine"
    using buffer_page_machine(1) [of file_disk] instant_bus_device by (simp add: bus file_machine_def extend_ready) (simp add: blk_ready_def)
  have "no_holes file_disk (zones n) 4"
    using n(3) by (auto simp: no_holes_def path_def on_disk_def len)
  moreover have "map (file_byte file_disk (zones n)) [1..<4] = [0x65, 0x73, 0x70]"
    using n(3) by (simp add: file_byte_def file_zone_def path_def upt_rec) (simp add: file_disk_def nth_append)
  ultimately have fb: "no_holes file_disk (zones n) 4" "map (file_byte file_disk (zones n)) [1..<4] = [0x65, 0x73, 0x70]" .
  have fd: "disk_of (\<lambda>d. d) file_machine = file_disk" "queue_at file_machine 0 = 0x2000"
    "(0x4000, 1) \<in> held blk_layout file_machine" "4 < low_free blk_layout file_machine"
    by (simp_all add: file_machine_def extend_ready demo_machine_disk demo_machine_queue demo_machine_pages demo_machine_buffer [unfolded One_nat_def])
  have c: "regs caller ! 10 = 63" "regs caller ! 11 = 0" "regs caller ! 12 = 1" "regs caller ! 13 = 0x4000"
    "regs caller ! 14 = 3" "regs caller ! 15 = 1" "length (regs caller) = 32" by (simp_all add: caller_def)
  have w: "wanted_count (Some n) 3 1 = 3" using n(2) by (simp add: wanted_count_def)
  have "\<exists>s'. do_syscall blk_layout file_soc 1 0x80001000 StaticFrame file_machine = Inr (0x80001000 + 4, s') \<and>
     frame_of StaticFrame s' = Some (caller\<lparr>regs := (regs caller)[10 := of_nat 3]\<rparr>) \<and>
     (\<forall>m. Some n = Some m \<longrightarrow>
        rd_bytes (mem s') 0x4000 3 = map (file_byte (disk_of (\<lambda>d. d) file_machine) (zones m)) [unat (1 :: u32)..<unat (1 :: u32) + 3])"
    by (rule syscall_read_delivers [where sz = 3 and off = 1, OF fm c(1) _ _ _ _ _ rd fd(4,3)])
      (simp_all add: c fd n(1) fb(1) w covers_def)
  then obtain s' where "do_syscall blk_layout file_soc 1 0x80001000 StaticFrame file_machine = Inr (0x80001004, s')"
    "TRAP_FRAME s' = caller\<lparr>regs := (regs caller)[10 := 3]\<rparr>"
    "rd_bytes (mem s') 0x4000 3 = map (file_byte file_disk (zones n)) [1..<4]"
    by (auto simp: frame_of_def fd)
  with fb(2) c(7) show ?thesis by auto
qed

end
