(* ===== verification/Fairness.thy ===== *)
theory Fairness
  imports Context
begin

text \<open>
  Fairness of the scheduler, over whole traps. A process that is ready waits while other code runs
  and traps of every kind are taken: the timer's, which move on round robin, and the system calls
  that end a process, after which \<open>schedule\<close> starts its search at the first slot again. The number
  of timer interrupts it can wait is bounded all the same.
\<close>

section \<open>What a trap does to the table\<close>

definition timer_cause :: "u64 \<Rightarrow> bool" where
  "timer_cause cause \<longleftrightarrow> drop_bit 63 cause AND 1 = 1 \<and> cause AND 0xfff = 7"

text \<open>A trap that goes back to the process it interrupted, and one that ends that process.\<close>

definition stays :: "('d, 'z) trap_state_scheme \<Rightarrow> ('d, 'z) trap_state_scheme \<Rightarrow> bool" where
  "stays s s' \<longleftrightarrow> current s' = current s \<and> (\<forall>i. proc_at s' i = None \<longleftrightarrow> proc_at s i = None)"

definition exits :: "('d, 'z) trap_state_scheme \<Rightarrow> ('d, 'z) trap_state_scheme \<Rightarrow> bool" where
  "exits s s' \<longleftrightarrow>
     (\<forall>i. proc_at s' i = None \<longleftrightarrow> proc_at s i = None \<or> current s = Some i) \<and>
     (\<exists>k. current s' = Some k \<and> proc_at s' k \<noteq> None \<and> (\<forall>l < k. proc_at s' l = None))"

lemma stays_view: "trap_view s' = trap_view s \<Longrightarrow> stays s s'"
  by (simp add: stays_def trap_view_eqs [of s' s])

lemma stays_trans: "stays s t \<Longrightarrow> stays t u \<Longrightarrow> stays s u"
  by (simp add: stays_def)

lemma stays_exits: "stays s t \<Longrightarrow> exits t u \<Longrightarrow> exits s u"
  unfolding stays_def exits_def by (elim conjE, intro conjI) (simp, assumption)

lemma stays_set_frame:
  assumes "trap_inv s" "length (regs f) = 32"
  shows "stays s (set_frame (mscratch s) f s)"
  unfolding stays_def
proof (intro conjI allI)
  show "proc_at (set_frame (mscratch s) f s) i = None \<longleftrightarrow> proc_at s i = None" for i
    using set_frame_current(5,6) [OF assms, of i] assms(1) by (cases "current s = Some i") (auto simp: trap_inv_def)
qed (rule set_frame_current(2) [OF assms])

lemma exit_exits:
  assumes inv: "trap_inv s" and ex: "exit_current s = Inr (r, s1)"
    and pr: "(case r of None \<Rightarrow> Inr s1 | Some p \<Rightarrow> println M fuel (msg p) s1) = Inr s2"
    and sc: "schedule epc s2 = Inr (Some (fp, npc), s3)"
  shows "exits s (s3\<lparr>mscratch := fp\<rparr>)"
proof -
  have v2: "trap_view s2 = trap_view s1" using pr println_view by (auto split: option.splits)
  have ok: "procs_ok s" and cur: "\<And>i. current s = Some i \<Longrightarrow> proc_at s i \<noteq> None"
    using inv by (auto simp: trap_inv_def)
  have s1: "procs_ok s1 \<and> current s1 = None \<and> (\<forall>i. proc_at s1 i = (if current s = Some i then None else proc_at s i))"
    using ex ok cur
    by (auto simp: exit_current_def procs_ok_def table_ok_def proc_at_def nth_list_update split: option.splits if_splits)
  then have ok2: "procs_ok s2" and tok: "table_ok s2" and cur2: "current s2 = None"
    and at: "\<And>i. proc_at s2 i = None \<longleftrightarrow> proc_at s i = None \<or> current s = Some i"
    using trap_view_eqs [OF v2] by (simp_all add: procs_ok_def)
  have start: "search_start s2 = 0" using cur2 by (simp add: search_start_def)
  have run: "runnable s2 i \<longleftrightarrow> proc_at s2 i \<noteq> None" for i using ok2 by (auto simp: procs_ok_def runnable_def)
  have at3: "proc_at s3 i = proc_at s2 i" for i using schedule_switch(2) [OF ok2 sc] cur2 by simp
  have "\<exists>k. current s3 = Some k \<and> proc_at s3 k \<noteq> None \<and> (\<forall>l < k. proc_at s3 l = None)"
  proof (rule schedule_cases [OF tok, of epc])
    fix m k p s4
    assume m: "m < 16" "k = (search_start s2 + m) mod 16" "runnable s2 k"
      "\<And>l. l < m \<Longrightarrow> \<not> runnable s2 ((search_start s2 + l) mod 16)"
      and s4: "schedule epc s2 = Inr (Some (SlotFrame k, pc p), s4)" "current s4 = Some k"
    have "k = m" using m(1,2) by (simp add: start)
    moreover have "proc_at s2 l = None" if "l < m" for l using m(4) [OF that] that m(1) run by (simp add: start)
    ultimately show ?thesis using m(3) s4 sc run at3 by simp
  qed (use sc in simp)
  then show ?thesis using at at3 by (simp add: exits_def)
qed

lemma do_syscall_effect:
  assumes inv: "trap_inv s" and sy: "do_syscall L M fuel epc (mscratch s) s = Inr (npc, s')"
  shows "stays s s' \<or> exits s s'"
proof -
  obtain f where f: "frame_of (mscratch s) s = Some f" using sy by (auto simp: do_syscall_def split: option.splits)
  have len: "length (regs f) = 32"
    using inv f by (auto simp: trap_inv_def procs_ok_def frame_of_def split: option.splits frame_ptr.splits)
  consider (ping) "regs f ! 10 = 1" | (read) "regs f ! 10 = 63" | (quit) "regs f ! 10 = 93"
    | (unknown) "regs f ! 10 \<notin> {1, 63, 93}" by blast
  then show ?thesis
  proof cases
    case ping
    with sy f have "s' = s" by (auto simp: do_syscall_def Let_def dest: step_past_view)
    then show ?thesis by (simp add: stays_def)
  next
    case read
    obtain n s1 where n: "sys_read L (bus.truncate M) fuel (unat (regs f ! 11)) (ucast (regs f ! 12)) (unat (regs f ! 13))
        (ucast (regs f ! 14)) (ucast (regs f ! 15)) s = Inr (n, s1)"
      "s' = set_frame (mscratch s) (f\<lparr>regs := (regs f)[10 := of_nat n]\<rparr>) s1"
      using sy f read by (auto simp: do_syscall_def Let_def bind_res_Inr_iff dest!: step_past_view)
    note tv = trap_view_proc [OF sys_read_view [OF n(1)]]
    have "trap_inv s1" "mscratch s = mscratch s1" "length (regs (f\<lparr>regs := (regs f)[10 := of_nat n]\<rparr>)) = 32"
      using inv len trap_view_eqs [OF tv] by simp_all
    then show ?thesis using stays_trans [OF stays_view [OF tv] stays_set_frame [of s1]] n(2) by simp
  next
    case quit
    let ?msg = "\<lambda>p. bytes ''process '' @ dec (unat p) @ bytes '' exited''"
    obtain r s1 s2 nf s3 where e: "exit_current s = Inr (r, s1)"
      "(case r of None \<Rightarrow> Inr s1 | Some p \<Rightarrow> println M fuel (?msg p) s1) = Inr s2" "schedule epc s2 = Inr (nf, s3)"
      "(case nf of Some (next_frame, next_pc) \<Rightarrow> Inr (next_pc, s3\<lparr>mscratch := next_frame\<rparr>) | None \<Rightarrow> Inl Diverges) = Inr (npc, s')"
      using sy f quit by (auto simp: do_syscall_def Let_def bind_res_Inr_iff)
    then show ?thesis using exit_exits [OF inv e(1,2)] by (auto split: option.splits)
  next
    case unknown
    with sy f show ?thesis
      by (auto simp: do_syscall_def Let_def bind_res_Inr_iff dest!: step_past_view intro: stays_view [OF println_view])
  qed
qed

lemma m_trap_effect:
  assumes inv: "trap_inv s" and m: "m_trap L M fuel epc tval cause hart status (mscratch s) s = Inr (npc, s')"
    and cause: "\<not> timer_cause cause"
  shows "stays s s' \<or> exits s s'"
proof -
  have report: "stays s s'" if "report_fault M fuel what hart epc tval s = Inr (npc, s')" for what
    using that by (auto simp: report_fault_def bind_res_Inr_iff dest!: step_past_view intro: stays_view [OF println_view])
  have fault: "stays s s'" if "step_past epc (access_fault_trap s) = Inr (npc, s')"
    using step_past_view [OF that] by (auto intro!: stays_view trap_view_proc)
  show ?thesis
    using m cause unfolding m_trap_def Let_def timer_cause_def
    by (auto split: if_splits simp: bind_res_Inr_iff
        intro: stays_view [OF println_view] stays_view [OF handle_external_view] report fault dest: do_syscall_effect [OF inv])
qed

lemma take_trap_effect:
  assumes inv: "trap_inv s" and t: "take_trap L M fuel tval cause hart status c s = Inr (c', s')"
    and cause: "\<not> timer_cause cause"
  shows "stays s s' \<or> exits s s'"
proof -
  obtain f where f: "frame_of (mscratch s) s = Some f" using t by (auto simp: take_trap_def split: option.splits)
  let ?s = "set_frame (mscratch s) (save_ctx (fst c) f) s"
  obtain npc where m: "m_trap L M fuel (snd c) tval cause hart status (mscratch s) ?s = Inr (npc, s')"
    using t f by (auto simp: take_trap_def bind_res_Inr_iff split: option.splits)
  have len: "length (regs (save_ctx (fst c) f)) = 32" by (simp add: save_ctx_def)
  note sf = set_frame_current [OF inv len]
  have "stays ?s s' \<or> exits ?s s'" using m_trap_effect [OF sf(1) _ cause] m sf(3) by simp
  then show ?thesis using stays_trans stays_exits stays_set_frame [OF inv len] by blast
qed

text \<open>A timer trap that returns has rearmed the timer, so the clock had not run out.\<close>

lemma timer_trap_clock:
  assumes "timer_cause cause" "take_trap L M fuel tval cause hart status c s = Inr (c', s')"
  shows "clock_ok M (hw s)"
proof -
  obtain f where f: "frame_of (mscratch s) s = Some f" using assms(2) by (auto simp: take_trap_def split: option.splits)
  let ?s = "set_frame (mscratch s) (save_ctx (fst c) f) s"
  obtain s1 where "rearm_timer M ?s = Inr s1"
    using assms f by (auto simp: take_trap_def m_trap_def timer_cause_def bind_res_Inr_iff split: option.splits)
  then show ?thesis
    by (auto simp: rearm_timer_def clock_ok_def u64_add_def bind_res_Inr_iff split: prod.splits if_splits)
qed

section \<open>Waiting\<close>

text \<open>
  A run in which process \<open>j\<close> waits, from \<open>k\<close> on: other code runs, timer interrupts and other traps
  are taken. \<open>n\<close> counts the timer interrupts and \<open>e\<close> the other traps that change the process
  which runs: the exits. Nothing spawns a process once the scheduler runs.
\<close>

inductive waits ::
  "linker \<Rightarrow> 'd soc \<Rightarrow> nat \<Rightarrow> nat \<Rightarrow> hart \<times> ('d, 'z) trap_state_scheme \<Rightarrow> nat \<Rightarrow> nat \<Rightarrow>
   hart \<times> ('d, 'z) trap_state_scheme \<Rightarrow> bool"
  for L M fuel j k
where
  here: "waits L M fuel j k 0 0 k"
| code: "waits L M fuel j k n e (c, s) \<Longrightarrow> current s \<noteq> Some j \<Longrightarrow> trap_view s' = trap_view s \<Longrightarrow>
    waits L M fuel j k n e (c', s')"
| tick: "waits L M fuel j k n e (c, s) \<Longrightarrow> current s \<noteq> Some j \<Longrightarrow> timer_cause cause \<Longrightarrow>
    take_trap L M fuel tval cause hart status c s = Inr (c', s') \<Longrightarrow> waits L M fuel j k (Suc n) e (c', s')"
| trap: "waits L M fuel j k n e (c, s) \<Longrightarrow> current s \<noteq> Some j \<Longrightarrow> \<not> timer_cause cause \<Longrightarrow>
    take_trap L M fuel tval cause hart status c s = Inr (c', s') \<Longrightarrow>
    waits L M fuel j k n (if current s' = current s then e else Suc e) (c', s')"

lemma waits_away: "waits L M fuel j k n e k' \<Longrightarrow> away L M fuel j k k'"
  by (induction rule: waits.induct) (auto intro: away.intros)

text \<open>How many timer interrupts away \<open>j\<close> is at most, if no process exits.\<close>

definition ticks_to :: "nat \<Rightarrow> 'z proc_state_scheme \<Rightarrow> nat" where
  "ticks_to j s = (if current s = Some j then 0 else (j + 16 - search_start s) mod 16 + 1)"

lemma mod16: "x < 32 \<Longrightarrow> x mod 16 = (if x < 16 then x else x - 16)" for x :: nat
  by (simp add: le_mod_geq)

lemma ticks_to_le: "current s = Some i \<Longrightarrow> i < 16 \<Longrightarrow> j < 16 \<Longrightarrow> ticks_to j s \<le> 15"
  by (auto simp: ticks_to_def search_start_def mod16)

lemma offset_before:
  fixes st j k m :: nat
  assumes st: "st < 16" and j: "j < 16" and k: "k = (st + m) mod 16" and m: "m < (j + 16 - st) mod 16"
  shows "(j + 16 - (k + 1) mod 16) mod 16 < (j + 16 - st) mod 16"
proof -
  define d where "d = (j + 16 - st) mod 16"
  have d: "d < 16" "m < d" using m by (simp_all add: d_def)
  have "j = (st + d) mod 16" using st j by (simp add: d_def mod_add_right_eq)
  also have "\<dots> = (if st + d < 16 then st + d else st + d - 16)" using st d by (intro mod16) simp
  finally have jd: "j = (if st + d < 16 then st + d else st + d - 16)" .
  have "(k + 1) mod 16 = (st + m + 1) mod 16" unfolding k by (simp add: mod_simps)
  also have "\<dots> = (if st + m + 1 < 16 then st + m + 1 else st + m + 1 - 16)" using st d by (intro mod16) simp
  finally have km: "(k + 1) mod 16 = (if st + m + 1 < 16 then st + m + 1 else st + m + 1 - 16)" .
  have "j + 16 - (k + 1) mod 16 = d - m - 1 \<or> j + 16 - (k + 1) mod 16 = d - m - 1 + 16"
    unfolding jd km using d st by (cases "st + d < 16"; cases "st + m + 1 < 16"; simp; linarith)
  then have "(j + 16 - (k + 1) mod 16) mod 16 = (d - m - 1) mod 16" by (elim disjE) (simp_all only: mod_add_self2)
  then show ?thesis using d by (simp add: d_def [symmetric])
qed

lemma trap_inv_table:
  assumes "trap_inv s"
  shows "proc_at s j \<noteq> None \<Longrightarrow> j < 16" "current s = Some i \<Longrightarrow> i < 16 \<and> proc_at s i \<noteq> None"
  using assms by (auto simp: trap_inv_def procs_ok_def table_ok_def proc_at_def split: if_splits)

lemma tick_nearer:
  assumes inv: "trap_inv s" and j: "proc_at s j \<noteq> None" "current s \<noteq> Some j" and cause: "timer_cause cause"
    and t: "take_trap L M fuel tval cause hart status c s = Inr (c', s')"
  shows "ticks_to j s' < ticks_to j s" "\<exists>k. current s' = Some k"
proof -
  have cs: "drop_bit 63 cause AND 1 = 1" "cause AND 0xfff = 7" using cause by (simp_all add: timer_cause_def)
  obtain m k where k: "m < 16" "k = (search_start s + m) mod 16" "current s' = Some k"
    and first: "\<forall>l < m. proc_at s ((search_start s + l) mod 16) = None"
    using timer_trap_picks [OF inv cs timer_trap_clock [OF cause t] j(1), of L fuel tval hart status c] t by auto
  have st: "search_start s < 16" by (simp add: search_start_def split: option.split)
  let ?d = "(j + 16 - search_start s) mod 16"
  have j16: "j < 16" using trap_inv_table(1) [OF inv j(1)] .
  have at: "(search_start s + ?d) mod 16 = j" using st j16 by (simp add: mod_add_right_eq)
  have "\<not> ?d < m" using first at j(1) by metis
  then have "m \<le> ?d" by simp
  moreover have "k = j" if "m = ?d" using that k(2) at by simp
  ultimately have "k = j \<or> m < ?d" by linarith
  then have "k = j \<or> (j + 16 - (k + 1) mod 16) mod 16 < ?d" using offset_before [OF st j16 k(2)] by blast
  then show "ticks_to j s' < ticks_to j s" using j(2) k(3) by (auto simp: ticks_to_def search_start_def)
  show "\<exists>k. current s' = Some k" using k(3) by blast
qed

text \<open>The other processes, which the exits use up.\<close>

definition others :: "nat \<Rightarrow> 'z proc_state_scheme \<Rightarrow> nat set" where
  "others j s = {i. i \<noteq> j \<and> proc_at s i \<noteq> None}"

lemma others_finite: "trap_inv s \<Longrightarrow> finite (others j s)"
  using trap_inv_table(1) by (intro finite_subset [of "others j s" "{..<16}"]) (auto simp: others_def)

lemma others_card:
  assumes "trap_inv s" "j < 16"
  shows "card (others j s) \<le> 15"
proof -
  have "card (others j s) \<le> card ({..<16} - {j})"
    using trap_inv_table(1) [OF assms(1)] by (intro card_mono) (auto simp: others_def)
  also have "\<dots> = 15" using assms(2) by simp
  finally show ?thesis .
qed

lemma exit_restarts:
  assumes inv: "trap_inv s" and j: "proc_at s j \<noteq> None" and i: "current s = Some i" "i \<noteq> j" and ex: "exits s s'"
  shows "current s' \<noteq> current s" "\<exists>k. current s' = Some k" "ticks_to j s' \<le> 15" "Suc (card (others j s')) = card (others j s)"
proof -
  obtain k where k: "current s' = Some k" "proc_at s' k \<noteq> None" "\<forall>l < k. proc_at s' l = None" using ex by (auto simp: exits_def)
  have at: "proc_at s' l = None \<longleftrightarrow> proc_at s l = None \<or> l = i" for l using ex i(1) by (auto simp: exits_def)
  have "k \<noteq> i" using at [of k] k(2) by blast
  then show "current s' \<noteq> current s" "\<exists>k. current s' = Some k" using k(1) i(1) by simp_all
  have "proc_at s' j \<noteq> None" using at [of j] j i(2) by simp
  with k(3) [rule_format, of j] have "k \<le> j" by (metis leI)
  moreover have "j < 16" using trap_inv_table(1) [OF inv j] .
  ultimately show "ticks_to j s' \<le> 15" using ticks_to_le [OF k(1)] by simp
  have "others j s = insert i (others j s')" "i \<notin> others j s'"
    using i(2) trap_inv_table(2) [OF inv i(1)] by (auto simp: others_def at simp del: not_None_eq)
  then show "Suc (card (others j s')) = card (others j s)"
    using others_finite [OF inv, of j] by simp
qed

lemma timer_others:
  assumes inv: "trap_inv s" and i: "current s = Some i" and cause: "timer_cause cause"
    and t: "take_trap L M fuel tval cause hart status c s = Inr (c', s')"
  shows "others j s' = others j s"
proof -
  have cs: "drop_bit 63 cause AND 1 = 1" "cause AND 0xfff = 7" using cause by (simp_all add: timer_cause_def)
  have "proc_at s' l = None \<longleftrightarrow> proc_at s l = None" for l
    using take_trap_switched(2) [OF inv t, of l] timer_trap(1) [OF inv cs i t] trap_inv_table(2) [OF inv i] i
    by (cases "l = i") auto
  then show ?thesis by (simp add: others_def)
qed

text \<open>The invariant of the wait.\<close>

lemma waits_inv:
  assumes "waits L M fuel j k n e (c', s')" "k = (c, s)" "trap_inv s" "proc_at s j = Some p" "current s = Some i" "i \<noteq> j"
  shows "(\<exists>l. current s' = Some l) \<and> ticks_to j s' + n \<le> 15 * (e + 1) \<and> card (others j s') + e \<le> 15"
  using assms
proof (induction n e "(c', s')" arbitrary: c' s' rule: waits.induct)
  case here
  then show ?case using ticks_to_le [of s i j] trap_inv_table(1) [of s j] trap_inv_table(2) [of s i] others_card [of s j]
    by simp
next
  case (code n e c1 s1 s' c')
  have "ticks_to j s' = ticks_to j s1" "others j s' = others j s1" "current s' = current s1"
    using trap_view_eqs [OF code(4)] by (simp_all add: ticks_to_def others_def search_start_def)
  then show ?case using code(2) code.prems by simp
next
  case (tick n e c1 s1 cause tval hart status c' s')
  note away = away_keeps [OF waits_away [OF tick(1)] tick.prems(1-3)]
  have s1: "trap_inv s1" "proc_at s1 j \<noteq> None" using away tick.prems by simp_all
  obtain l where l: "current s1 = Some l" using tick(2) tick.prems by blast
  show ?case using tick(2) tick.prems tick_nearer [OF s1 tick(3,4,5)] timer_others [OF s1(1) l tick(4,5), of j] by auto
next
  case (trap n e c1 s1 cause tval hart status c' s')
  note away = away_keeps [OF waits_away [OF trap(1)] trap.prems(1-3)]
  have s1: "trap_inv s1" "proc_at s1 j \<noteq> None" using away trap.prems by simp_all
  have IH: "\<exists>l. current s1 = Some l" "ticks_to j s1 + n \<le> 15 * (e + 1)" "card (others j s1) + e \<le> 15"
    using trap(2) trap.prems by simp_all
  obtain l where l: "current s1 = Some l" "l \<noteq> j" using IH(1) trap(3) by auto
  from take_trap_effect [OF s1(1) trap(5,4)] show ?case
  proof
    assume "stays s1 s'"
    then have "current s' = current s1" "ticks_to j s' = ticks_to j s1" "others j s' = others j s1"
      by (simp_all add: stays_def ticks_to_def search_start_def others_def)
    then show ?thesis using IH by simp
  next
    assume "exits s1 s'"
    note x = exit_restarts [OF s1 l this]
    show ?thesis using x(1,2) x(3) x(4) IH(2,3) by simp
  qed
qed

section \<open>Properties\<close>

text \<open>
  C16: No ready process waits forever, whatever the others do. While process \<open>j\<close> waits, other code
  runs and traps of every cause are taken; a system call that ends a process makes the scheduler
  search from the first slot again. There are at most fifteen such exits, and with \<open>e\<close> of them so
  far \<open>j\<close> runs after at most \<open>15 * (e + 1)\<close> timer interrupts: as long as it does not run their
  number is below the bound, and as the clock has not run out the next one returns and extends the
  wait. When \<open>j\<close> runs it is at its saved registers and program counter.
\<close>

theorem waiting_bounded:
  assumes inv: "trap_inv s" and i: "current s = Some i" "i \<noteq> j" and j: "proc_at s j = Some p"
    and w: "waits L M fuel j (c, s) n e (c', s')"
  shows "e \<le> 15 \<and> n \<le> 15 * (e + 1) \<and> proc_at s' j = Some p \<and>
     (if current s' = Some j then c' = (load_ctx (frame p), pc p)
      else n < 15 * (e + 1) \<and>
        (\<forall>tval cause hart status. timer_cause cause \<longrightarrow> clock_ok M (hw s') \<longrightarrow>
           (\<exists>k'. take_trap L M fuel tval cause hart status c' s' = Inr k' \<and> waits L M fuel j (c, s) (Suc n) e k')))"
proof -
  have keeps: "trap_inv s' \<and> proc_at s' j = Some p \<and> (current s' = Some j \<longrightarrow> c' = (load_ctx (frame p), pc p))"
    using away_keeps [OF waits_away [OF w] refl inv j] i by simp
  have bound: "ticks_to j s' + n \<le> 15 * (e + 1)" "e \<le> 15" using waits_inv [OF w refl inv j i] by simp_all
  have "\<exists>k'. take_trap L M fuel tval cause hart status c' s' = Inr k' \<and> waits L M fuel j (c, s) (Suc n) e k'"
    if away: "current s' \<noteq> Some j" and cs: "timer_cause cause" and clk: "clock_ok M (hw s')" for tval cause hart status
  proof -
    have "drop_bit 63 cause AND 1 = 1" "cause AND 0xfff = 7" using cs by (simp_all add: timer_cause_def)
    then obtain c2 s2 where t: "take_trap L M fuel tval cause hart status c' s' = Inr (c2, s2)"
      using timer_trap_picks [of s' cause M j L fuel tval hart status c'] keeps clk by auto
    then show ?thesis using waits.tick [OF w away cs t] by blast
  qed
  moreover have "n < 15 * (e + 1)" if "current s' \<noteq> Some j" using bound(1) that by (simp add: ticks_to_def)
  ultimately show ?thesis using keeps bound by simp
qed

theorem waiting_bounded_witness:
  "\<exists>c1 s1. take_trap blk_layout demo_timer 1 0 0x8000000000000007 0 0 (\<lambda>_. 0, 0x80001234) demo_two = Inr (c1, s1) \<and>
     waits blk_layout demo_timer 1 1 ((\<lambda>_. 0, 0x80001234), demo_two) 1 0 (c1, s1) \<and>
     current s1 = Some 1 \<and> snd c1 = 0x80002000"
proof -
  let ?c = "(\<lambda>_. 0, 0x80001234) :: hart"
  let ?p = "new_process 0x9000 0x80002000 0x6000 2"
  obtain c1 s1 where t: "take_trap blk_layout demo_timer 1 0 0x8000000000000007 0 0 ?c demo_two = Inr (c1, s1)" "current s1 = Some 1"
    using demo_switch by blast
  have cur: "current demo_two = Some 0" and one: "proc_at demo_two 1 = Some ?p" by (simp_all add: demo_two_def proc_at_def)
  have w: "waits blk_layout demo_timer 1 1 (?c, demo_two) (Suc 0) 0 (c1, s1)"
    by (rule waits.tick [OF waits.here _ _ t(1)]) (simp_all add: cur timer_cause_def)
  have "c1 = (load_ctx (frame ?p), pc ?p)" using waiting_bounded [OF demo_two_inv cur _ one w] t(2) by simp
  with t w show ?thesis by simp
qed

end
