(* ===== verification/Panic.thy ===== *)
theory Panic
  imports Fairness
begin

text \<open>
  Panics (\<open>src/boot/panic.rs\<close>, \<open>src/boot/abort.rs\<close>): the handler prints where and why, and the
  hart then sleeps in a loop from interrupt to interrupt. Code that panics in supervisor mode is
  still preempted by the timer.
\<close>

section \<open>The panic handler\<close>

text \<open>Where a panic was raised, as \<open>core::panic::Location\<close> has it and prints it.\<close>

record Location =
  loc_name :: string
  loc_line :: nat
  loc_col :: nat

definition location_text :: "Location \<Rightarrow> u8 list" where
  "location_text l = bytes (loc_name l) @ bytes '':'' @ dec (loc_line l) @ bytes '':'' @ dec (loc_col l)"

definition panic_text :: "Location option \<Rightarrow> u8 list \<Rightarrow> u8 list" where
  "panic_text l msg =
     (case l of
        Some loc \<Rightarrow> bytes ''kernel panic at '' @ location_text loc @ bytes '': '' @ msg
      | None \<Rightarrow> bytes ''kernel panic: '' @ msg)"

text \<open>
  \<open>wfi\<close> parks the hart until an interrupt arrives, with its \<open>mtval\<close>, \<open>mcause\<close> and \<open>mstatus\<close>. Where
  interrupts are enabled (\<open>en\<close>: the code of processes, outside the trap handler) its trap is taken
  there and then; where they are masked the hart only wakes up.
\<close>

type_synonym interrupt = "u64 \<times> u64 \<times> u64"

definition wfi ::
  "linker \<Rightarrow> 'd soc \<Rightarrow> nat \<Rightarrow> bool \<Rightarrow> u64 \<Rightarrow> interrupt \<Rightarrow> hart \<Rightarrow> ('d, 'z) trap_state_scheme \<Rightarrow>
   (hart \<times> ('d, 'z) trap_state_scheme) res"
where
  "wfi L M fuel en hart i c s =
     (if en then (case i of (tval, cause, status) \<Rightarrow> take_trap L M fuel tval cause hart status c s) else Inr (c, s))"

text \<open>
  \<open>abort\<close> over the interrupts that arrive, one for each turn of its loop: a trap that goes back to
  the code it interrupted goes back into the loop; one that resumes another process has left it.
\<close>

fun abort ::
  "linker \<Rightarrow> 'd soc \<Rightarrow> nat \<Rightarrow> bool \<Rightarrow> u64 \<Rightarrow> interrupt list \<Rightarrow> hart \<Rightarrow> ('d, 'z) trap_state_scheme \<Rightarrow>
   (hart \<times> ('d, 'z) trap_state_scheme) res"
where
  "abort L M fuel en hart [] c s = Inr (c, s)"
| "abort L M fuel en hart (i # irqs) c s =
     bind_res (wfi L M fuel en hart i c s) (\<lambda>(c1, s1).
     if current s1 = current s then abort L M fuel en hart irqs c1 s1 else Inr (c1, s1))"

definition panic ::
  "linker \<Rightarrow> 'd soc \<Rightarrow> nat \<Rightarrow> bool \<Rightarrow> u64 \<Rightarrow> interrupt list \<Rightarrow> Location option \<Rightarrow> u8 list \<Rightarrow> hart \<Rightarrow>
   ('d, 'z) trap_state_scheme \<Rightarrow> (hart \<times> ('d, 'z) trap_state_scheme) res"
where
  "panic L M fuel en hart irqs l msg c s =
     bind_res (println M fuel (panic_text l msg) s) (\<lambda>s1. abort L M fuel en hart irqs c s1)"

section \<open>Interrupts in the loop\<close>

lemma abort_masked: "abort L M fuel False hart irqs c s = Inr (c, s)"
  by (induction irqs) (simp_all add: wfi_def)

definition timer_irq :: "interrupt \<Rightarrow> bool" where
  "timer_irq i \<longleftrightarrow> (case i of (tval, cause, status) \<Rightarrow> timer_cause cause)"

definition other_irq :: "interrupt \<Rightarrow> bool" where
  "other_irq i \<longleftrightarrow> (case i of (tval, cause, status) \<Rightarrow> drop_bit 63 cause AND 1 = 1 \<and> \<not> timer_cause cause)"

text \<open>Interrupts other than the timer's return to where they came from.\<close>

lemma other_irq_returns:
  assumes inv: "trap_inv s" and irq: "other_irq i" and w: "wfi L M fuel True hart i c s = Inr (c', s')"
  shows "trap_inv s' \<and> current s' = current s \<and> snd c' = snd c \<and> (\<forall>j. current s \<noteq> Some j \<longrightarrow> proc_at s' j = proc_at s j)"
proof -
  obtain tval cause status where i: "i = (tval, cause, status)" by (cases i)
  then have t: "take_trap L M fuel tval cause hart status c s = Inr (c', s')"
    and cause: "drop_bit 63 cause AND 1 = 1" "cause AND 0xfff \<noteq> 7"
    using w irq by (simp_all add: wfi_def other_irq_def timer_cause_def)
  obtain f where f: "frame_of (mscratch s) s = Some f" using t by (auto simp: take_trap_def split: option.splits)
  let ?s = "set_frame (mscratch s) (save_ctx (fst c) f) s"
  obtain npc f' where m: "m_trap L M fuel (snd c) tval cause hart status (mscratch s) ?s = Inr (npc, s')" "c' = (load_ctx f', npc)"
    using t f by (auto simp: take_trap_def bind_res_Inr_iff split: option.splits)
  have len: "length (regs (save_ctx (fst c) f)) = 32" by (simp add: save_ctx_def)
  have "npc = snd c \<and> trap_view s' = trap_view ?s"
    using m(1) cause unfolding m_trap_def Let_def
    by (auto split: if_splits simp: bind_res_Inr_iff dest: println_view handle_external_view)
  then have "snd c' = snd c" and tv: "trap_view s' = trap_view ?s" using m(2) by simp_all
  moreover have "current s' = current s" using trap_view_eqs(2) [OF tv] set_frame_current(2) [OF inv len] by simp
  ultimately show ?thesis using take_trap_switched(1,2) [OF inv t] by blast
qed

lemma abort_others:
  assumes "trap_inv s" "\<forall>i \<in> set irqs. other_irq i" "abort L M fuel True hart irqs c s = Inr (c', s')"
  shows "trap_inv s' \<and> current s' = current s \<and> snd c' = snd c \<and>
     (\<forall>j. current s \<noteq> Some j \<longrightarrow> proc_at s' j = proc_at s j) \<and>
     (\<forall>more. abort L M fuel True hart (irqs @ more) c s = abort L M fuel True hart more c' s')"
  using assms
proof (induction irqs arbitrary: c s)
  case (Cons i irqs)
  obtain c1 s1 where w: "wfi L M fuel True hart i c s = Inr (c1, s1)"
    using Cons.prems(3) by (auto simp: bind_res_Inr_iff)
  have 1: "trap_inv s1 \<and> current s1 = current s \<and> snd c1 = snd c \<and> (\<forall>j. current s \<noteq> Some j \<longrightarrow> proc_at s1 j = proc_at s j)"
    using other_irq_returns [OF Cons.prems(1) _ w] Cons.prems(2) by simp
  with Cons.IH [of s1 c1] Cons.prems(2,3) w show ?case by simp
qed simp

text \<open>The timer's interrupt, for a process that has another one beside it.\<close>

lemma timer_irq_leaves:
  assumes inv: "trap_inv s" "current s = Some i" and other: "proc_at s j \<noteq> None" "j \<noteq> i"
    and clk: "clock_ok M (hw s)" and irq: "timer_irq t"
  obtains c' s' m q p where "wfi L M fuel True hart t c s = Inr (c', s')" "m < 15"
    "\<forall>l < m. proc_at s ((i + 1 + l) mod 16) = None" "proc_at s ((i + 1 + m) mod 16) = Some q"
    "(i + 1 + m) mod 16 \<noteq> i" "current s' = Some ((i + 1 + m) mod 16)" "c' = (load_ctx (frame q), pc q)"
    "proc_at s' i = Some p" "state p = Running" "pc p = snd c"
proof -
  obtain tval cause status where t: "t = (tval, cause, status)" by (cases t)
  then have cause: "drop_bit 63 cause AND 1 = 1" "cause AND 0xfff = 7" using irq by (simp_all add: timer_irq_def timer_cause_def)
  obtain c' s' m k where tr: "take_trap L M fuel tval cause hart status c s = Inr (c', s')" "trap_inv s'"
    and m: "m < 16" "k = (search_start s + m) mod 16" "\<forall>l < m. proc_at s ((search_start s + l) mod 16) = None" "current s' = Some k"
    and q: "current s \<noteq> Some k \<longrightarrow> (\<exists>q. proc_at s k = Some q \<and> c' = (load_ctx (frame q), pc q))"
    using timer_trap_picks [OF inv(1) cause clk other(1)] by metis
  have i: "i < 16" "j < 16" using inv other(1) by (auto simp: trap_inv_def procs_ok_def table_ok_def proc_at_def split: if_splits)
  have at: "(search_start s + l) mod 16 = (i + 1 + l) mod 16" for l
    using inv(2) by (simp add: search_start_def mod_simps)
  have "\<exists>l < 15. (i + 1 + l) mod 16 = j"
    using i other(2) by (intro exI [of _ "(j + 15 - i) mod 16"]) (auto simp: mod_if)
  then have "m < 15" using m(3) other(1) unfolding at by (metis less_trans linorder_neqE_nat)
  moreover from this have "(i + 1 + m) mod 16 \<noteq> i" using i(1) by (auto simp: mod_if split: if_splits)
  moreover from this obtain q where "proc_at s k = Some q" "c' = (load_ctx (frame q), pc q)"
    using m(2) q inv(2) unfolding at by auto
  moreover obtain p where "proc_at s' i = Some p" "pc p = snd c" using timer_trap(1) [OF inv(1) cause inv(2) tr(1)] by blast
  moreover from this have "state p = Running" using tr(2) by (simp add: trap_inv_def procs_ok_def)
  ultimately show thesis using that [of c' s' m q p] tr(1) m(2-4) unfolding at t wfi_def by simp
qed

section \<open>Properties\<close>

text \<open>
  C8: A panic is reported and contained. When the code of a process panics, the handler prints
  where and why, and the hart waits in \<open>abort\<close>. Where interrupts are masked that is a permanent
  stop. In the code of a process it is not: interrupts of other sources, as long as they are
  served, return into the loop, and the first timer interrupt leaves it for the first other
  process in cyclic order after this one, at its saved registers and program counter. The process
  that panicked stays in the table as running, to be resumed inside the loop.
\<close>

theorem panic_contained:
  assumes inv: "trap_inv s" "current s = Some i" and other: "proc_at s j \<noteq> None" "j \<noteq> i"
    and con: "uart_device M UART_BASE uv P" "P < fuel" and clk: "\<And>d. clock_ok M d"
  shows "\<exists>s1. panic L M fuel True hart [] l msg c s = Inr (c, s1) \<and>
     sent (uv (hw s1)) = sent (uv (hw s)) @ panic_text l msg @ [13, 10] \<and>
     (\<forall>irqs. panic L M fuel False hart irqs l msg c s = Inr (c, s1)) \<and>
     (\<forall>irqs t more c2 s2. (\<forall>x \<in> set irqs. other_irq x) \<longrightarrow> abort L M fuel True hart irqs c s1 = Inr (c2, s2) \<longrightarrow> timer_irq t \<longrightarrow>
       (\<exists>c' s' m q. panic L M fuel True hart (irqs @ t # more) l msg c s = Inr (c', s') \<and> m < 15 \<and>
          (\<forall>n < m. proc_at s ((i + 1 + n) mod 16) = None) \<and> proc_at s ((i + 1 + m) mod 16) = Some q \<and>
          current s' = Some ((i + 1 + m) mod 16) \<and> c' = (load_ctx (frame q), pc q) \<and>
          (\<exists>p. proc_at s' i = Some p \<and> state p = Running \<and> pc p = snd c)))"
proof -
  obtain d where d: "println M fuel (panic_text l msg) s = Inr (s\<lparr>hw := d\<rparr>)"
    "sent (uv d) = sent (uv (hw s)) @ panic_text l msg @ [13, 10]"
    using println_sends [OF con] by blast
  let ?s = "s\<lparr>hw := d\<rparr>"
  have view: "trap_view ?s = trap_view s" by (simp add: trap_view_def)
  note v = trap_view_eqs [OF view]
  have inv1: "trap_inv ?s" "current ?s = Some i" using inv v by simp_all
  have run: "panic L M fuel en hart irqs l msg c s = abort L M fuel en hart irqs c ?s" for en irqs
    using d(1) by (simp add: panic_def)
  have "\<exists>c' s' m q. panic L M fuel True hart (irqs @ t # more) l msg c s = Inr (c', s') \<and> m < 15 \<and>
      (\<forall>n < m. proc_at s ((i + 1 + n) mod 16) = None) \<and> proc_at s ((i + 1 + m) mod 16) = Some q \<and>
      current s' = Some ((i + 1 + m) mod 16) \<and> c' = (load_ctx (frame q), pc q) \<and>
      (\<exists>p. proc_at s' i = Some p \<and> state p = Running \<and> pc p = snd c)"
    if irqs: "\<forall>x \<in> set irqs. other_irq x" and ab: "abort L M fuel True hart irqs c ?s = Inr (c2, s2)" and t: "timer_irq t" for irqs t more c2 s2
  proof -
    have s2: "trap_inv s2" "current s2 = Some i" "snd c2 = snd c" "\<And>n. n \<noteq> i \<Longrightarrow> proc_at s2 n = proc_at s n"
      "panic L M fuel True hart (irqs @ t # more) l msg c s = abort L M fuel True hart (t # more) c2 s2"
      using abort_others [OF inv1(1) irqs ab] inv1(2) v(3) run by auto
    have "proc_at s2 j \<noteq> None" using s2(4) other by simp
    from s2(1,2) this other(2) clk t
    obtain c' s' m q p where l: "wfi L M fuel True hart t c2 s2 = Inr (c', s')" "m < 15" "\<forall>n < m. proc_at s2 ((i + 1 + n) mod 16) = None"
      "proc_at s2 ((i + 1 + m) mod 16) = Some q" "(i + 1 + m) mod 16 \<noteq> i" "current s' = Some ((i + 1 + m) mod 16)"
      "c' = (load_ctx (frame q), pc q)" "proc_at s' i = Some p" "state p = Running" "pc p = snd c2"
      by (rule timer_irq_leaves)
    have "proc_at s ((i + 1 + n) mod 16) = None" if "n < m" for n
    proof -
      have "i < 16" using inv by (auto simp: trap_inv_def procs_ok_def table_ok_def)
      then have "(i + 1 + n) mod 16 \<noteq> i" using that l(2) by (auto simp: mod_if split: if_splits)
      then show ?thesis using l(3) that s2(4) by metis
    qed
    then show ?thesis using l s2 by (intro exI [of _ c'] exI [of _ s'] exI [of _ m] exI [of _ q]) simp
  qed
  then show ?thesis using d(2) by (intro exI [of _ ?s]) (simp add: run abort_masked)
qed

text \<open>Two processes; the one in slot 0 panics at its third line.\<close>

definition panic_machine :: "uview trap_state" where
  "panic_machine =
     \<lparr>mem = (\<lambda>_. 0), ALLOC_START = 0x2000,
      slots = Some (new_process 0x9000 0x80001000 0x4000 1) # Some (new_process 0x9000 0x80002000 0x6000 2) # replicate 14 None,
      current = Some 0, NEXT_PID = 3, BLOCK_DEVICES = [], VIRTIO_DEVICES = [], ACCESS_FAULT_SEEN = False,
      hw = \<lparr>sent = [], rx = [], busy = 0\<rparr>, TRAP_STACK_TOP = 0x9000, TRAP_FRAME = TrapFrame_empty, ESC_STATE = Idle,
      mscratch = SlotFrame 0, mtvec = m_trap_vector, mie = 0\<rparr>"

lemma panic_machine_inv: "trap_inv panic_machine"
proof -
  have "p = new_process 0x9000 0x80001000 0x4000 1 \<or> p = new_process 0x9000 0x80002000 0x6000 2" if "proc_at panic_machine i = Some p" for i p
    using that by (auto simp: proc_at_def panic_machine_def nth_Cons' split: if_splits)
  then have "state p = Running \<and> length (regs (frame p)) = 32" if "proc_at panic_machine i = Some p" for i p
    using that by (fastforce simp: new_process_def TrapFrame_empty_def)
  then have "procs_ok panic_machine" unfolding procs_ok_def by (simp add: table_ok_def) (simp add: panic_machine_def)
  then show ?thesis by (simp add: trap_inv_def) (simp add: panic_machine_def proc_at_def TrapFrame_empty_def)
qed

theorem panic_contained_witness:
  "\<exists>s1 c' s'. panic blk_layout demo_chip 3 True 0 [] (Some \<lparr>loc_name = ''src/init.rs'', loc_line = 3, loc_col = 5\<rparr>) (bytes ''boom'')
       (\<lambda>_. 0, 0x80001234) panic_machine = Inr ((\<lambda>_. 0, 0x80001234), s1) \<and>
     sent (hw s1) = bytes ''kernel panic at src/init.rs:3:5: boom'' @ [13, 10] \<and>
     panic blk_layout demo_chip 3 True 0 [(0, 0x8000000000000007, 0)] (Some \<lparr>loc_name = ''src/init.rs'', loc_line = 3, loc_col = 5\<rparr>)
       (bytes ''boom'') (\<lambda>_. 0, 0x80001234) panic_machine = Inr (c', s') \<and> snd c' = 0x80002000"
proof -
  let ?l = "\<lparr>loc_name = ''src/init.rs'', loc_line = 3, loc_col = 5\<rparr>" and ?c = "(\<lambda>_. 0, 0x80001234) :: hart"
  let ?p = "\<lambda>irqs. panic blk_layout demo_chip 3 True 0 irqs (Some ?l) (bytes ''boom'') ?c panic_machine"
  have clk: "clock_ok demo_chip d" for d by (simp add: clock_ok_def demo_chip_def TIMER_TICK_def)
  have cur: "current panic_machine = Some 0" and one: "proc_at panic_machine 1 \<noteq> None"
    by (simp_all add: panic_machine_def proc_at_def)
  have two: "pc q = 0x80002000" if "proc_at panic_machine k = Some q" "k \<noteq> 0" for k q
    using that by (auto simp: panic_machine_def proc_at_def nth_Cons' split: if_splits)
  have msg: "panic_text (Some ?l) (bytes ''boom'') = bytes ''kernel panic at src/init.rs:3:5: boom''"
    by (simp add: panic_text_def location_text_def bytes_def dec.simps)
  have irq: "timer_irq (0, 0x8000000000000007, 0)" by (simp add: timer_irq_def timer_cause_def)
  obtain s1 where s1: "?p [] = Inr (?c, s1)"
    "sent (hw s1\<lparr>busy := min (busy (hw s1)) 2\<rparr>) = sent (hw panic_machine\<lparr>busy := min (busy (hw panic_machine)) 2\<rparr>) @
       panic_text (Some ?l) (bytes ''boom'') @ [13, 10]"
    and all: "\<forall>irqs t more c2 s2. (\<forall>x \<in> set irqs. other_irq x) \<longrightarrow> abort blk_layout demo_chip 3 True 0 irqs ?c s1 = Inr (c2, s2) \<longrightarrow>
      timer_irq t \<longrightarrow> (\<exists>c' s' m q. ?p (irqs @ t # more) = Inr (c', s') \<and> m < 15 \<and>
        (\<forall>n < m. proc_at panic_machine ((0 + 1 + n) mod 16) = None) \<and> proc_at panic_machine ((0 + 1 + m) mod 16) = Some q \<and>
        current s' = Some ((0 + 1 + m) mod 16) \<and> c' = (load_ctx (frame q), pc q) \<and>
        (\<exists>p. proc_at s' 0 = Some p \<and> state p = Running \<and> pc p = snd ?c))"
    using panic_contained [OF panic_machine_inv cur one _ demo_chip_uart, of 3 blk_layout 0 "Some ?l" "bytes ''boom''" ?c] clk by auto
  obtain c' s' m q where "?p ([] @ [(0, 0x8000000000000007, 0)]) = Inr (c', s')" "m < 15" "proc_at panic_machine ((0 + 1 + m) mod 16) = Some q"
    "c' = (load_ctx (frame q), pc q)"
    using all [rule_format, of "[]" ?c s1 "(0, 0x8000000000000007, 0)" "[]"] irq by auto
  moreover from this have "(0 + 1 + m) mod 16 \<noteq> 0" by (simp add: mod_if)
  ultimately show ?thesis using s1 two unfolding msg by (auto simp: panic_machine_def)
qed

end
