(* ===== verification/Board.thy ===== *)
theory Board
  imports Boot SyscallProps Panic
begin

text \<open>
  A board with a serial port and a disk, as the self tests of the boot sequence use it: they print
  while they read the disk through scratch pages. The two devices share the hardware;
  \<open>uart_apart\<close> and \<open>disk_apart\<close> say that they do not disturb each other. \<open>told W txt s s'\<close> is a
  step that prints \<open>txt\<close> and, but for the addresses in \<open>W\<close>, leaves everything else as it was.
\<close>

section \<open>The console as a view\<close>

definition uart_apart :: "'d soc \<Rightarrow> ('d \<Rightarrow> uview) \<Rightarrow> bool" where
  "uart_apart M uv \<longleftrightarrow>
     (\<forall>a v d. a < UART_BASE \<or> UART_BASE + 8 \<le> a \<longrightarrow> sent (uv (snd (wr32 M a v d))) = sent (uv d)) \<and>
     (\<forall>m d. sent (uv (snd (dma M m d))) = sent (uv d))"

definition disk_apart :: "'d soc \<Rightarrow> ('d \<Rightarrow> 'v) \<Rightarrow> bool" where
  "disk_apart M view \<longleftrightarrow>
     (\<forall>a d. UART_BASE \<le> a \<and> a < UART_BASE + 8 \<longrightarrow>
        view (snd (rd8 M a d)) = view d \<and> (\<forall>b. view (wr8 M a b d) = view d))"

definition devices_apart :: "nat list \<Rightarrow> bool" where
  "devices_apart as \<longleftrightarrow> length as = 8 \<and> (\<forall>a \<in> set as. a = 0 \<or> MMIO_VIRTIO_START \<le> a)"

text \<open>Nothing is promised where a device of the table overlaps the serial port.\<close>

definition console_view :: "('d \<Rightarrow> uview) \<Rightarrow> ('d, 'z) vio_state_scheme \<Rightarrow> nat list \<times> u8 list option" where
  "console_view uv s =
     (let as = map dev (BLOCK_DEVICES s) in (as, if devices_apart as then Some (sent (uv (hw s))) else None))"

lemma console_view_eq:
  assumes "map dev (BLOCK_DEVICES s') = map dev (BLOCK_DEVICES s)"
    "devices_apart (map dev (BLOCK_DEVICES s)) \<Longrightarrow> sent (uv (hw s')) = sent (uv (hw s))"
  shows "console_view uv s' = console_view uv s"
  using assms by (simp add: console_view_def Let_def)

lemma console_driver_view:
  assumes "uart_apart M uv"
  shows "driver_view (console_view uv) (bus.truncate M)"
proof
  show "console_view uv (s\<lparr>mem := m\<rparr>) = console_view uv s" for m and s :: "('a, 'b) vio_state_scheme"
    by (rule console_view_eq) simp_all
  show "console_view uv (set_dev i bd s) = console_view uv s" if "dev bd = dev (BLOCK_DEVICES s ! i)"
    for bd i and s :: "('a, 'b) vio_state_scheme"
  proof (rule console_view_eq)
    show "map dev (BLOCK_DEVICES (set_dev i bd s)) = map dev (BLOCK_DEVICES s)"
      by (cases "i < length (BLOCK_DEVICES s)") (simp_all add: set_dev_def map_update that list_update_same_conv list_update_beyond)
  qed (simp add: set_dev_def)
  show "console_view uv (write_volatile32 (bus.truncate M) (dev (BLOCK_DEVICES s ! i) + 4 * scale32 QueueNotify) 0 s) = console_view uv s"
    if i: "i < MAX_VIRTIO_DEVICES" for i and s :: "('a, 'b) vio_state_scheme"
  proof (rule console_view_eq)
    let ?a = "dev (BLOCK_DEVICES s ! i) + 4 * scale32 QueueNotify"
    obtain ok d where w: "wr32 (bus.truncate M) ?a 0 (hw s) = (ok, d)" by fastforce
    then show "map dev (BLOCK_DEVICES (write_volatile32 (bus.truncate M) ?a 0 s)) = map dev (BLOCK_DEVICES s)"
      by (simp add: write_volatile32_def access_fault_trap_def)
    assume ap: "devices_apart (map dev (BLOCK_DEVICES s))"
    then have "dev (BLOCK_DEVICES s ! i) = 0 \<or> MMIO_VIRTIO_START \<le> dev (BLOCK_DEVICES s ! i)"
      using i by (auto simp: devices_apart_def MAX_VIRTIO_DEVICES_def)
    then have "?a < UART_BASE \<or> UART_BASE + 8 \<le> ?a"
      by (auto simp: scale32_def scaled_def UART_BASE_def MMIO_VIRTIO_START_def)
    moreover have "wr32 M ?a 0 (hw s) = (ok, d)" using w by (simp add: bus.truncate_def)
    ultimately have "sent (uv d) = sent (uv (hw s))" using assms unfolding uart_apart_def by (metis snd_conv)
    then show "sent (uv (hw (write_volatile32 (bus.truncate M) ?a 0 s))) = sent (uv (hw s))"
      using w by (simp add: write_volatile32_def access_fault_trap_def)
  qed
  show "console_view uv (s\<lparr>mem := m, hw := d\<rparr>) = console_view uv s" if "dma (bus.truncate M) (mem s) (hw s) = (m, d)"
    for m d and s :: "('a, 'b) vio_state_scheme"
  proof (rule console_view_eq)
    have "dma M (mem s) (hw s) = (m, d)" using that by (simp add: bus.truncate_def)
    then have "sent (uv d) = sent (uv (hw s))" using assms unfolding uart_apart_def by (metis snd_conv)
    then show "sent (uv (hw (s\<lparr>mem := m, hw := d\<rparr>))) = sent (uv (hw s))" by simp
  qed simp
qed

section \<open>Printing\<close>

text \<open>An operation that only prints \<open>txt\<close>.\<close>

definition says :: "('d \<Rightarrow> uview) \<Rightarrow> ('d \<Rightarrow> 'v) \<Rightarrow> u8 list \<Rightarrow> ('d, 'z) vio_state_scheme \<Rightarrow>
    ('d, 'z) vio_state_scheme res \<Rightarrow> bool" where
  "says uv view txt s r \<longleftrightarrow>
     (\<exists>d. r = Inr (s\<lparr>hw := d\<rparr>) \<and> sent (uv d) = sent (uv (hw s)) @ txt \<and> view d = view (hw s))"

lemma put_view:
  assumes "disk_apart M view" "put M fuel UART_BASE b d = Inr d'"
  shows "view d' = view d"
  using assms(2)
proof (induction fuel arbitrary: d)
  case (Suc n)
  obtain l d1 where l: "rd8 M (UART_BASE + 5) d = (l, d1)" by fastforce
  have "view (snd (rd8 M (UART_BASE + 5) d)) = view d" using assms(1) by (simp add: disk_apart_def)
  then have "view d1 = view d" by (simp add: l)
  moreover have "view (wr8 M UART_BASE b d1) = view d1" using assms(1) by (simp add: disk_apart_def)
  ultimately show ?case using Suc l by (auto simp: uart_read_def uart_write_def uart_consts split: if_splits)
qed simp

lemma says_print:
  assumes "uart_device M UART_BASE uv P" "P < fuel" "disk_apart M view"
  shows "says uv view bs s (print M fuel bs s)"
proof -
  obtain d where d: "write_str M fuel UART_BASE bs (hw s) = Inr d" "sent (uv d) = sent (uv (hw s)) @ bs"
    using write_str_step [OF assms(1,2)] by blast
  have "fold_res (put M fuel UART_BASE) xs e = Inr e' \<Longrightarrow> view e' = view e" for xs e e'
    by (induction xs arbitrary: e) (auto simp: bind_res_Inr_iff dest: put_view [OF assms(3)])
  then have "view d = view (hw s)" using d(1) by (simp add: write_str_def)
  with d show ?thesis by (auto simp: says_def print_def console_writer_def)
qed

lemma says_println:
  assumes "uart_device M UART_BASE uv P" "P < fuel" "disk_apart M view"
  shows "says uv view (bs @ [13, 10]) s (println M fuel bs s)"
  unfolding println_def by (rule says_print [OF assms])

lemma says_nil: "says uv view [] s (Inr s)"
  by (auto simp: says_def intro: exI [of _ "hw s"])

lemma says_bind:
  assumes r: "says uv view xs s r" and k: "\<And>d. says uv view ys (s\<lparr>hw := d\<rparr>) (k (s\<lparr>hw := d\<rparr>))"
  shows "says uv view (xs @ ys) s (bind_res r k)"
proof -
  obtain d where d: "r = Inr (s\<lparr>hw := d\<rparr>)" "sent (uv d) = sent (uv (hw s)) @ xs" "view d = view (hw s)"
    using r by (auto simp: says_def)
  obtain e where "k (s\<lparr>hw := d\<rparr>) = Inr (s\<lparr>hw := e\<rparr>)" "sent (uv e) = sent (uv d) @ ys" "view e = view d"
    using k [of d] by (auto simp: says_def)
  with d show ?thesis by (auto simp: says_def)
qed

lemma says_fold:
  assumes "\<And>x d. x \<in> set xs \<Longrightarrow> says uv view (g x) (s\<lparr>hw := d\<rparr>) (f x (s\<lparr>hw := d\<rparr>))"
  shows "says uv view (concat (map g xs)) s (fold_res f xs s)"
  using assms
proof (induction xs arbitrary: s)
  case Nil
  show ?case by (simp add: says_nil)
next
  case (Cons x xs)
  have "says uv view (g x @ concat (map g xs)) s (bind_res (f x s) (fold_res f xs))"
  proof (rule says_bind)
    show "says uv view (g x) s (f x s)" using Cons.prems [of x "hw s"] by simp
    show "says uv view (concat (map g xs)) (s\<lparr>hw := d\<rparr>) (fold_res f xs (s\<lparr>hw := d\<rparr>))" for d
      using Cons.IH [of "s\<lparr>hw := d\<rparr>"] Cons.prems by simp
  qed
  then show ?case by simp
qed

section \<open>Steps on the board\<close>

text \<open>A ready block device in slot \<open>i\<close> and a serial port, with fuel for both.\<close>

definition board :: "linker \<Rightarrow> 'd soc \<Rightarrow> nat \<Rightarrow> nat \<Rightarrow> ('d \<Rightarrow> dview option) \<Rightarrow> ('d \<Rightarrow> nat) \<Rightarrow> nat \<Rightarrow>
    ('d \<Rightarrow> uview) \<Rightarrow> nat \<Rightarrow> ('d, 'z) vio_state_scheme \<Rightarrow> bool" where
  "board L M fuel i view rank N uv P s \<longleftrightarrow>
     blk_ready L (bus.truncate M) fuel i view rank N s \<and> uart_device M UART_BASE uv P \<and> P < fuel \<and>
     uart_apart M uv \<and> disk_apart M view \<and> devices_apart (map dev (BLOCK_DEVICES s))"

definition kernel_view :: "('d, 'z) vio_state_scheme \<Rightarrow> _" where
  "kernel_view s = (map dev (BLOCK_DEVICES s), proc_view s)"

definition told :: "linker \<Rightarrow> 'd soc \<Rightarrow> nat \<Rightarrow> nat \<Rightarrow> ('d \<Rightarrow> dview option) \<Rightarrow> ('d \<Rightarrow> nat) \<Rightarrow> nat \<Rightarrow>
    ('d \<Rightarrow> uview) \<Rightarrow> nat set \<Rightarrow> u8 list \<Rightarrow> ('d, 'z) vio_state_scheme \<Rightarrow> ('d, 'z) vio_state_scheme \<Rightarrow> bool" where
  "told L M fuel i view rank N uv W txt s s' \<longleftrightarrow>
     fs_step L (blk_ready L (bus.truncate M) fuel i view rank N) (disk_of view) (\<lambda>s. (queue_at s i, 2)) W s s' \<and>
     kernel_view s' = kernel_view s \<and> sent (uv (hw s')) = sent (uv (hw s)) @ txt"

lemma told_trans:
  assumes "told L M fuel i view rank N uv W xs s t" "told L M fuel i view rank N uv W ys t u"
  shows "told L M fuel i view rank N uv W (xs @ ys) s u"
  using assms fs_step_trans by (fastforce simp: told_def)

lemma told_keeps:
  assumes "told L M fuel i view rank N uv W txt s t"
  shows "disk_of view t = disk_of view s" "held L t = held L s" "low_free L t = low_free L s" "queue_at t i = queue_at s i"
    "kernel_view t = kernel_view s" "descriptors L t = descriptors L s" "ALLOC_START t = ALLOC_START s"
proof -
  have st: "fs_step L (blk_ready L (bus.truncate M) fuel i view rank N) (disk_of view) (\<lambda>s. (queue_at s i, 2)) W s t"
    and "kernel_view t = kernel_view s" using assms by (simp_all add: told_def)
  then show "disk_of view t = disk_of view s" "held L t = held L s" "low_free L t = low_free L s" "queue_at t i = queue_at s i"
    "kernel_view t = kernel_view s" "descriptors L t = descriptors L s" "ALLOC_START t = ALLOC_START s"
    using fs_step_held [OF st] fs_step_low_free [OF st] by (simp_all add: fs_step_def)
qed

lemma told_board: "board L M fuel i view rank N uv P s \<Longrightarrow> told L M fuel i view rank N uv W txt s t \<Longrightarrow>
    board L M fuel i view rank N uv P t"
  by (auto simp: board_def told_def kernel_view_def) (simp add: fs_step_def)

lemma says_told:
  assumes b: "board L M fuel i view rank N uv P s" and r: "says uv view txt s r"
  obtains t where "r = Inr t" "told L M fuel i view rank N uv W txt s t" "mem t = mem s"
proof -
  obtain d where d: "r = Inr (s\<lparr>hw := d\<rparr>)" "sent (uv d) = sent (uv (hw s)) @ txt" "view d = view (hw s)"
    using r by (auto simp: says_def)
  let ?t = "s\<lparr>hw := d\<rparr>"
  have ds: "descriptors L ?t = descriptors L s" by (simp add: descriptors_def)
  have "drv_ok L i view ?t" using b d(3)
    by (simp add: board_def blk_ready_def drv_ok_def queue_at_def frames_inv_def held_def ds)
  then have "told L M fuel i view rank N uv W txt s ?t" using b d(2,3)
    by (simp add: told_def fs_step_def board_def blk_ready_def disk_of_def queue_at_def ds kernel_view_def)
  with that d(1) show thesis by simp
qed

lemma println_told:
  assumes b: "board L M fuel i view rank N uv P s"
  obtains t where "println M fuel bs s = Inr t" "told L M fuel i view rank N uv W (bs @ [13, 10]) s t" "mem t = mem s"
    "board L M fuel i view rank N uv P t"
proof -
  have "says uv view (bs @ [13, 10]) s (println M fuel bs s)" using b by (intro says_println [of _ _ P]) (simp_all add: board_def)
  then obtain t where t: "println M fuel bs s = Inr t" "told L M fuel i view rank N uv W (bs @ [13, 10]) s t" "mem t = mem s"
    by (rule says_told [OF b])
  show thesis by (rule that [OF t told_board [OF b t(2)]])
qed

section \<open>The driver on the board\<close>

definition board_view :: "('d \<Rightarrow> uview) \<Rightarrow> ('d, 'z) vio_state_scheme \<Rightarrow> _" where
  "board_view uv s = (console_view uv s, proc_view s)"

lemma driver_view_pair:
  assumes "driver_view v B" "driver_view w B"
  shows "driver_view (\<lambda>s. (v s, w s)) B"
  using assms unfolding driver_view_def driver_view_axioms_def mem_blind_def by (simp only:) blast

lemma board_driver_view:
  assumes "uart_apart M uv"
  shows "driver_view (board_view uv :: ('d, 'z) vio_state_scheme \<Rightarrow> _) (bus.truncate M)"
proof -
  have "driver_view (proc_view :: ('d, 'z) vio_state_scheme \<Rightarrow> _) (bus.truncate M)" by unfold_locales simp_all
  then show ?thesis unfolding board_view_def
    by (intro driver_view_pair console_driver_view [OF assms])
qed

text \<open>A step of the driver or the filesystem prints nothing.\<close>

lemma driver_told:
  assumes b: "board L M fuel i view rank N uv P s"
    and st: "fs_step L (blk_ready L (bus.truncate M) fuel i view rank N) (disk_of view) (\<lambda>s. (queue_at s i, 2)) W s s'"
    and v: "board_view uv s' = board_view uv s"
  shows "told L M fuel i view rank N uv W [] s s'"
proof -
  have "console_view uv s' = console_view uv s" "proc_view s' = proc_view s"
    using v by (simp_all add: board_view_def)
  with b st show ?thesis by (simp add: told_def board_def kernel_view_def console_view_def Let_def split: if_splits)
qed

lemma board_reader:
  assumes "board L M fuel i view rank N uv P (s :: ('d, 'z) vio_state_scheme)"
  shows "quiet_reader (board_view uv :: ('d, 'z) vio_state_scheme \<Rightarrow> _) (block_read L (bus.truncate M) fuel i)"
proof -
  let ?v = "board_view uv :: ('d, 'z) vio_state_scheme \<Rightarrow> _"
  have v: "driver_view ?v (bus.truncate M)" using assms by (intro board_driver_view) (simp add: board_def)
  then have "mem_blind ?v" by (simp add: driver_view_def)
  then show ?thesis using driver_view.block_op_keeps [OF v] by (simp add: quiet_reader_def quiet_reader_axioms_def block_read_def)
qed

lemma block_read_told:
  assumes b: "board L M fuel i view rank N uv P s" "0 < low_free L s" and ws: "whole_sectors (unat sz)"
    and r: "r \<in> held L s" "r \<noteq> (queue_at s i, 2)" "covers r buf (unat sz)"
    and fits: "fits = (unat pos div 512 * 512 + unat sz \<le> length (disk_of view s))"
  shows "\<exists>s'. block_read L (bus.truncate M) fuel i buf sz pos s = Inr (fits, s') \<and>
     told L M fuel i view rank N uv {buf..<buf + unat sz} [] s s' \<and>
     (fits \<longrightarrow> rd_bytes (mem s') buf (unat sz) = take (unat sz) (drop (unat pos div 512 * 512) (disk_of view s)))"
proof -
  have ready: "blk_ready L (bus.truncate M) fuel i view rank N s" using b(1) by (simp add: board_def)
  obtain s' where s': "block_read L (bus.truncate M) fuel i buf sz pos s = Inr (fits, s')"
    "fs_step L (blk_ready L (bus.truncate M) fuel i view rank N) (disk_of view) (\<lambda>s. (queue_at s i, 2)) {buf..<buf + unat sz} s s'"
    "fits \<longrightarrow> rd_bytes (mem s') buf (unat sz) = take (unat sz) (drop (unat pos div 512 * 512) (disk_of view s))"
    using blk.read_law [OF ready ws r b(2) fits] by blast
  have "board_view uv s' = board_view uv s"
    using quiet_reader.rd_keeps [OF board_reader [OF b(1)], of buf sz pos s] s'(1) by (simp add: keeps_def)
  with driver_told [OF b(1) s'(2)] s' show ?thesis by blast
qed

lemma mount_told:
  assumes b: "board L M fuel i view rank N uv P s" "1 < low_free L s"
    and sb: "b = read_SuperBlock (\<lambda>k. disk_of view s ! k) 1024"
    and y: "y = (if length (disk_of view s) < 2048 then Inl BlockReadFailed
                 else if SuperBlock.magic b \<noteq> MINIX_MAGIC then Inl FsError.BadMagic else Inr \<lparr>fs_dev = i, sb = b\<rparr>)"
  shows "\<exists>s'. mount L (bus.truncate M) fuel i s = Inr (y, s') \<and> told L M fuel i view rank N uv {} [] s s'"
proof -
  have ready: "blk_ready L (bus.truncate M) fuel i view rank N s" using b(1) by (simp add: board_def)
  obtain s' where s': "mount L (bus.truncate M) fuel i s = Inr (y, s')"
    "fs_step L (blk_ready L (bus.truncate M) fuel i view rank N) (disk_of view) (\<lambda>s. (queue_at s i, 2)) {} s s'"
    using blk.mount_run [OF ready b(2) sb y] by (auto simp: mount_def)
  have "board_view uv s' = board_view uv s"
    using quiet_reader.mount_keeps [OF board_reader [OF b(1)], of L i s] s'(1) by (simp add: keeps_def mount_def)
  with driver_told [OF b(1) s'(2)] s' show ?thesis by blast
qed

lemma read_inode_told:
  assumes b: "board L M fuel i view rank N uv P s" "1 < low_free L s" "fs_dev f = i"
    and a: "a = inode_table_offset f + (unat num - 1) * sizeof_Inode"
    and y: "y = (if num = 0 \<or> num > ninodes (sb f) then Inl InodeOutOfRange
                 else if length (disk_of view s) < a div 1024 * 1024 + 1024 then Inl BlockReadFailed
                 else Inr (read_Inode (\<lambda>k. disk_of view s ! k) a))"
  shows "\<exists>s'. read_inode L (bus.truncate M) fuel f num s = Inr (y, s') \<and> told L M fuel i view rank N uv {} [] s s'"
proof -
  have ready: "blk_ready L (bus.truncate M) fuel i view rank N s" using b(1) by (simp add: board_def)
  obtain s' where s': "read_inode L (bus.truncate M) fuel f num s = Inr (y, s')"
    "fs_step L (blk_ready L (bus.truncate M) fuel i view rank N) (disk_of view) (\<lambda>s. (queue_at s i, 2)) {} s s'"
    using blk.read_inode_run [OF ready b(2) a y] by (auto simp: read_inode_def b(3))
  have "board_view uv s' = board_view uv s"
    using quiet_reader.read_inode_keeps [OF board_reader [OF b(1)], of L f num s] s'(1) by (simp add: keeps_def read_inode_def b(3))
  with driver_told [OF b(1) s'(2)] s' show ?thesis by blast
qed

lemma read_file_told:
  assumes b: "board L M fuel i view rank N uv P s" "4 < low_free L s" "fs_dev f = i"
    and ro: "ro \<in> held L s" "ro \<noteq> (queue_at s i, 2)" "covers ro buf (unat sz)"
    and want: "want = wanted_count (Some node) sz pos" and nh: "no_holes (disk_of view s) (zones node) (unat pos + want)"
  shows "\<exists>s'. read_file L (bus.truncate M) fuel f node pos buf (unat sz) s = Inr (Inr want, s') \<and>
     told L M fuel i view rank N uv {buf..<buf + unat sz} [] s s' \<and>
     rd_bytes (mem s') buf want = map (file_byte (disk_of view s) (zones node)) [unat pos..<unat pos + want]"
proof -
  have ready: "blk_ready L (bus.truncate M) fuel i view rank N s" using b(1) by (simp add: board_def)
  obtain s' where s': "read_file L (bus.truncate M) fuel f node pos buf (unat sz) s = Inr (Inr want, s')"
    "fs_step L (blk_ready L (bus.truncate M) fuel i view rank N) (disk_of view) (\<lambda>s. (queue_at s i, 2)) {buf..<buf + unat sz} s s'"
    "rd_bytes (mem s') buf want = map (file_byte (disk_of view s) (zones node)) [unat pos..<unat pos + want]"
    using read_file_count [OF ready b(2,3) ro want nh] by blast
  have "board_view uv s' = board_view uv s"
    using quiet_reader.read_file_keeps [OF board_reader [OF b(1)], of L node pos buf "unat sz" s] s'(1)
    by (simp add: keeps_def read_file_def b(3))
  with driver_told [OF b(1) s'(2)] s' show ?thesis by blast
qed

section \<open>Scratch pages\<close>

text \<open>\<open>s1\<close> is \<open>s\<close> with the page \<open>p\<close> taken from the allocator.\<close>

definition page_taken :: "linker \<Rightarrow> 'd soc \<Rightarrow> nat \<Rightarrow> nat \<Rightarrow> ('d \<Rightarrow> dview option) \<Rightarrow> ('d \<Rightarrow> nat) \<Rightarrow> nat \<Rightarrow>
    ('d \<Rightarrow> uview) \<Rightarrow> nat \<Rightarrow> ('d, 'z) vio_state_scheme \<Rightarrow> nat \<Rightarrow> ('d, 'z) vio_state_scheme \<Rightarrow> bool" where
  "page_taken L M fuel i view rank N uv P s p s1 \<longleftrightarrow>
     board L M fuel i view rank N uv P s1 \<and> disk_of view s1 = disk_of view s \<and> queue_at s1 i = queue_at s i \<and>
     held L s1 = insert (p, 1) (held L s) \<and> (p, 1) \<notin> held L s \<and> Suc (low_free L s1) = low_free L s \<and>
     kernel_view s1 = kernel_view s \<and> sent (uv (hw s1)) = sent (uv (hw s)) \<and> ALLOC_START s1 = ALLOC_START s \<and>
     (\<exists>j. p = ALLOC_START s + j * PAGE_SIZE \<and> window_free (descriptors L s) j 1 \<and> p < heap_end L \<and>
        descriptors L s1 = mark_run (descriptors L s) j 1) \<and>
     (\<forall>r x. r \<in> held L s \<longrightarrow> in_run r x \<longrightarrow> mem s1 x = mem s x)"

lemma kernel_view_more:
  assumes "kmem.more s' = kmem.more s"
  shows "kernel_view s' = kernel_view s" "hw s' = hw s" "BLOCK_DEVICES s' = BLOCK_DEVICES s"
  using assms by (cases s; cases s'; simp add: kernel_view_def proc_view_def)+

lemma allocate_taken:
  assumes b: "board L M fuel i view rank N uv P s" and low: "0 < low_free L s"
  shows "\<exists>p s1. allocate L 1 s = Inr (Some p, s1) \<and> page_taken L M fuel i view rank N uv P s p s1"
proof -
  have ready: "blk_ready L (bus.truncate M) fuel i view rank N s" using b by (simp add: board_def)
  note inv = blk.ready_inv [OF ready]
  obtain j where j: "allocate L 1 s = Inr (Some (ALLOC_START s + j * PAGE_SIZE), set_descriptors L (mark_run (descriptors L s) j 1) s)"
    "window_free (descriptors L s) j 1" "ALLOC_START s + j * PAGE_SIZE < heap_end L"
    by (rule low_page [OF inv low])
  let ?s1 = "set_descriptors L (mark_run (descriptors L s) j 1) s" and ?p = "ALLOC_START s + j * PAGE_SIZE"
  have len: "length (mark_run (descriptors L s) j 1) = npages L" using j(2) by (simp add: window_free_def)
  have ds: "descriptors L ?s1 = mark_run (descriptors L s) j 1" by (rule descriptors_set_descriptors [OF len])
  note al = allocate_Some [OF inv j(1)]
  have same: "mem ?s1 x = mem s x" if "r \<in> held L s" "in_run r x" for r x
    using run_off_table [OF inv that] by (rule al(7))
  have "blk_ready L (bus.truncate M) fuel i view rank N ?s1 \<and> disk_of view ?s1 = disk_of view s \<and> (queue_at ?s1 i, 2) = (queue_at s i, 2)"
    using blk.ready_frame [OF ready al(1) _ same al(6)] blk.own_held [OF ready] al(2) by simp
  moreover have "Suc (low_free L ?s1) = low_free L s"
    by (rule low_free_mark [OF inv j(2,3)]) (simp_all only: ds set_descriptors_sel)
  ultimately have "page_taken L M fuel i view rank N uv P s ?p ?s1"
    unfolding page_taken_def using b al(2,3) ds same j(2,3) kernel_view_more [OF al(6)] by (auto simp: board_def)
  with j(1) show ?thesis by blast
qed

lemma zallocate_taken:
  assumes b: "board L M fuel i view rank N uv P s" and low: "0 < low_free L s"
  shows "\<exists>p s1. zallocate L 1 s = Inr (Some p, s1) \<and> page_taken L M fuel i view rank N uv P s p s1"
proof -
  obtain p t where t: "allocate L 1 s = Inr (Some p, t)" "page_taken L M fuel i view rank N uv P s p t"
    using allocate_taken [OF b low] by blast
  note pt = t(2) [unfolded page_taken_def]
  have old: "mem t x = mem s x" if "r \<in> held L s" "in_run r x" for r x using pt that by blast
  have ready: "blk_ready L (bus.truncate M) fuel i view rank N t" using pt by (simp add: board_def)
  let ?s1 = "t\<lparr>mem := fill_bytes (mem t) p (1 * PAGE_SIZE) 0\<rparr>"
  have inv: "frames_inv L s" using b blk.ready_inv [of L "bus.truncate M" fuel i view rank N s] by (simp add: board_def)
  have z: "zallocate L 1 s = Inr (Some p, ?s1)" using zallocate_Some_iff [OF inv] t(1) by blast
  have own: "(p, 1) \<noteq> (queue_at t i, 2 :: nat)" by simp
  have st: "fs_step L (blk_ready L (bus.truncate M) fuel i view rank N) (disk_of view) (\<lambda>s. (queue_at s i, 2)) {p..<p + 4096} t ?s1"
    using blk.write_step [OF ready _ own, of p "replicate 4096 0"] pt by (simp add: fill_bytes_wr covers_def)
  have "mem ?s1 x = mem s x" if "r \<in> held L s" "in_run r x" for r x
  proof -
    have "r \<in> held L t" "(p, 1) \<in> held L t" "r \<noteq> (p, 1)" using pt that(1) by auto
    then have "\<not> in_run (p, 1) x" using runs_apart [of r L t "(p, 1)" x] that(2) by blast
    then have "x < p \<or> p + 4096 \<le> x" by (simp add: in_run_def) linarith
    then show ?thesis using old [OF that] by (simp add: fill_bytes_out)
  qed
  moreover have "held L ?s1 = held L t" "low_free L ?s1 = low_free L t" using fs_step_held [OF st] fs_step_low_free [OF st] by simp_all
  ultimately have "page_taken L M fuel i view rank N uv P s p ?s1"
    using pt st b by (simp add: page_taken_def board_def kernel_view_def fs_step_def)
  with z show ?thesis by blast
qed

lemma page_returned:
  assumes b: "board L M fuel i view rank N uv P s" and p: "page_taken L M fuel i view rank N uv P s p s1"
    and t: "told L M fuel i view rank N uv {p..<p + 4096} txt s1 s2"
  shows "\<exists>s3. deallocate L p s2 = Inr s3 \<and> told L M fuel i view rank N uv {} txt s s3"
proof -
  note pt = p [unfolded page_taken_def] and tk = told_keeps [OF t]
  have old: "mem s1 x = mem s x" if "r \<in> held L s" "in_run r x" for r x using pt that by blast
  have st: "fs_step L (blk_ready L (bus.truncate M) fuel i view rank N) (disk_of view) (\<lambda>s. (queue_at s i, 2)) {p..<p + 4096} s1 s2"
    using t by (simp add: told_def)
  have ready: "blk_ready L (bus.truncate M) fuel i view rank N s" "blk_ready L (bus.truncate M) fuel i view rank N s2"
    using b st by (simp_all add: board_def fs_step_def)
  obtain j where j: "p = ALLOC_START s + j * PAGE_SIZE" "window_free (descriptors L s) j 1" "p < heap_end L"
    "descriptors L s1 = mark_run (descriptors L s) j 1" using pt by blast
  have len: "length (mark_run (descriptors L s) j 1) = npages L" using j(2) by (simp add: window_free_def)
  let ?t = "set_descriptors L (mark_run (descriptors L s) j 1) s" and ?s3 = "set_descriptors L (descriptors L s) s2"
  have same: "mem s2 x = mem s x" if rx: "r \<in> held L s" "r \<noteq> (queue_at s i, 2)" "in_run r x" "x \<notin> {}" for r x
  proof -
    have r: "r \<in> held L s1" "(p, 1) \<in> held L s1" "r \<noteq> (p, 1)" using pt rx(1) by auto
    then have "x \<notin> {p..<p + 4096}" using runs_apart [of r L s1 "(p, 1)" x] rx(3) by (auto simp: in_run_def)
    then show ?thesis using fs_step_mem [OF st r(1) _ rx(3)] rx(2) old [OF rx(1,3)] pt by simp
  qed
  have ds: "descriptors L s2 = descriptors L ?t" unfolding descriptors_set_descriptors [OF len] using tk(6) j(4) by simp
  have "deallocate L p s2 = Inr ?s3"
    "fs_step L (blk_ready L (bus.truncate M) fuel i view rank N) (disk_of view) (\<lambda>s. (queue_at s i, 2)) {} s ?s3"
    using blk.return_buffer(1,2) [OF ready(1) j(1) refl j(2,3) ready(2) _ _ ds _ same refl] pt tk by simp_all
  moreover have "kernel_view ?s3 = kernel_view s" "sent (uv (hw ?s3)) = sent (uv (hw s)) @ txt"
    using pt t by (simp_all add: told_def kernel_view_def proc_view_def set_descriptors_vio)
  ultimately show ?thesis by (auto simp: told_def)
qed

end
