(* ===== verification/Listing.thy ===== *)
theory Listing
  imports Board
begin

text \<open>
  The directory listing of the boot sequence: filesystem, block driver, allocator and console
  together.
\<close>

section \<open>Printing the entries\<close>

definition entry_text :: "DirEntry \<Rightarrow> u8 list" where
  "entry_text de = (if de_inode de = 0 then [] else dir_line de @ [13, 10])"

text \<open>What is printed of a directory whose bytes are \<open>b 0, b 1, \<dots>\<close>: a headline and the live entries.\<close>

definition listing :: "(nat \<Rightarrow> u8) \<Rightarrow> nat \<Rightarrow> u8 list" where
  "listing b n =
     bytes ''  /  ('' @ dec (n div 64) @ bytes '' entries):'' @ [13, 10] @
     concat (map (\<lambda>i. entry_text (read_DirEntry b (i * 64))) [0..<n div 64])"

lemma entries_said:
  assumes "uart_device M UART_BASE uv P" "P < fuel" "disk_apart M view"
  shows "says uv view (concat (map (\<lambda>i. entry_text (read_DirEntry (mem s) (buf + i * 64))) xs)) s
     (fold_res (print_entry M fuel buf) xs s)"
proof (rule says_fold)
  fix x d
  show "says uv view (entry_text (read_DirEntry (mem s) (buf + x * 64))) (s\<lparr>hw := d\<rparr>) (print_entry M fuel buf x (s\<lparr>hw := d\<rparr>))"
    using says_println [OF assms] by (auto simp: print_entry_def entry_text_def DIRENT_SIZE_def Let_def says_nil simp del: append_assoc)
qed

lemma entry_of_file:
  assumes r: "rd_bytes m buf n = map b [0..<n]" and i: "i < n div 64"
  shows "read_DirEntry m (buf + i * 64) = read_DirEntry b (i * 64)"
proof -
  have at: "m (buf + k) = b k" if "k < n" for k
    using arg_cong [OF r, of "\<lambda>xs. xs ! k"] that by (simp add: rd_bytes_def)
  have "rd_bytes m (buf + i * 64 + j) l = rd_bytes b (i * 64 + j) l" if "j + l \<le> 64" for j l
    unfolding rd_bytes_def
  proof (intro map_cong refl)
    fix k assume "k \<in> set [0..<l]"
    then have "i * 64 + j + k < n" using i that by (simp add: less_eq_div_iff_mult_less_eq Suc_le_eq [symmetric])
    then show "m (buf + i * 64 + j + k) = b (i * 64 + j + k)" using at [of "i * 64 + j + k"] by (simp add: add.assoc)
  qed
  from this [of 0 4] this [of 4 60] show ?thesis by (simp add: read_DirEntry_def ld32_def MAX_NAME_LEN_def)
qed

section \<open>The listing\<close>

lemma list_dir_told:
  assumes b: "board L M fuel i view rank N uv P s" "5 < low_free L s" "fs_dev f = i"
    and want: "want = min 1024 (unat (isize dir))" and nh: "no_holes (disk_of view s) (zones dir) want"
  shows "\<exists>s'. list_dir L M fuel f dir s = Inr s' \<and>
     told L M fuel i view rank N uv {} (listing (file_byte (disk_of view s) (zones dir)) want) s s'"
proof -
  let ?B = "bus.truncate M" and ?told = "told L M fuel i view rank N uv"
  have low: "0 < low_free L s" using b(2) by simp
  obtain p s1 where s1: "zallocate L 1 s = Inr (Some p, s1)" "page_taken L M fuel i view rank N uv P s p s1"
    using zallocate_taken [OF b(1) low] by blast
  note pt = s1(2) [unfolded page_taken_def]
  have b1: "board L M fuel i view rank N uv P s1" "disk_of view s1 = disk_of view s" using pt by simp_all
  have r1: "4 < low_free L s1" "(p, 1) \<in> held L s1" "(p, 1) \<noteq> (queue_at s1 i, 2 :: nat)" "covers (p, 1) p (unat (1024 :: u32))"
    using pt b(2) by (simp_all add: covers_def)
  have w: "want = wanted_count (Some dir) 1024 0" by (simp add: want wanted_count_def word_less_nat_alt)
  obtain s2 where s2: "read_file L ?B fuel f dir 0 p (unat (1024 :: u32)) s1 = Inr (Inr want, s2)"
    "?told {p..<p + unat (1024 :: u32)} [] s1 s2"
    "rd_bytes (mem s2) p want = map (file_byte (disk_of view s1) (zones dir)) [unat (0 :: u32)..<unat (0 :: u32) + want]"
    using read_file_told [OF b1(1) r1(1) b(3) r1(2-4) w] nh b1(2) by auto
  have t2: "?told {p..<p + 4096} [] s1 s2" using s2(2) fs_step_mono by (fastforce simp: told_def)
  have b2: "board L M fuel i view rank N uv P s2" by (rule told_board [OF b1(1) t2])
  let ?head = "bytes ''  /  ('' @ dec (want div 64) @ bytes '' entries):''"
    and ?ents = "concat (map (\<lambda>k. entry_text (read_DirEntry (mem s2) (p + k * 64))) [0..<want div 64])"
  have hw: "uart_device M UART_BASE uv P" "P < fuel" "disk_apart M view" using b(1) by (simp_all add: board_def)
  have "says uv view ((?head @ [13, 10]) @ ?ents) s2 (bind_res (println M fuel ?head s2) (fold_res (print_entry M fuel p) [0..<want div 64]))"
    by (rule says_bind [OF says_println [OF hw]]) (use entries_said [OF hw, where s = "s2\<lparr>hw := _\<rparr>"] in simp)
  then obtain s3 where s3: "bind_res (println M fuel ?head s2) (fold_res (print_entry M fuel p) [0..<want div 64]) = Inr s3"
    "?told {p..<p + 4096} ((?head @ [13, 10]) @ ?ents) s2 s3"
    by (rule says_told [OF b2])
  obtain s' where s': "deallocate L p s3 = Inr s'" "?told {} ([] @ (?head @ [13, 10]) @ ?ents) s s'"
    using page_returned [OF b(1) s1(2) told_trans [OF t2 s3(2)]] by blast
  have img: "rd_bytes (mem s2) p want = map (file_byte (disk_of view s) (zones dir)) [0..<want]" using s2(3) b1(2) by simp
  have "?ents = concat (map (\<lambda>k. entry_text (read_DirEntry (file_byte (disk_of view s) (zones dir)) (k * 64))) [0..<want div 64])"
    by (rule arg_cong [where f = concat]) (use entry_of_file [OF img] in simp)
  then have "[] @ (?head @ [13, 10]) @ ?ents = listing (file_byte (disk_of view s) (zones dir)) want"
    by (simp add: listing_def)
  moreover have "list_dir L M fuel f dir s = Inr s'"
    using s1(1) s2(1) s3(1) s'(1) by (auto simp: list_dir_def DIRENT_SIZE_def BLOCK_SIZE_def Let_def bind_res_Inr_iff)
  ultimately show ?thesis using s'(2) by auto
qed

section \<open>Properties\<close>

text \<open>
  C4: \<open>list_dir\<close> prints the directory and leaves nothing behind. With a directory without holes on
  a disk behind the block driver, enough free pages and a serial port that the driver does not
  disturb, \<open>list_dir\<close> returns, what has gone out on the line is extended by exactly the headline
  and one line per live entry of the first block of the directory, in its order, and the pages in
  use are those from before, with the contents from before: every scratch page has been given
  back. The driver is ready for the next request and the disk is as it was.
\<close>

theorem list_dir_prints:
  assumes b: "board L M fuel i view rank N uv P s" "5 < low_free L s" "fs_dev f = i"
    and want: "want = min 1024 (unat (isize dir))" and nh: "no_holes (disk_of view s) (zones dir) want"
  shows "\<exists>s'. list_dir L M fuel f dir s = Inr s' \<and>
     sent (uv (hw s')) = sent (uv (hw s)) @ listing (file_byte (disk_of view s) (zones dir)) want \<and>
     held L s' = held L s \<and> board L M fuel i view rank N uv P s' \<and> disk_of view s' = disk_of view s \<and>
     (\<forall>r x. r \<in> held L s \<and> r \<noteq> (queue_at s i, 2) \<and> in_run r x \<longrightarrow> mem s' x = mem s x)"
proof -
  obtain s' where s': "list_dir L M fuel f dir s = Inr s'"
    "told L M fuel i view rank N uv {} (listing (file_byte (disk_of view s) (zones dir)) want) s s'"
    using list_dir_told [OF assms] by blast
  have "mem s' x = mem s x" if "r \<in> held L s \<and> r \<noteq> (queue_at s i, 2) \<and> in_run r x" for r x
    using s'(2) that fs_step_mem [of L _ _ "\<lambda>s. (queue_at s i, 2)" "{}" s s' r x] by (auto simp: told_def)
  with s' told_keeps [OF s'(2)] told_board [OF b(1) s'(2)] show ?thesis by (auto simp: told_def)
qed

text \<open>A directory of two entries, one of them unused, and a machine with a serial port and a disk.\<close>

definition dir_disk :: "u8 list" where
  "dir_disk = replicate 1024 0 @ [1, 0, 0, 0, 0x2e] @ replicate 1019 0"

definition dir_inode :: Inode where
  "dir_inode = \<lparr>mode = DIRECTORY, nlinks = 1, uid = 0, gid = 0, isize = 128, atime = 0, mtime = 0, ctime = 0,
     zones = 1 # replicate 9 0\<rparr>"

definition both_soc :: "(uview \<times> dview option) soc" where
  "both_soc =
     \<lparr>rd32 = (\<lambda>_ d. (0, True, d)), wr32 = (\<lambda>_ _ d. (True, d)),
      dma = (\<lambda>m (u, v). case dma instant_bus m v of (m', v') \<Rightarrow> (m', (u, v'))),
      rd8 = (\<lambda>a (u, v). case rd8 demo_chip a u of (b, u') \<Rightarrow> (b, (u', v))), wr8 = (\<lambda>a b (u, v). (wr8 demo_chip a b u, v)),
      rd64 = (\<lambda>_ d. (0, d)), wr64 = (\<lambda>_ _ d. d)\<rparr>"

definition board_machine :: "u8 list \<Rightarrow> (uview \<times> dview option) vio_state" where
  "board_machine disk =
     (let b = blk_machine buffer_page disk in
      \<lparr>mem = mem b, ALLOC_START = ALLOC_START b, slots = slots b, current = current b, NEXT_PID = NEXT_PID b,
       BLOCK_DEVICES = BLOCK_DEVICES b, VIRTIO_DEVICES = VIRTIO_DEVICES b, ACCESS_FAULT_SEEN = False,
       hw = (\<lparr>sent = [], rx = [], busy = 0\<rparr>, hw b)\<rparr>)"

lemma board_machine_ready: "blk_ready blk_layout (bus.truncate both_soc) 3 0 snd (\<lambda>_. 0) 1 (board_machine disk)"
proof -
  have "blk_device (bus.truncate both_soc) a snd (\<lambda>_. 0) 1" for a
    by (auto simp: blk_device_def both_soc_def instant_bus_def bus.truncate_def split: option.split)
  moreover have "drv_ok blk_layout 0 snd (board_machine disk)"
    using buffer_page_machine(1) [of disk]
    by (simp add: drv_ok_def board_machine_def Let_def frames_inv_def held_def descriptors_def queue_at_def)
  ultimately show ?thesis by (simp add: blk_ready_def)
qed

lemma board_machine_pages: "5 < low_free blk_layout (board_machine disk)"
proof -
  let ?P = "{j. j < npages blk_layout \<and> \<not> is_taken (descriptors blk_layout (board_machine disk) ! j) \<and>
    ALLOC_START (board_machine disk) + j * PAGE_SIZE < heap_end blk_layout}"
  have ds: "descriptors blk_layout (board_machine disk) = 1 # 3 # buffer_page"
    using blk_machine_descriptors [of buffer_page disk] by (simp add: buffer_page_def descriptors_def board_machine_def Let_def)
  have "{3, 4, 5, 6, 7, 8} \<subseteq> ?P"
    unfolding ds by (simp add: buffer_page_def is_taken_def) (simp add: board_machine_def blk_machine_def)
  then have "card {3, 4, 5, 6, 7, 8 :: nat} \<le> card ?P" by (rule card_mono [rotated]) simp
  then show ?thesis by (simp add: low_free_def)
qed

lemma board_machine_disk: "disk_of snd (board_machine disk) = disk"
  by (simp add: disk_of_def board_machine_def Let_def blk_machine_def)

text \<open>The listing of a directory with the entry \<open>.\<close> and an unused one.\<close>

lemma dot_listing:
  assumes at: "\<And>x. x < 128 \<Longrightarrow> b x = (if x = 0 then 1 else if x = 4 then 0x2e else 0)"
  shows "listing b 128 = bytes ''  /  (2 entries):'' @ [13, 10] @ bytes ''    inode    1  .'' @ [13, 10]"
proof -
  have live: "de_inode (read_DirEntry b 0) = 1" "de_inode (read_DirEntry b 64) = 0"
    by (simp_all add: read_DirEntry_def ld32_def rd_bytes_def upt_rec at)
  have "de_name (read_DirEntry b 0) = 0x2e # replicate 59 0"
    by (rule nth_equalityI) (simp_all add: read_DirEntry_def rd_bytes_def MAX_NAME_LEN_def at nth_Cons')
  moreover have "replicate 59 (0 :: u8) = 0 # replicate 58 0" using replicate_Suc [of 58 "0 :: u8"] by simp
  ultimately have "de_name (read_DirEntry b 0) = 0x2e # 0 # replicate 58 0" by simp
  then have "name_str (read_DirEntry b 0) = [0x2e]"
    by (simp add: name_str_def Let_def)
  moreover have "[0..<128 div 64 :: nat] = [0, 1]" by (simp add: upt_rec)
  ultimately show ?thesis using live
    by (simp add: listing_def entry_text_def dir_line_def pad_left_def bytes_def dec.simps numeral_3_eq_3)
qed

lemma dir_listing: "listing (file_byte dir_disk (zones dir_inode)) 128 =
    bytes ''  /  (2 entries):'' @ [13, 10] @ bytes ''    inode    1  .'' @ [13, 10]"
  by (rule dot_listing) (simp add: file_byte_def file_zone_def path_def dir_inode_def dir_disk_def nth_append nth_Cons')

lemma board_machine_board:
  "board blk_layout both_soc 3 0 snd (\<lambda>_. 0) 1 (\<lambda>d. (fst d)\<lparr>busy := min (busy (fst d)) 2\<rparr>) 2 (board_machine disk)"
proof -
  let ?uv = "\<lambda>d :: uview \<times> dview option. (fst d)\<lparr>busy := min (busy (fst d)) 2\<rparr>"
  have "uart_device both_soc UART_BASE ?uv 2"
    using demo_chip_uart by (simp add: uart_device_def both_soc_def split_beta)
  moreover have "uart_apart both_soc ?uv" by (simp add: uart_apart_def both_soc_def split_beta)
  moreover have "disk_apart both_soc snd" by (simp add: disk_apart_def both_soc_def split_beta)
  moreover have "devices_apart (map dev (BLOCK_DEVICES (board_machine disk)))"
    by (simp add: devices_apart_def board_machine_def Let_def blk_machine_def BlockDevice_empty_def MMIO_VIRTIO_START_def)
  ultimately show ?thesis using board_machine_ready by (simp add: board_def)
qed

theorem list_dir_prints_witness:
  "\<exists>s'. list_dir blk_layout both_soc 3 \<lparr>fs_dev = 0, sb = read_SuperBlock (\<lambda>_. 0) 0\<rparr> dir_inode (board_machine dir_disk) = Inr s' \<and>
     sent (fst (hw s')) = bytes ''  /  (2 entries):'' @ [13, 10] @ bytes ''    inode    1  .'' @ [13, 10]"
proof -
  have nh: "no_holes (disk_of snd (board_machine dir_disk)) (zones dir_inode) 128"
    by (auto simp: no_holes_def path_def on_disk_def board_machine_disk dir_disk_def dir_inode_def)
  have w: "(128 :: nat) = min 1024 (unat (isize dir_inode))" by (simp add: dir_inode_def)
  from list_dir_prints [OF board_machine_board board_machine_pages _ w nh, of "\<lparr>fs_dev = 0, sb = read_SuperBlock (\<lambda>_. 0) 0\<rparr>"]
  show ?thesis by (auto simp: board_machine_disk dir_listing) (simp add: board_machine_def Let_def)
qed

end
