(* ===== verification/Startup.thy ===== *)
theory Startup
  imports Listing
begin

text \<open>
  The start in supervisor mode as a whole: \<open>skmain\<close> with its self tests of the block driver and of
  the filesystem, the spawn of init, and the timer interrupt that starts it. \<open>boot_text\<close> is what
  the console shows, as a function of the disk.
\<close>

section \<open>What the self tests print\<close>

definition line :: "u8 list \<Rightarrow> u8 list" where "line bs = bs @ [13, 10]"

definition dump_text :: "u8 list \<Rightarrow> u8 list" where
  "dump_text d =
     concat (map (\<lambda>k. (bytes '' '' @ pad_left 48 2 (hex (unat (d ! k)))) @ (if (k + 1) mod 24 = 0 then [13, 10] else [])) [0..<48])"

definition block_text :: "u8 list \<Rightarrow> u8 list" where
  "block_text d = (if length d < 512 then line (bytes ''block read failed'') else dump_text d)"

definition root_text :: "u8 list \<Rightarrow> Inode \<Rightarrow> u8 list" where
  "root_text d root =
     line (root_line root) @
     (if \<not> is_dir root then line (bytes ''  root inode is not a directory; aborting'')
      else listing (file_byte d (zones root)) (min 1024 (unat (isize root))))"

definition minix_text :: "nat \<Rightarrow> u8 list \<Rightarrow> u8 list" where
  "minix_text i d =
     (let b = read_SuperBlock (\<lambda>k. d ! k) 1024; a = inode_table_offset \<lparr>fs_dev = i, sb = b\<rparr> in
      line [] @ line (bytes ''Probing device '' @ dec i @ bytes '' for Minix 3 filesystem...'') @
      (if length d < 2048 then line (mount_failed_line BlockReadFailed)
       else if SuperBlock.magic b \<noteq> MINIX_MAGIC then line (mount_failed_line FsError.BadMagic)
       else line (superblock_line b) @
         (if ninodes b = 0 then line (bytes ''  read root inode failed: '' @ bytes ''InodeOutOfRange'')
          else if length d < a div 1024 * 1024 + 1024 then
            line (bytes ''  read root inode failed: '' @ bytes ''BlockReadFailed'')
          else root_text d (read_Inode (\<lambda>k. d ! k) a))))"

definition tests_text :: "nat option \<Rightarrow> u8 list \<Rightarrow> u8 list" where
  "tests_text found d =
     line [] @ line (bytes ''paging enabled (Sv39), now in S-mode'') @
     line (bytes ''interrupts enabled '' @ [0xe2, 0x80, 0x94] @ bytes '' type to echo:'') @
     line (bytes ''Testing block driver.'') @
     (case found of None \<Rightarrow> line (bytes ''no block device discovered'') | Some i \<Rightarrow> block_text d) @
     line (bytes ''Block driver done'') @ (case found of None \<Rightarrow> [] | Some i \<Rightarrow> minix_text i d)"

definition boot_text :: "nat option \<Rightarrow> u8 list \<Rightarrow> u8 list" where
  "boot_text found d = tests_text found d @ line (bytes ''spawned init kernel thread, awaiting first timer tick'')"

text \<open>The first block of the root directory has no hole, if there is a root directory.\<close>

definition sound_root :: "u8 list \<Rightarrow> bool" where
  "sound_root d \<longleftrightarrow>
     (case wanted_inode d ROOT_INODE of
        None \<Rightarrow> True
      | Some root \<Rightarrow> is_dir root \<longrightarrow> no_holes d (zones root) (min 1024 (unat (isize root))))"

section \<open>The block driver's test\<close>

lemma first_block_device_view:
  fixes s t :: "('d, 'z) vio_state_scheme"
  assumes "kernel_view t = kernel_view s"
  shows "first_block_device t = first_block_device s"
proof -
  have pm: "position P (map f xs) = position (\<lambda>x. P (f x)) xs" for P and f :: "BlockDevice \<Rightarrow> nat" and xs
    by (induction xs) simp_all
  have "first_block_device u = position (\<lambda>a. a \<noteq> 0) (take MAX_VIRTIO_DEVICES (map dev (BLOCK_DEVICES u)))"
    for u :: "('d, 'z) vio_state_scheme"
    unfolding first_block_device_def take_map pm by (rule refl)
  with assms show ?thesis by (simp add: kernel_view_def)
qed

lemma println_line:
  assumes "board L M fuel i view rank N uv P s"
  obtains t where "println M fuel bs s = Inr t" "told L M fuel i view rank N uv {} (line bs) s t"
    "board L M fuel i view rank N uv P t"
  using println_told [OF assms, of bs "{}"] by (auto simp: line_def)

lemma test_block_told:
  assumes b: "board L M fuel i view rank N uv P s" "1 < low_free L s" "first_block_device s = Some i"
  shows "\<exists>s'. test_block L M fuel s = Inr s' \<and> told L M fuel i view rank N uv {} (block_text (disk_of view s)) s s'"
proof -
  let ?told = "told L M fuel i view rank N uv" and ?d = "disk_of view s"
  have low: "0 < low_free L s" using b(2) by simp
  obtain p s1 where s1: "allocate L 1 s = Inr (Some p, s1)" "page_taken L M fuel i view rank N uv P s p s1"
    using allocate_taken [OF b(1) low] by blast
  note pt = s1(2) [unfolded page_taken_def]
  have b1: "board L M fuel i view rank N uv P s1" "disk_of view s1 = ?d" "0 < low_free L s1" using pt b(2) by simp_all
  have r1: "(p, 1) \<in> held L s1" "(p, 1) \<noteq> (queue_at s1 i, 2 :: nat)" "covers (p, 1) p (unat (512 :: u32))"
    using pt by (simp_all add: covers_def)
  let ?fits = "512 \<le> length ?d"
  have f: "?fits = (unat (0 :: u64) div 512 * 512 + unat (512 :: u32) \<le> length (disk_of view s1))" by (simp add: b1(2))
  obtain s2 where s2: "block_read L (bus.truncate M) fuel i p 512 0 s1 = Inr (?fits, s2)"
    "?told {p..<p + unat (512 :: u32)} [] s1 s2" "?fits \<longrightarrow> rd_bytes (mem s2) p 512 = take 512 ?d"
    using block_read_told [OF b1(1,3) _ r1 f] b1(2) by (auto simp: whole_sectors_def)
  have t2: "?told {p..<p + 4096} [] s1 s2" using s2(2) fs_step_mono by (fastforce simp: told_def)
  have b2: "board L M fuel i view rank N uv P s2" by (rule told_board [OF b1(1) t2])
  have hw: "uart_device M UART_BASE uv P" "P < fuel" "disk_apart M view" using b(1) by (simp_all add: board_def)
  have byte: "mem s2 (p + k) = ?d ! k" if ?fits "k < 512" for k
    using s2(3) that by (metis nth_rd_bytes nth_take)
  have one: "says uv view ((bytes '' '' @ pad_left 48 2 (hex (unat (?d ! k)))) @ (if (k + 1) mod 24 = 0 then [13, 10] else []))
      (s2\<lparr>hw := d\<rparr>) (dump_byte M fuel p k (s2\<lparr>hw := d\<rparr>))" if ?fits "k < 512" for k d
    unfolding dump_byte_def
    by (rule says_bind) (simp_all add: byte [OF that] says_print [OF hw] says_println [OF hw, of "[]", simplified] says_nil)
  have "says uv view (block_text ?d) s2 (if ?fits then fold_res (dump_byte M fuel p) [0..<48] s2
      else println M fuel (bytes ''block read failed'') s2)"
  proof (cases ?fits)
    case True
    have "says uv view (dump_text ?d) s2 (fold_res (dump_byte M fuel p) [0..<48] s2)"
      unfolding dump_text_def by (rule says_fold, rule one [OF True]) simp
    with True show ?thesis by (simp add: block_text_def)
  next
    case False
    then show ?thesis using says_println [OF hw] by (simp add: block_text_def line_def)
  qed
  then obtain s3 where s3: "(if ?fits then fold_res (dump_byte M fuel p) [0..<48] s2
      else println M fuel (bytes ''block read failed'') s2) = Inr s3" "?told {p..<p + 4096} (block_text ?d) s2 s3"
    by (rule says_told [OF b2])
  obtain s' where "deallocate L p s3 = Inr s'" "?told {} ([] @ block_text ?d) s s'"
    using page_returned [OF b(1) s1(2) told_trans [OF t2 s3(2)]] by blast
  then show ?thesis using b(3) s1(1) s2(1) s3(1) by (auto simp: test_block_def)
qed

section \<open>The filesystem's test\<close>

lemma show_root_told:
  assumes b: "board L M fuel i view rank N uv P s" "5 < low_free L s" "fs_dev f = i"
    and nh: "is_dir root \<Longrightarrow> no_holes (disk_of view s) (zones root) (min 1024 (unat (isize root)))"
  shows "\<exists>s'. show_root L M fuel f root s = Inr s' \<and> told L M fuel i view rank N uv {} (root_text (disk_of view s) root) s s'"
proof -
  obtain t where t: "println M fuel (root_line root) s = Inr t" "told L M fuel i view rank N uv {} (line (root_line root)) s t"
    "board L M fuel i view rank N uv P t" by (rule println_line [OF b(1)])
  note tk = told_keeps [OF t(2)]
  show ?thesis
  proof (cases "is_dir root")
    case True
    have low: "5 < low_free L t" using b(2) tk by simp
    obtain s' where "list_dir L M fuel f root t = Inr s'"
      "told L M fuel i view rank N uv {} (listing (file_byte (disk_of view s) (zones root)) (min 1024 (unat (isize root)))) t s'"
      using list_dir_told [OF t(3) low b(3) refl] nh [OF True] tk(1) by auto
    with True t(1) told_trans [OF t(2)] show ?thesis by (auto simp: show_root_def root_text_def ELF_TEST_INODE_def)
  next
    case False
    obtain s' where "println M fuel (bytes ''  root inode is not a directory; aborting'') t = Inr s'"
      "told L M fuel i view rank N uv {} (line (bytes ''  root inode is not a directory; aborting'')) t s'"
      by (rule println_line [OF t(3)])
    with False t(1) told_trans [OF t(2)] show ?thesis by (auto simp: show_root_def root_text_def)
  qed
qed

lemma show_fs_told:
  assumes b: "board L M fuel i view rank N uv P s" "5 < low_free L s" and d: "d = disk_of view s"
    and f: "f = \<lparr>fs_dev = i, sb = b\<rparr>" "b = read_SuperBlock (\<lambda>k. d ! k) 1024" "a = inode_table_offset f"
    and m: "2048 \<le> length d" "SuperBlock.magic b = MINIX_MAGIC" and root: "sound_root d"
    and out: "out = (if ninodes b = 0 then line (bytes ''  read root inode failed: '' @ bytes ''InodeOutOfRange'')
          else if length d < a div 1024 * 1024 + 1024 then line (bytes ''  read root inode failed: '' @ bytes ''BlockReadFailed'')
          else root_text d (read_Inode (\<lambda>k. d ! k) a))"
  shows "\<exists>s'. show_fs L M fuel f s = Inr s' \<and> told L M fuel i view rank N uv {} (line (superblock_line b) @ out) s s'"
proof -
  let ?told = "told L M fuel i view rank N uv"
  have dv: "fs_dev f = i" "sb f = b" by (simp_all add: f(1))
  obtain t where t: "println M fuel (superblock_line b) s = Inr t" "?told {} (line (superblock_line b)) s t"
    "board L M fuel i view rank N uv P t" by (rule println_line [OF b(1)])
  note tk = told_keeps [OF t(2)]
  have a1: "a = inode_table_offset f + (unat ROOT_INODE - 1) * sizeof_Inode" by (simp add: f(3) ROOT_INODE_def)
  have r0: "(ROOT_INODE = 0 \<or> ROOT_INODE > ninodes b) \<longleftrightarrow> ninodes b = 0"
    using word_le_0_iff [of "ninodes b"] by (auto simp: ROOT_INODE_def word_less_nat_alt unat_eq_0)
  let ?y = "if ninodes b = 0 then Inl InodeOutOfRange else if length d < a div 1024 * 1024 + 1024 then Inl BlockReadFailed
      else Inr (read_Inode (\<lambda>k. d ! k) a)"
  have low: "1 < low_free L t" "5 < low_free L t" using b(2) tk(3) by simp_all
  obtain u where u: "read_inode L (bus.truncate M) fuel f ROOT_INODE t = Inr (?y, u)" "?told {} [] t u"
    using read_inode_told [OF t(3) low(1) dv(1) a1 refl] unfolding dv(2) r0 tk(1) d by blast
  have st: "?told {} (line (superblock_line b)) s u" using told_trans [OF t(2) u(2)] by simp
  have bu: "board L M fuel i view rank N uv P u" by (rule told_board [OF t(3) u(2)])
  have "\<exists>s'. (case ?y of Inl e \<Rightarrow> println M fuel (bytes ''  read root inode failed: '' @ debug_FsError e) u
      | Inr root \<Rightarrow> show_root L M fuel f root u) = Inr s' \<and> ?told {} out u s'"
  proof (cases ?y)
    case (Inl e)
    then have "out = line (bytes ''  read root inode failed: '' @ debug_FsError e)"
      by (auto simp: out debug_FsError_def split: if_splits)
    then show ?thesis unfolding Inl sum.case using println_line [OF bu] by metis
  next
    case (Inr node)
    then have n: "ninodes b \<noteq> 0" "\<not> length d < a div 1024 * 1024 + 1024" "node = read_Inode (\<lambda>k. d ! k) a"
      by (auto split: if_splits)
    have "inode_table_offset \<lparr>fs_dev = 0, sb = b\<rparr> = a" by (simp add: f inode_table_offset_def)
    then have "wanted_inode d ROOT_INODE = Some node"
      using n m r0 unfolding wanted_inode_def f(2) [symmetric] Let_def by (simp add: ROOT_INODE_def)
    then have nh: "is_dir node \<Longrightarrow> no_holes (disk_of view u) (zones node) (min 1024 (unat (isize node)))"
      using root told_keeps(1) [OF st] by (simp add: sound_root_def d)
    have "out = root_text (disk_of view u) node" using n told_keeps(1) [OF st] by (simp add: out d)
    then show ?thesis unfolding Inr sum.case using show_root_told [OF bu _ dv(1) nh] low(2) told_keeps(3) [OF u(2)] by simp
  qed
  then show ?thesis using told_trans [OF st] t(1) u(1) by (auto simp: show_fs_def dv(2))
qed

lemma test_minix3_told:
  assumes b: "board L M fuel i view rank N uv P s" "5 < low_free L s" "first_block_device s = Some i" and root: "sound_root (disk_of view s)"
  shows "\<exists>s'. test_minix3 L M fuel s = Inr s' \<and> told L M fuel i view rank N uv {} (minix_text i (disk_of view s)) s s'"
proof -
  let ?told = "told L M fuel i view rank N uv {}" and ?d = "disk_of view s"
  let ?probe = "bytes ''Probing device '' @ dec i @ bytes '' for Minix 3 filesystem...''"
  define c where "c = read_SuperBlock (\<lambda>k. ?d ! k) 1024"
  obtain s1 where s1: "println M fuel [] s = Inr s1" "?told (line []) s s1" "board L M fuel i view rank N uv P s1"
    by (rule println_line [OF b(1)])
  obtain s2 where s2: "println M fuel ?probe s1 = Inr s2" "?told (line ?probe) s1 s2" "board L M fuel i view rank N uv P s2"
    by (rule println_line [OF s1(3)])
  note t2 = told_trans [OF s1(2) s2(2)]
  have low2: "1 < low_free L s2" using b(2) told_keeps(3) [OF t2] by simp
  let ?y = "if length ?d < 2048 then Inl BlockReadFailed else if SuperBlock.magic c \<noteq> MINIX_MAGIC then Inl FsError.BadMagic
      else Inr \<lparr>fs_dev = i, sb = c\<rparr>"
  obtain s3 where s3: "mount L (bus.truncate M) fuel i s2 = Inr (?y, s3)" "?told [] s2 s3"
    using mount_told [OF s2(3) low2 refl refl] unfolding told_keeps(1) [OF t2] c_def by blast
  have b3: "board L M fuel i view rank N uv P s3" by (rule told_board [OF s2(3) s3(2)])
  have t3: "?told (line [] @ line ?probe) s s3" using told_trans [OF t2 s3(2)] by simp
  define out where "out = drop (length (line [] @ line ?probe)) (minix_text i ?d)"
  have out: "minix_text i ?d = (line [] @ line ?probe) @ out" by (simp add: out_def minix_text_def Let_def)
  have "\<exists>s'. (case ?y of Inl e \<Rightarrow> println M fuel (mount_failed_line e) s3
          | Inr f \<Rightarrow> show_fs L M fuel f s3) = Inr s' \<and> ?told out s3 s'"
  proof (cases ?y)
    case (Inl e)
    then have "out = line (mount_failed_line e)" by (auto simp: out_def minix_text_def Let_def c_def split: if_splits)
    then show ?thesis unfolding Inl sum.case using println_line [OF b3] by metis
  next
    case (Inr f)
    then have m: "2048 \<le> length ?d" "SuperBlock.magic c = MINIX_MAGIC" "f = \<lparr>fs_dev = i, sb = c\<rparr>" by (auto split: if_splits)
    have low3: "5 < low_free L s3" using b(2) told_keeps(3) [OF t3] by simp
    have d3: "?d = disk_of view s3" using told_keeps(1) [OF t3] by simp
    have "out = line (superblock_line c) @ (if ninodes c = 0 then line (bytes ''  read root inode failed: '' @ bytes ''InodeOutOfRange'')
          else if length ?d < inode_table_offset f div 1024 * 1024 + 1024 then line (bytes ''  read root inode failed: '' @ bytes ''BlockReadFailed'')
          else root_text ?d (read_Inode (\<lambda>k. ?d ! k) (inode_table_offset f)))"
      using m by (simp add: out_def minix_text_def Let_def c_def)
    then show ?thesis unfolding Inr sum.case using show_fs_told [OF b3 low3 d3 m(3) c_def refl m(1,2) root refl] by simp
  qed
  then obtain s' where "(case ?y of Inl e \<Rightarrow> println M fuel (mount_failed_line e) s3
          | Inr f \<Rightarrow> show_fs L M fuel f s3) = Inr s'" "?told out s3 s'" by blast
  then show ?thesis using told_trans [OF t3] b(3) s1(1) s2(1) s3(1) unfolding out by (auto simp: test_minix3_def)
qed

section \<open>All self tests\<close>

text \<open>They print, and leave the allocator and the process table as they were.\<close>

definition tested :: "linker \<Rightarrow> ('d \<Rightarrow> uview) \<Rightarrow> u8 list \<Rightarrow> ('d, 'z) vio_state_scheme \<Rightarrow> ('d, 'z) vio_state_scheme \<Rightarrow> bool" where
  "tested L uv out s t \<longleftrightarrow>
     descriptors L t = descriptors L s \<and> ALLOC_START t = ALLOC_START s \<and> kernel_view t = kernel_view s \<and>
     sent (uv (hw t)) = sent (uv (hw s)) @ out"

lemma self_tests_disk:
  assumes b: "board L M fuel i view rank N uv P s" "5 < low_free L s" "first_block_device s = Some i" "sound_root (disk_of view s)"
  shows "\<exists>t. self_tests L M fuel s = Inr t \<and> tested L uv (tests_text (Some i) (disk_of view s)) s t"
proof -
  let ?told = "told L M fuel i view rank N uv {}" and ?b = "board L M fuel i view rank N uv P"
  obtain s1 where s1: "println M fuel [] s = Inr s1" "?told (line []) s s1" "?b s1" by (rule println_line [OF b(1)])
  obtain s2 where s2: "println M fuel (bytes ''paging enabled (Sv39), now in S-mode'') s1 = Inr s2"
    "?told (line (bytes ''paging enabled (Sv39), now in S-mode'')) s1 s2" "?b s2" by (rule println_line [OF s1(3)])
  let ?m3 = "bytes ''interrupts enabled '' @ [0xe2, 0x80, 0x94] @ bytes '' type to echo:''"
  obtain s3 where s3: "println M fuel ?m3 s2 = Inr s3" "?told (line ?m3) s2 s3" "?b s3" by (rule println_line [OF s2(3)])
  obtain s4 where s4: "println M fuel (bytes ''Testing block driver.'') s3 = Inr s4"
    "?told (line (bytes ''Testing block driver.'')) s3 s4" "?b s4" by (rule println_line [OF s3(3)])
  note t4 = told_trans [OF s1(2) told_trans [OF s2(2) told_trans [OF s3(2) s4(2)]]]
  have k4: "1 < low_free L s4" "first_block_device s4 = Some i" "disk_of view s4 = disk_of view s"
    using told_keeps [OF t4] b(2,3) first_block_device_view [of s4 s] by simp_all
  obtain s5 where s5: "test_block L M fuel s4 = Inr s5" "?told (block_text (disk_of view s)) s4 s5"
    using test_block_told [OF s4(3) k4(1,2)] k4(3) by auto
  obtain s6 where s6: "println M fuel (bytes ''Block driver done'') s5 = Inr s6"
    "?told (line (bytes ''Block driver done'')) s5 s6" "?b s6" by (rule println_line [OF told_board [OF s4(3) s5(2)]])
  note t6 = told_trans [OF t4 told_trans [OF s5(2) s6(2)]]
  have k6: "5 < low_free L s6" "first_block_device s6 = Some i" "disk_of view s6 = disk_of view s"
    using told_keeps [OF t6] b(2,3) first_block_device_view [of s6 s] by simp_all
  obtain s7 where s7: "test_minix3 L M fuel s6 = Inr s7" "?told (minix_text i (disk_of view s)) s6 s7"
    using test_minix3_told [OF s6(3) k6(1,2)] b(4) k6(3) by auto
  note t7 = told_trans [OF t6 s7(2)]
  have "self_tests L M fuel s = Inr s7" using s1(1) s2(1) s3(1) s4(1) s5(1) s6(1) s7(1) by (simp add: self_tests_def)
  moreover have "tested L uv (tests_text (Some i) (disk_of view s)) s s7"
    using t7 told_keeps [OF t7] by (simp add: tested_def told_def tests_text_def)
  ultimately show ?thesis by blast
qed

lemma self_tests_bare:
  assumes con: "uart_device M UART_BASE uv P" "P < fuel" and none: "first_block_device s = None"
  shows "\<exists>t. self_tests L M fuel s = Inr t \<and> tested L uv (tests_text None d) s t"
proof -
  have none': "first_block_device (s\<lparr>hw := e\<rparr>) = None" for e using none by (simp add: first_block_device_def)
  have "disk_apart M (\<lambda>_. None)" by (simp add: disk_apart_def)
  note say = says_println [OF con this, folded line_def]
  have "says uv (\<lambda>_. None) (tests_text None d) s (self_tests L M fuel s)"
    unfolding self_tests_def tests_text_def option.case test_block_def test_minix3_def
    by (intro says_bind say) (simp_all add: none' say says_nil)
  then obtain e where "self_tests L M fuel s = Inr (s\<lparr>hw := e\<rparr>)" "sent (uv e) = sent (uv (hw s)) @ tests_text None d"
    by (auto simp: says_def)
  then show ?thesis by (simp add: tested_def kernel_view_def descriptors_def)
qed

section \<open>Spawning init\<close>

lemma tested_boot:
  fixes s t :: "('d, 'z) trap_state_scheme"
  assumes "tested L uv out s t"
  shows "boot_table t = boot_table s" "frames_inv L t = frames_inv L s" "held L t = held L s" "trap_inv t = trap_inv s"
    "TRAP_STACK_TOP t = TRAP_STACK_TOP s"
proof -
  have k: "descriptors L t = descriptors L s" "ALLOC_START t = ALLOC_START s" "proc_view t = proc_view s"
    using assms by (simp_all add: tested_def kernel_view_def)
  then show "boot_table t = boot_table s" "frames_inv L t = frames_inv L s" "held L t = held L s"
    by (simp_all add: boot_table_def proc_view_def frames_inv_def held_def)
  show "trap_inv t = trap_inv s" by (rule trap_view_eqs [OF trap_view_proc [OF k(3)]])
  show "TRAP_STACK_TOP t = TRAP_STACK_TOP s" using k(3) by (cases s; cases t) (simp add: proc_view_def)
qed

lemma spawn_init:
  fixes s :: "('d, 'z) trap_state_scheme"
  assumes table: "boot_table s" "frames_inv L s" "window_free (descriptors L s) j 2" and inv: "trap_inv s"
  obtains stk t where "spawn_kernel L ttop entry s = Inr (Inr 1, t)" "held L t = insert (stk, 2) (held L s)" "(stk, 2) \<notin> held L s"
    "\<And>k. proc_at t k = (if k = 0 then Some (new_process ttop entry stk 1) else None)" "current t = None" "hw t = hw s" "trap_inv t"
proof (rule spawn_kernel_cases [OF boot_table_inv [OF table(1,2)], of ttop entry])
  have two: "0 < (2 :: nat)" by simp
  assume "zallocate L 2 s = Inr (None, s)"
  then show thesis
    using allocate_cases [OF table(2) two] table(3) zallocate_Some_iff [OF table(2), of 2] by (metis Inr_inject Pair_inject option.distinct(1))
next
  assume "\<And>i. i < 16 \<Longrightarrow> proc_at s i \<noteq> None"
  from this [of 0] show thesis using table(1) by (simp add: boot_table_def proc_at_def)
next
  fix stk s1 i
  assume z: "zallocate L 2 s = Inr (Some stk, s1)" and i: "\<And>j. j < i \<Longrightarrow> proc_at s j \<noteq> None"
    and k: "spawn_kernel L ttop entry s = Inr (Inr (NEXT_PID s), s1\<lparr>NEXT_PID := NEXT_PID s + 1,
        slots := (slots s)[i := Some (new_process ttop entry stk (NEXT_PID s))]\<rparr>)" (is "_ = Inr (_, ?t)")
  have none: "slots s = replicate 16 None" "NEXT_PID s = 1" "current s = None" using table(1) by (simp_all add: boot_table_def)
  have "i = 0" using i [of 0] none(1) by (cases i) (auto simp: proc_at_def)
  note za = zallocate_Some [OF table(2) z]
  have at: "proc_at ?t k = (if k = 0 then Some (new_process ttop entry stk 1) else None)" for k
    by (simp add: proc_at_def none \<open>i = 0\<close>)
  have same: "current ?t = None" "hw ?t = hw s" "mscratch ?t = mscratch s" "TRAP_FRAME ?t = TRAP_FRAME s"
    using za(6) none(3) by (cases s; cases s1; simp)+
  have "table_ok ?t" using same(1) by (simp add: table_ok_def none(1))
  then have "trap_inv ?t" using inv same none(3) by (simp add: trap_inv_def procs_ok_def at)
  moreover have "held L ?t = insert (stk, 2) (held L s)" using za(2) by (simp add: held_def descriptors_def)
  ultimately show thesis using that [of ?t stk] k at same za(3) none(2) by simp
qed

section \<open>The init process\<close>

text \<open>An \<open>ecall\<close> from supervisor mode with the number in \<open>a0\<close>, which also has the result.\<close>

definition syscall ::
  "linker \<Rightarrow> 'd soc \<Rightarrow> nat \<Rightarrow> u64 \<Rightarrow> u64 \<Rightarrow> u64 \<Rightarrow> hart \<Rightarrow> ('d, 'z) trap_state_scheme \<Rightarrow>
   (u64 \<times> hart \<times> ('d, 'z) trap_state_scheme) res"
where
  "syscall L M fuel hart status num c s =
     bind_res (take_trap L M fuel 0 9 hart status ((fst c)(10 := num), snd c) s) (\<lambda>(c1, s1). Inr (fst c1 10, c1, s1))"

text \<open>The call that init makes over and over returns behind the \<open>ecall\<close> and changes no register.\<close>

lemma init_syscall_returns:
  assumes inv: "trap_inv s" and pc: "unat (snd c) + 4 < 2 ^ 64"
  shows "\<exists>c' s'. syscall L M fuel hart status 1 c s = Inr (1, c', s') \<and> snd c' = snd c + 4 \<and> trap_inv s' \<and> current s' = current s \<and>
     (\<forall>r. 0 < r \<and> r < 32 \<and> r \<noteq> 10 \<longrightarrow> fst c' r = fst c r)"
proof -
  obtain f where f: "frame_of (mscratch s) s = Some f"
    using inv by (auto simp: trap_inv_def frame_of_def split: option.splits)
  let ?f = "save_ctx ((fst c)(10 := 1)) f" and ?s = "set_frame (mscratch s) (save_ctx ((fst c)(10 := 1)) f) s"
  have len: "length (regs ?f) = 32" by (simp add: save_ctx_def)
  note sf = set_frame_current [OF inv len]
  have regs: "load_ctx ?f r = ((fst c)(10 := 1)) r" if "0 < r" "r < 32" for r
    using that by (simp add: load_ctx_def save_ctx_def nth_Cons')
  have "regs ?f ! 10 = 1" using regs [of 10] by (simp add: load_ctx_def)
  then have "do_syscall L M fuel (snd c) (mscratch s) ?s = Inr (snd c + 4, ?s)"
    using sf(4) pc by (simp add: do_syscall_def Let_def step_past_def u64_add_def)
  then have "m_trap L M fuel (snd c) 0 9 hart status (mscratch s) ?s = Inr (snd c + 4, ?s)" by (simp add: m_trap_def)
  then have "take_trap L M fuel 0 9 hart status ((fst c)(10 := 1), snd c) s = Inr ((load_ctx ?f, snd c + 4), ?s)"
    using f sf(3,4) by (simp add: take_trap_def)
  then show ?thesis using regs [of 10] regs sf(1,2) by (auto simp: syscall_def)
qed

section \<open>The run of \<open>skmain\<close>\<close>

lemma skmain_run:
  assumes table: "boot_table s" "frames_inv L s" "window_free (descriptors L s) j 2" and inv: "trap_inv s"
    and con: "uart_device M UART_BASE uv P" "P < fuel" and clk: "\<And>d. clock_ok M d"
    and disk: "\<And>i. first_block_device s = Some i \<Longrightarrow>
      board L M fuel i view rank N uv P s \<and> 5 < low_free L s \<and> sound_root (disk_of view s)"
  shows "\<exists>s' c' s'' stk. skmain L M fuel entry s = Inr s' \<and>
     sent (uv (hw s')) = sent (uv (hw s)) @ boot_text (first_block_device s) (disk_of view s) \<and>
     held L s' = insert (stk, 2) (held L s) \<and> (stk, 2) \<notin> held L s \<and>
     (\<forall>k. proc_at s' k = (if k = 0 then Some (new_process (TRAP_STACK_TOP s) entry stk 1) else None)) \<and>
     take_trap L M fuel tval 0x8000000000000007 hart status c s' = Inr (c', s'') \<and> current s'' = Some 0 \<and>
     snd c' = entry \<and> fst c' 2 = of_nat (stk + 2 * PAGE_SIZE) \<and> (\<forall>r. r \<noteq> 2 \<longrightarrow> fst c' r = 0)"
proof -
  obtain t where t: "self_tests L M fuel s = Inr t" "tested L uv (tests_text (first_block_device s) (disk_of view s)) s t"
    using self_tests_disk [of L M fuel _ view rank N uv P s] self_tests_bare [OF con] disk
    by (cases "first_block_device s") fastforce+
  note tb = tested_boot [OF t(2)]
  have table': "boot_table t" "frames_inv L t" "window_free (descriptors L t) j 2" "trap_inv t"
    using table inv tb t(2) by (simp_all add: tested_def)
  obtain stk u where u: "spawn_kernel L (TRAP_STACK_TOP s) entry t = Inr (Inr 1, u)" "held L u = insert (stk, 2) (held L t)"
    "(stk, 2) \<notin> held L t" "\<And>k. proc_at u k = (if k = 0 then Some (new_process (TRAP_STACK_TOP s) entry stk 1) else None)"
    "current u = None" "hw u = hw t" "trap_inv u" by (rule spawn_init [OF table', of "TRAP_STACK_TOP s" entry]) (rule that)
  let ?msg = "bytes ''spawned init kernel thread, awaiting first timer tick''"
  obtain d where d: "println M fuel ?msg u = Inr (u\<lparr>hw := d\<rparr>)" "sent (uv d) = sent (uv (hw u)) @ ?msg @ [13, 10]"
    using println_sends [OF con] by blast
  let ?s = "u\<lparr>hw := d\<rparr>"
  have view: "trap_view ?s = trap_view u" by (simp add: trap_view_def)
  note v = trap_view_eqs [OF view]
  have cause: "drop_bit 63 0x8000000000000007 AND 1 = (1 :: u64)" "0x8000000000000007 AND 0xfff = (7 :: u64)" by simp_all
  have inv': "trap_inv ?s" "proc_at ?s 0 \<noteq> None" "search_start ?s = 0" "current ?s = None" using u(4,5,7) v by (simp_all add: search_start_def)
  obtain c' s'' m k where k: "take_trap L M fuel tval 0x8000000000000007 hart status c ?s = Inr (c', s'')" "m < 16"
    "k = (search_start ?s + m) mod 16" "proc_at ?s k \<noteq> None" "current s'' = Some k"
    "current ?s \<noteq> Some k \<longrightarrow> (\<exists>q. proc_at ?s k = Some q \<and> c' = (load_ctx (frame q), pc q))"
    using timer_trap_picks [OF inv'(1) cause clk inv'(2)] by metis
  have k0: "k = 0" using k(4) v(3) [of k] u(4) by (auto split: if_splits)
  have p: "c' = (load_ctx (frame (new_process (TRAP_STACK_TOP s) entry stk 1)), entry)"
    using k(6) inv'(4) v(3) [of 0] u(4) [of 0] by (simp add: k0)
  have "fst c' 2 = of_nat (stk + 2 * PAGE_SIZE)" "\<And>r. r \<noteq> 2 \<Longrightarrow> fst c' r = 0" by (simp_all add: p load_ctx_def)
  moreover have "skmain L M fuel entry s = Inr ?s"
    using t(1) u(1) d(1) tb(5) by (simp add: skmain_def trap_stack_top_def)
  moreover have "held L ?s = insert (stk, 2) (held L s)" using u(2) tb(3) by (simp add: held_def descriptors_def)
  moreover have "sent (uv (hw ?s)) = sent (uv (hw s)) @ boot_text (first_block_device s) (disk_of view s)"
    using d(2) u(6) t(2) by (simp add: tested_def boot_text_def line_def)
  ultimately show ?thesis using k(1,5) k0 p u(3,4) tb(3) v(3)
    by (intro exI [of _ ?s] exI [of _ c'] exI [of _ s''] exI [of _ stk]) simp
qed

section \<open>Properties\<close>

text \<open>
  C3: From the switch to supervisor mode to the first process. On a board with a serial port, with
  or without a block device, and with enough free pages, \<open>skmain\<close> reaches its idle loop. The
  console shows exactly \<open>boot_text\<close>: the messages, the dump of the first sector, what the
  filesystem test finds on the disk and, with a Minix root directory, its listing. All scratch
  pages are back; the only new run in use is the stack of init, which is the only process. The
  first timer interrupt leaves the idle loop, whatever its registers, and starts init at its entry
  with the stack pointer at the end of its stack and every other register zero.
\<close>

theorem skmain_starts_init:
  assumes table: "boot_table s" "frames_inv L s" "window_free (descriptors L s) j 2" and inv: "trap_inv s"
    and con: "uart_device M UART_BASE uv P" "P < fuel" and clk: "\<And>d. clock_ok M d"
    and disk: "\<And>i. first_block_device s = Some i \<Longrightarrow>
      board L M fuel i view rank N uv P s \<and> 5 < low_free L s \<and> sound_root (disk_of view s)"
  shows "\<exists>s' c' s'' stk. skmain L M fuel entry s = Inr s' \<and>
     sent (uv (hw s')) = sent (uv (hw s)) @ boot_text (first_block_device s) (disk_of view s) \<and>
     held L s' = insert (stk, 2) (held L s) \<and> (stk, 2) \<notin> held L s \<and>
     (\<forall>k. proc_at s' k = (if k = 0 then Some (new_process (TRAP_STACK_TOP s) entry stk 1) else None)) \<and>
     take_trap L M fuel tval 0x8000000000000007 hart status c s' = Inr (c', s'') \<and> current s'' = Some 0 \<and>
     snd c' = entry \<and> fst c' 2 = of_nat (stk + 2 * PAGE_SIZE) \<and> (\<forall>r. r \<noteq> 2 \<longrightarrow> fst c' r = 0)"
  by (rule skmain_run [OF assms])

text \<open>A disk with a filesystem of one inode, the root directory, and the machine at the entry of \<open>skmain\<close>.\<close>

definition boot_disk :: "u8 list" where
  "boot_disk = replicate 1024 0 @ [1, 0, 0, 0] @ replicate 20 0 @ [0x5a, 0x4d] @ replicate 998 0 @
     [0, 0x40] @ replicate 6 0 @ [128, 0, 0, 0] @ replicate 12 0 @ [3, 0, 0, 0] @ replicate 996 0 @
     [1, 0, 0, 0, 0x2e] @ replicate 1019 0"

definition boot_machine :: "(uview \<times> dview option) trap_state" where
  "boot_machine = vio_state.extend (board_machine boot_disk)
     (trap_state.fields 0x9000 TrapFrame_empty Idle StaticFrame m_trap_vector 0)"

lemma boot_disk_inode:
  obtains n where "read_Inode (\<lambda>k. boot_disk ! k) 2048 = n" "mode n = 0x4000" "isize n = 128" "zones n ! 0 = 3"
    "ninodes (read_SuperBlock (\<lambda>k. boot_disk ! k) 1024) = 1" "imap_blocks (read_SuperBlock (\<lambda>k. boot_disk ! k) 1024) = 0"
    "zmap_blocks (read_SuperBlock (\<lambda>k. boot_disk ! k) 1024) = 0"
    "SuperBlock.magic (read_SuperBlock (\<lambda>k. boot_disk ! k) 1024) = MINIX_MAGIC"
    "superblock_line (read_SuperBlock (\<lambda>k. boot_disk ! k) 1024) = bytes ''  superblock: ninodes=1 zones=0 block_size=0 first_data_zone=0''"
proof -
  have len: "length boot_disk = 4096" by (simp add: boot_disk_def)
  have ld: "ld32 (\<lambda>k. boot_disk ! k) a = of_nat (le_val (take 4 (drop a boot_disk)))"
    "ld16 (\<lambda>k. boot_disk ! k) a = of_nat (le_val (take 2 (drop a boot_disk)))" if "a < 4000" for a
    using that len disk_image [of a 4 boot_disk] disk_image [of a 2 boot_disk] by (simp_all add: ld32_def ld16_def)
  let ?b = "read_SuperBlock (\<lambda>k. boot_disk ! k) 1024" and ?n = "read_Inode (\<lambda>k. boot_disk ! k) 2048"
  have b: "ninodes ?b = 1" "imap_blocks ?b = 0" "zmap_blocks ?b = 0" "SuperBlock.magic ?b = MINIX_MAGIC"
    "sb_zones ?b = 0" "block_size ?b = 0" "first_data_zone ?b = 0"
    by (simp_all add: read_SuperBlock_def ld MINIX_MAGIC_def) (simp_all add: boot_disk_def)
  have n: "mode ?n = 0x4000" "isize ?n = 128" "zones ?n ! 0 = 3"
    by (simp_all add: read_Inode_def ld) (simp_all add: boot_disk_def)
  have "superblock_line ?b = bytes ''  superblock: ninodes=1 zones=0 block_size=0 first_data_zone=0''"
    by (simp add: superblock_line_def b bytes_def dec.simps)
  with that [OF refl n b(1-4)] show thesis .
qed

lemma boot_disk_root:
  "sound_root boot_disk"
  "minix_text 0 boot_disk = line [] @ line (bytes ''Probing device 0 for Minix 3 filesystem...'') @
     line (bytes ''  superblock: ninodes=1 zones=0 block_size=0 first_data_zone=0'') @
     line (bytes ''  root inode: mode=0o40000 size=128 zones[0]=3'') @
     bytes ''  /  (2 entries):'' @ [13, 10] @ bytes ''    inode    1  .'' @ [13, 10]"
proof -
  obtain n where n: "read_Inode (\<lambda>k. boot_disk ! k) 2048 = n" "mode n = 0x4000" "isize n = 128" "zones n ! 0 = 3"
    and b: "ninodes (read_SuperBlock (\<lambda>k. boot_disk ! k) 1024) = 1" "imap_blocks (read_SuperBlock (\<lambda>k. boot_disk ! k) 1024) = 0"
      "zmap_blocks (read_SuperBlock (\<lambda>k. boot_disk ! k) 1024) = 0"
      "SuperBlock.magic (read_SuperBlock (\<lambda>k. boot_disk ! k) 1024) = MINIX_MAGIC"
      "superblock_line (read_SuperBlock (\<lambda>k. boot_disk ! k) 1024) = bytes ''  superblock: ninodes=1 zones=0 block_size=0 first_data_zone=0''"
    by (rule boot_disk_inode)
  have len: "length boot_disk = 4096" by (simp add: boot_disk_def)
  have tab: "inode_table_offset \<lparr>fs_dev = 0, sb = read_SuperBlock (\<lambda>k. boot_disk ! k) 1024\<rparr> = 2048"
    using b(2,3) by (simp add: inode_table_offset_def BLOCK_SIZE_def)
  have dir: "is_dir n" by (simp add: is_dir_def n(2) TYPE_MASK_def DIRECTORY_def)
  have nh: "no_holes boot_disk (zones n) 128" using n(4) by (auto simp: no_holes_def path_def on_disk_def len)
  have "wanted_inode boot_disk ROOT_INODE = Some n"
    using b(1,4) n(1) by (simp add: wanted_inode_def Let_def tab len ROOT_INODE_def)
  then show "sound_root boot_disk" using nh n(3) by (simp add: sound_root_def)
  have "file_byte boot_disk (zones n) x = (if x = 0 then 1 else if x = 4 then 0x2e else 0)" if "x < 128" for x
    using that n(4) by (simp add: file_byte_def file_zone_def path_def boot_disk_def nth_append nth_Cons')
  note entries = dot_listing [OF this]
  have "root_line n = bytes ''  root inode: mode=0o40000 size=128 zones[0]=3''"
    by (simp add: root_line_def n bytes_def dec.simps oct.simps)
  then have root: "root_text boot_disk n = line (bytes ''  root inode: mode=0o40000 size=128 zones[0]=3'') @
      bytes ''  /  (2 entries):'' @ [13, 10] @ bytes ''    inode    1  .'' @ [13, 10]"
    using dir n(3) entries by (simp add: root_text_def)
  have probe: "bytes ''Probing device '' @ dec 0 @ bytes '' for Minix 3 filesystem...'' = bytes ''Probing device 0 for Minix 3 filesystem...''"
    by (simp add: bytes_def dec.simps)
  show "minix_text 0 boot_disk = line [] @ line (bytes ''Probing device 0 for Minix 3 filesystem...'') @
     line (bytes ''  superblock: ninodes=1 zones=0 block_size=0 first_data_zone=0'') @
     line (bytes ''  root inode: mode=0o40000 size=128 zones[0]=3'') @
     bytes ''  /  (2 entries):'' @ [13, 10] @ bytes ''    inode    1  .'' @ [13, 10]"
    unfolding minix_text_def Let_def tab b(5) probe n(1) root by (simp add: len b(1,4))
qed

lemma boot_machine_facts:
  "boot_table boot_machine" "frames_inv blk_layout boot_machine" "window_free (descriptors blk_layout boot_machine) 3 2"
  "trap_inv boot_machine" "first_block_device boot_machine = Some 0" "disk_of snd boot_machine = boot_disk"
  "board blk_layout both_soc 3 0 snd (\<lambda>_. 0) 1 (\<lambda>d. (fst d)\<lparr>busy := min (busy (fst d)) 2\<rparr>) 2 boot_machine"
  "5 < low_free blk_layout boot_machine" "sent (fst (hw boot_machine)) = []"
proof -
  have sel: "slots boot_machine = replicate 16 None" "current boot_machine = None" "NEXT_PID boot_machine = 1"
    "mscratch boot_machine = StaticFrame" "TRAP_FRAME boot_machine = TrapFrame_empty"
    by (simp_all add: boot_machine_def vio_state.extend_def trap_state.fields_def board_machine_def Let_def blk_machine_def idle_procs_def)
  then show "boot_table boot_machine" by (simp add: boot_table_def)
  show "trap_inv boot_machine"
    by (simp add: trap_inv_def procs_ok_def table_ok_def proc_at_def sel TrapFrame_empty_def)
  show b: "board blk_layout both_soc 3 0 snd (\<lambda>_. 0) 1 (\<lambda>d. (fst d)\<lparr>busy := min (busy (fst d)) 2\<rparr>) 2 boot_machine"
    using board_machine_board [of boot_disk] by (simp add: board_def boot_machine_def extend_ready)
  then show "frames_inv blk_layout boot_machine"
    using blk.ready_inv by (auto simp: board_def)
  have "descriptors blk_layout boot_machine = 1 # 3 # buffer_page"
    using blk_machine_descriptors [of buffer_page boot_disk]
    by (simp add: buffer_page_def descriptors_def boot_machine_def board_machine_def Let_def)
  then show "window_free (descriptors blk_layout boot_machine) 3 2"
    by (auto simp: window_free_def buffer_page_def is_taken_def nth_Cons' less_Suc_eq)
  show "first_block_device boot_machine = Some 0" "sent (fst (hw boot_machine)) = []"
    by (simp_all add: first_block_device_def boot_machine_def board_machine_def Let_def blk_machine_def MAX_VIRTIO_DEVICES_def)
  show "disk_of snd boot_machine = boot_disk" "5 < low_free blk_layout boot_machine"
    using board_machine_disk board_machine_pages by (simp_all add: boot_machine_def extend_ready)
qed

theorem skmain_starts_init_witness:
  "\<exists>s' c' s''. skmain blk_layout both_soc 3 0x80001000 boot_machine = Inr s' \<and>
     sent (fst (hw s')) = boot_text (Some 0) boot_disk \<and>
     minix_text 0 boot_disk = line [] @ line (bytes ''Probing device 0 for Minix 3 filesystem...'') @
       line (bytes ''  superblock: ninodes=1 zones=0 block_size=0 first_data_zone=0'') @
       line (bytes ''  root inode: mode=0o40000 size=128 zones[0]=3'') @
       bytes ''  /  (2 entries):'' @ [13, 10] @ bytes ''    inode    1  .'' @ [13, 10] \<and>
     take_trap blk_layout both_soc 3 0 0x8000000000000007 0 0 (\<lambda>_. 5, 0x80003000) s' = Inr (c', s'') \<and> snd c' = 0x80001000 \<and> fst c' 10 = 0"
proof -
  note f = boot_machine_facts
  have con: "uart_device both_soc UART_BASE (\<lambda>d. (fst d)\<lparr>busy := min (busy (fst d)) 2\<rparr>) 2" using f(7) by (simp add: board_def)
  have clk: "clock_ok both_soc d" for d by (simp add: clock_ok_def both_soc_def TIMER_TICK_def)
  have disk: "board blk_layout both_soc 3 i snd (\<lambda>_. 0) 1 (\<lambda>d. (fst d)\<lparr>busy := min (busy (fst d)) 2\<rparr>) 2 boot_machine \<and>
      5 < low_free blk_layout boot_machine \<and> sound_root (disk_of snd boot_machine)" if "first_block_device boot_machine = Some i" for i
    using that f(5-8) boot_disk_root(1) by simp
  from skmain_starts_init [OF f(1-4) con _ clk disk, of "0x80001000" 0 0 0 "(\<lambda>_. 5, 0x80003000)"]
  show ?thesis using boot_disk_root(2) unfolding f(5,6) by (auto simp: f(9))
qed

end
