(* ===== verification/Bootstrap.thy ===== *)
theory Bootstrap
  imports BootMap Startup
begin

text \<open>
  The whole boot: machine mode, supervisor mode and the first process, one after the other.
  \<open>virtio_port\<close> is the documented behaviour of the registers of a legacy virtio block device, as far
  as the setup uses them; from it and from the run of \<open>kinit\<close> follows the \<open>board\<close> that the self
  tests of \<open>skmain\<close> rely on.
\<close>

section \<open>A virtio block device behind its registers\<close>

text \<open>The status register, the page size of the guest, the data of the disk while no queue is set, and the queue.\<close>

record port =
  p_status :: u32
  p_page :: u32
  p_data :: "u8 list"
  p_queue :: "dview option"

definition contents :: "port \<Rightarrow> u8 list" where
  "contents p = (case p_queue p of None \<Rightarrow> p_data p | Some v \<Rightarrow> vdisk v)"

definition port_write :: "nat \<Rightarrow> u32 \<Rightarrow> port \<Rightarrow> port" where
  "port_write r v p =
     (if r = val Status then p\<lparr>p_status := v, p_data := contents p, p_queue := (if v = 0 then None else p_queue p)\<rparr>
      else if r = val GuestPageSize then p\<lparr>p_page := v\<rparr>
      else if r = val QueuePfn then
        p\<lparr>p_queue := Some \<lparr>vq = unat v * unat (p_page p), vseen = 0, vdisk = contents p\<rparr>\<rparr>
      else p)"

abbreviation window :: "nat \<Rightarrow> nat" where
  "window i \<equiv> MMIO_VIRTIO_START + i * 4096"

text \<open>
  Accesses to the window of the device succeed, reads change nothing, the identification registers
  and the status read as they should, and accesses elsewhere do not reach it.
\<close>

definition virtio_port :: "'d soc \<Rightarrow> nat \<Rightarrow> ('d \<Rightarrow> port) \<Rightarrow> bool" where
  "virtio_port M i pv \<longleftrightarrow>
     i < 8 \<and> disk_apart M pv \<and>
     (\<forall>a d. pv (snd (snd (rd32 M a d))) = pv d) \<and>
     (\<forall>a v d. a < window i \<or> window i + 4096 \<le> a \<longrightarrow> pv (snd (wr32 M a v d)) = pv d) \<and>
     (\<forall>a d. pv (snd (rd64 M a d)) = pv d) \<and> (\<forall>a v d. pv (wr64 M a v d) = pv d) \<and>
     (\<forall>r v d. r < 0x100 \<longrightarrow> fst (wr32 M (window i + r) v d) \<and>
        pv (snd (wr32 M (window i + r) v d)) = port_write r v (pv d)) \<and>
     (\<forall>r d. r < 0x100 \<longrightarrow> fst (snd (rd32 M (window i + r) d))) \<and>
     (\<forall>d. fst (rd32 M (window i + val MagicValue) d) = MMIO_VIRTIO_MAGIC \<and>
          fst (rd32 M (window i + val DeviceId) d) = VIRTIO_DEVICE_BLOCK \<and>
          8 \<le> fst (rd32 M (window i + val QueueNumMax) d) \<and>
          fst (rd32 M (window i + val Status) d) = p_status (pv d))"

text \<open>No block device answers in the window.\<close>

definition no_block :: "'d soc \<Rightarrow> nat \<Rightarrow> bool" where
  "no_block M j \<longleftrightarrow> (\<forall>d. fst (rd32 M (window j + val DeviceId) d) \<noteq> VIRTIO_DEVICE_BLOCK)"

lemma contents_port_write: "contents (port_write r v p) = contents p"
  by (simp add: port_write_def contents_def split: option.split)

section \<open>Steps that do not reach the device\<close>

definition calm :: "('d \<Rightarrow> 'p) \<Rightarrow> ('d, 'z) vio_state_scheme \<Rightarrow> ('d, 'z) vio_state_scheme \<Rightarrow> bool" where
  "calm pv s t \<longleftrightarrow>
     mem t = mem s \<and> ALLOC_START t = ALLOC_START s \<and> BLOCK_DEVICES t = BLOCK_DEVICES s \<and> pv (hw t) = pv (hw s)"

lemma calm_refl: "calm pv s s"
  by (simp add: calm_def)

lemma calm_trans: "calm pv s t \<Longrightarrow> calm pv t u \<Longrightarrow> calm pv s u"
  by (simp add: calm_def)

lemma quiet_calm: "quiet s t \<Longrightarrow> pv (hw t) = pv (hw s) \<Longrightarrow> calm pv s t"
  by (simp add: calm_def quiet_def)

lemma calm_kept:
  assumes "calm pv s t"
  shows "descriptors L t = descriptors L s" "held L t = held L s" "frames_inv L t = frames_inv L s" "queue_at t i = queue_at s i"
  using assms by (simp_all add: calm_def descriptors_def held_def frames_inv_def queue_at_def)

text \<open>What the rest of the machine does not disturb: a view that the serial port, the reads and the writes outside \<open>A\<close> keep.\<close>

definition apart_view :: "'d soc \<Rightarrow> nat set \<Rightarrow> ('d \<Rightarrow> 'p) \<Rightarrow> bool" where
  "apart_view M A pv \<longleftrightarrow>
     disk_apart M pv \<and> (\<forall>a d. pv (snd (snd (rd32 M a d))) = pv d) \<and>
     (\<forall>a v d. a \<notin> A \<longrightarrow> pv (snd (wr32 M a v d)) = pv d) \<and>
     (\<forall>a d. pv (snd (rd64 M a d)) = pv d) \<and> (\<forall>a v d. pv (wr64 M a v d) = pv d)"

lemma virtio_port_apart: "virtio_port M i pv \<Longrightarrow> apart_view M {window i..<window i + 4096} pv"
  by (auto simp: virtio_port_def apart_view_def)

lemma read_calm:
  assumes ap: "apart_view M A pv" and r: "mmio_read32 (bus.truncate M) ptr reg s = (x, t)"
  shows "calm pv s t"
proof (rule quiet_calm [OF mmio_read32_quiet [OF r]])
  show "pv (hw t) = pv (hw s)"
    using ap r by (auto simp: apart_view_def mmio_read32_def read_volatile32_def clear_access_fault_def take_access_fault_def
        access_fault_trap_def bus.truncate_def Let_def split: prod.splits if_splits) (metis snd_conv)+
qed

lemma print_calm:
  assumes "uart_device M UART_BASE uv P" "P < fuel" "apart_view M A pv" "print M fuel bs s = Inr t"
  shows "calm pv s t"
proof -
  have "says uv pv bs s (print M fuel bs s)" using assms by (intro says_print) (simp_all add: apart_view_def)
  with assms(4) show ?thesis by (auto simp: says_def calm_def)
qed

lemma other_probe_calm:
  fixes s t :: "('d, 'z) vio_state_scheme"
  assumes con: "uart_device M UART_BASE uv P" "P < fuel" and ap: "apart_view M A pv" and no: "no_block M j"
    and run: "probe_one L M fuel (window j) s = Inr t"
  shows "calm pv s t"
proof (rule probe_one_keeps [where P = "calm pv s", OF run calm_refl])
  show "calm pv s u'" if "calm pv s u" "print M fuel bs u = Inr u'" for bs u u'
    by (rule calm_trans [OF that(1) print_calm [OF con ap that(2)]])
  show "calm pv s u'" if "calm pv s u" "bus_mmio_read32 (bus.truncate M) (window j) reg u = (r, u')" for reg r u u'
    using calm_trans [OF that(1) read_calm [OF ap]] that(2) by (simp add: bus_mmio_read32_def mmio_read32_def)
  show "calm pv s u'" if "calm pv s u" "register_device k (window j) u = Inr u'" for k u u'
    using that by (auto simp: register_device_def bind_res_Inr_iff calm_def split: if_splits)
  show "calm pv s u'" if "bus_mmio_read32 (bus.truncate M) (window j) DeviceId t1 = (Some VIRTIO_DEVICE_BLOCK, t2)"
    for t1 t2 u' :: "('d, 'z) vio_state_scheme"
  proof -
    have "fst (rd32 M (window j + val DeviceId) (hw t1)) = VIRTIO_DEVICE_BLOCK"
      using that by (auto simp: bus_mmio_read32_def read_volatile32_def clear_access_fault_def take_access_fault_def
          access_fault_trap_def bus.truncate_def scale32_def scaled_def Let_def split: prod.splits if_splits)
    with no show ?thesis by (simp add: no_block_def)
  qed
qed

section \<open>The setup of the device\<close>

lemma port_try_write:
  assumes p: "virtio_port M i pv" and q: "quiet s0 s" "pv (hw s) = p" "val reg < 0x100"
    and k: "\<And>t. quiet s0 t \<Longrightarrow> pv (hw t) = port_write (val reg) v p \<Longrightarrow> G (k t)"
  shows "G (try_write (bus.truncate M) (window i) reg v k s)"
proof -
  obtain ok t where w: "mmio_write32 (bus.truncate M) (window i) reg v s = (ok, t)" by fastforce
  obtain ok' d where d: "wr32 M (window i + val reg) v (hw s) = (ok', d)" by fastforce
  have "fst (wr32 M (window i + val reg) v (hw s))" "pv (snd (wr32 M (window i + val reg) v (hw s))) = port_write (val reg) v p"
    using p q(2,3) by (simp_all add: virtio_port_def)
  then have "ok' = True" "pv d = port_write (val reg) v p" by (simp_all add: d)
  with w d have "ok" "pv (hw t) = port_write (val reg) v p"
    by (auto simp: mmio_write32_def write_volatile32_def clear_access_fault_def take_access_fault_def bus.truncate_def scale32_val Let_def)
  with k quiet_trans [OF q(1) mmio_write32_quiet [OF w]] w show ?thesis by (simp add: try_write_def)
qed

lemma port_read:
  assumes p: "virtio_port M i pv" and r: "val reg < 0x100"
  shows "\<exists>t. mmio_read32 (bus.truncate M) (window i) reg s = (Some (fst (rd32 M (window i + val reg) (hw s))), t) \<and> quiet s t \<and> pv (hw t) = pv (hw s)"
proof -
  obtain x t where w: "mmio_read32 (bus.truncate M) (window i) reg s = (x, t)" by fastforce
  have "fst (snd (rd32 M (window i + val reg) (hw s)))" using p r by (simp add: virtio_port_def)
  then have "x = Some (fst (rd32 M (window i + val reg) (hw s)))"
    using w by (auto simp: mmio_read32_def read_volatile32_def clear_access_fault_def take_access_fault_def bus.truncate_def
        scale32_val Let_def split: prod.splits)
  moreover have "pv (hw t) = pv (hw s)" using read_calm [OF virtio_port_apart [OF p] w] by (simp add: calm_def)
  ultimately show ?thesis using w mmio_read32_quiet [OF w] by simp
qed

lemma port_try_read:
  assumes p: "virtio_port M i pv" and q: "quiet s0 s" "pv (hw s) = p" "val reg < 0x100"
    and k: "\<And>x t. quiet s0 t \<Longrightarrow> pv (hw t) = p \<Longrightarrow> (reg = Status \<Longrightarrow> x = p_status p) \<Longrightarrow> (reg = QueueNumMax \<Longrightarrow> 8 \<le> x) \<Longrightarrow> G (k x t)"
  shows "G (try_read (bus.truncate M) (window i) reg k s)"
proof -
  let ?x = "fst (rd32 M (window i + val reg) (hw s))"
  obtain t where t: "mmio_read32 (bus.truncate M) (window i) reg s = (Some ?x, t)" "quiet s t" "pv (hw t) = pv (hw s)"
    using port_read [OF p q(3)] by blast
  have "G (k ?x t)"
    by (rule k [OF quiet_trans [OF q(1) t(2)]]) (use t(3) q(2) p in \<open>auto simp: virtio_port_def\<close>)
  then show ?thesis using t(1) by (simp add: try_read_def)
qed

text \<open>\<open>t\<close> is \<open>s\<close> with the device of slot \<open>i\<close> registered, on a fresh queue that the device knows.\<close>

definition attached :: "linker \<Rightarrow> ('d \<Rightarrow> port) \<Rightarrow> nat \<Rightarrow> ('d, 'z) vio_state_scheme \<Rightarrow> ('d, 'z) vio_state_scheme \<Rightarrow> bool" where
  "attached L pv i s t \<longleftrightarrow>
     (\<exists>b ro. BLOCK_DEVICES t = (BLOCK_DEVICES s)[i :=
          \<lparr>dev = window i, queue = fresh_queue b, ack_used_idx = 0, read_only = ro\<rparr>] \<and>
        p_queue (pv (hw t)) = Some \<lparr>vq = b, vseen = 0, vdisk = contents (pv (hw s))\<rparr> \<and>
        (\<forall>x. b \<le> x \<longrightarrow> x < b + 8192 \<longrightarrow> mem t x = 0)) \<and>
     ALLOC_START t = ALLOC_START s \<and> free_count (descriptors L s) = free_count (descriptors L t) + 2"

lemma calm_attached:
  assumes "calm pv s s1" "attached L pv i s1 t1" "calm pv t1 t"
  shows "attached L pv i s t"
  using assms calm_kept(1) [OF assms(1), of L] calm_kept(1) [OF assms(3), of L] unfolding attached_def calm_def by simp

text \<open>The page number of the queue fits the register and, with the page size, gives the address back.\<close>

lemma pfn_address:
  assumes "b < 2 ^ 32" "b mod 4096 = 0"
  shows "unat (of_nat b div of_nat PAGE_SIZE :: u32) * 4096 = b"
proof -
  have "unat (of_nat b :: u32) = b" using assms(1) by (simp add: unat_of_nat)
  moreover have "unat (4096 :: u32) = 4096" by simp
  ultimately have "unat (of_nat b div of_nat PAGE_SIZE :: u32) = b div 4096" by (simp add: unat_div del: unat_numeral)
  then show ?thesis using assms(2) by (simp add: mod_0_imp_dvd)
qed

definition room :: "linker \<Rightarrow> 'z kmem_scheme \<Rightarrow> bool" where
  "room L s \<longleftrightarrow> frames_inv L s \<and> (\<exists>j. window_free (descriptors L s) j 2) \<and> ALLOC_START s + npages L * PAGE_SIZE \<le> 2 ^ 32"

lemma queue_attached:
  fixes s :: "('d, 'z) vio_state_scheme"
  assumes p: "virtio_port M i pv" and q: "quiet s0 s" and page: "p_page (pv (hw s)) = 4096" and ct: "contents (pv (hw s)) = contents (pv (hw s0))"
    and rm: "room L s0" and len: "length (BLOCK_DEVICES s0) = 8" and bits: "bits OR VIRTIO_DRIVER_OK \<noteq> 0"
  shows "\<exists>t. setup_queue L M fuel (window i) i ro bits s = Inr (True, t) \<and> attached L pv i s0 t"
proof -
  have i: "i < 8" using p by (simp add: virtio_port_def)
  have ds: "descriptors L s = descriptors L s0" and inv: "frames_inv L s"
    using q rm by (simp_all add: quiet_def descriptors_def room_def frames_inv_def)
  obtain b s1 where z: "zallocate L 2 s = Inr (Some b, s1)" using zallocate_window [OF inv, of 2] rm ds by (fastforce simp: room_def)
  note za = zallocate_Some [OF inv z] and fc = zallocate_free_count [OF inv z]
  have "b + 2 * PAGE_SIZE \<le> ALLOC_START s0 + npages L * PAGE_SIZE" "b mod 4096 = 0"
    using held_bounds [OF za(1), of b 2] za(2,5) q by (auto simp: quiet_def)
  then have b: "unat (of_nat b div of_nat PAGE_SIZE :: u32) * 4096 = b" using rm by (intro pfn_address) (auto simp: room_def)
  have hw: "hw s1 = hw s" "BLOCK_DEVICES s1 = BLOCK_DEVICES s" using vio_more_eq [OF za(6)] by simp_all
  let ?G = "\<lambda>r. \<exists>t. r = Inr (True, t) \<and> attached L pv i s0 t"
  have "?G (setup_queue L M fuel (window i) i ro bits s)"
    unfolding setup_queue_def queue_geometry z bind_res_simps prod.case option.case Let_def
  proof (rule port_try_write [OF p quiet_refl refl])
    show "val QueuePfn < 0x100" by simp
    fix t2 assume t2: "quiet s1 t2" "pv (hw t2) = port_write (val QueuePfn) (of_nat b div of_nat PAGE_SIZE) (pv (hw s1))"
    have pq: "p_queue (pv (hw t2)) = Some \<lparr>vq = b, vseen = 0, vdisk = contents (pv (hw s0))\<rparr>"
      using t2(2) b page ct hw(1) by (simp add: port_write_def)
    let ?q = "QueueState_empty\<lparr>desc := b, avail := b + 128, used := b + 4096\<rparr>"
    let ?t3 = "t2\<lparr>BLOCK_DEVICES := (BLOCK_DEVICES t2)[i := \<lparr>dev = window i, queue = ?q, ack_used_idx = 0, read_only = ro\<rparr>]\<rparr>"
    let ?t4 = "?t3\<lparr>VIRTIO_DEVICES := (VIRTIO_DEVICES ?t3)[i := Some \<lparr>kind = Block\<rparr>]\<rparr>"
    have "?G (try_write (bus.truncate M) (window i) Status (bits OR VIRTIO_DRIVER_OK) (\<lambda>s5. Inr (True, s5)) ?t4)"
    proof (rule port_try_write [OF p quiet_refl refl])
      show "val Status < 0x100" by simp
      fix t assume t: "quiet ?t4 t" "pv (hw t) = port_write (val Status) (bits OR VIRTIO_DRIVER_OK) (pv (hw ?t4))"
      have "p_queue (pv (hw t)) = Some \<lparr>vq = b, vseen = 0, vdisk = contents (pv (hw s0))\<rparr>"
        using t(2) pq bits by (simp add: port_write_def)
      moreover have "descriptors L t = descriptors L s1" using t(1) t2(1) by (simp add: quiet_def descriptors_def)
      ultimately have "attached L pv i s0 t"
        using t(1) t2(1) za(5,7) hw(2) fc ds q by (auto simp: attached_def quiet_def fresh_queue_def)
      then show "?G (Inr (True, t))" by blast
    qed
    then show "?G (if i < MAX_VIRTIO_DEVICES then try_write (bus.truncate M) (window i) Status (bits OR VIRTIO_DRIVER_OK) (\<lambda>s5. Inr (True, s5)) ?t4
        else Inl IndexOutOfBounds)"
      using i by (simp add: MAX_VIRTIO_DEVICES_def)
  qed
  then show ?thesis .
qed

lemma setup_attached:
  fixes s :: "('d, 'z) vio_state_scheme"
  assumes p: "virtio_port M i pv" and rm: "room L s" and len: "length (BLOCK_DEVICES s) = 8"
  shows "\<exists>t. setup_block_device L M fuel (window i) s = Inr (True, t) \<and> attached L pv i s t"
proof -
  let ?G = "\<lambda>r. \<exists>t. r = Inr (True, t) \<and> attached L pv i s t"
  note w = port_try_write [OF p, where G = ?G] and r = port_try_read [OF p, where G = ?G]
  have branch: "?G (if c then x else y)" if "\<not> c" "?G y" for c and x y :: "(bool \<times> ('d, 'z) vio_state_scheme) res"
    using that by simp
  have slot: "dev_slot_from_ptr (window i) = Inr i" using p by (simp add: dev_slot_from_ptr_def usize_sub_def virtio_port_def)
  have "?G (setup_block_device L M fuel (window i) s)"
    unfolding setup_block_device_def slot bind_res_simps Let_def
    by ((rule w r, (assumption | rule quiet_refl), (assumption | rule refl), simp |
          rule branch, simp add: port_write_def virtio_consts not_less)+)
      (rule queue_attached [OF p _ _ _ rm len], assumption,
        simp_all add: contents_port_write, simp_all add: port_write_def virtio_consts)
  then show ?thesis .
qed

section \<open>Discovery\<close>

lemma disk_probe_attached:
  fixes s t :: "('d, 'z) vio_state_scheme"
  assumes con: "uart_device M UART_BASE uv P" "P < fuel" and p: "virtio_port M i pv" and rm: "room L s" and len: "length (BLOCK_DEVICES s) = 8"
    and run: "probe_one L M fuel (window i) s = Inr t"
  shows "attached L pv i s t"
proof -
  note ap = virtio_port_apart [OF p] and say = print_calm [OF con virtio_port_apart [OF p]]
  obtain t0 where t0: "print M fuel (bytes ''Virtio probing 0x'' @ pad_left 48 8 (hex (window i)) @ bytes ''...'') s = Inr t0"
    using run unfolding probe_one_def bind_res_Inr_iff by blast
  have port: "fst (rd32 M (window i + val MagicValue) d) = MMIO_VIRTIO_MAGIC" "fst (rd32 M (window i + val DeviceId) d) = VIRTIO_DEVICE_BLOCK" for d
    using p by (simp_all add: virtio_port_def)
  have eq: "bus_mmio_read32 = (mmio_read32 :: _ \<Rightarrow> _ \<Rightarrow> _ \<Rightarrow> ('d, 'z) vio_state_scheme \<Rightarrow> _)"
    by (simp add: fun_eq_iff bus_mmio_read32_def mmio_read32_def)
  obtain t1 where t1: "bus_mmio_read32 (bus.truncate M) (window i) MagicValue t0 = (Some MMIO_VIRTIO_MAGIC, t1)" "calm pv t0 t1"
    using port_read [OF p, of MagicValue t0] quiet_calm port(1) by (fastforce simp: eq)
  obtain t2 where t2: "bus_mmio_read32 (bus.truncate M) (window i) DeviceId t1 = (Some VIRTIO_DEVICE_BLOCK, t2)" "calm pv t1 t2"
    using port_read [OF p, of DeviceId t1] quiet_calm port(2) by (fastforce simp: eq)
  have "bind_res (print M fuel (bytes ''block device...'') t2) (\<lambda>s3. bind_res (setup_block_device L M fuel (window i) s3) (\<lambda>(ok, s4).
      println M fuel (bytes (if ok then ''setup succeeded!'' else ''setup failed.'')) s4)) = Inr t"
    using run t0 t1(1) t2(1) by (simp add: probe_one_def VIRTIO_DEVICE_BLOCK_def)
  then obtain t3 ok t4 where t3: "print M fuel (bytes ''block device...'') t2 = Inr t3"
    and t4: "setup_block_device L M fuel (window i) t3 = Inr (ok, t4)"
    and t: "println M fuel (bytes (if ok then ''setup succeeded!'' else ''setup failed.'')) t4 = Inr t"
    by (auto simp: bind_res_Inr_iff)
  have c: "calm pv s t3" using calm_trans say [OF t0] t1(2) t2(2) say [OF t3] by blast
  then have "room L t3" "length (BLOCK_DEVICES t3) = 8" using rm len calm_kept(1,3) [OF c, of L] by (simp_all add: room_def calm_def)
  then have "attached L pv i t3 t4" using setup_attached [OF p, where L = L and s = t3 and fuel = fuel] t4 by auto
  then show ?thesis using calm_attached [OF c] say [OF t [unfolded println_def]] by blast
qed

lemma others_calm:
  assumes con: "uart_device M UART_BASE uv P" "P < fuel" and ap: "apart_view M A pv"
  shows "\<forall>j \<in> set js. no_block M j \<Longrightarrow> fold_res (probe_one L M fuel) (map window js) s = Inr t \<Longrightarrow> calm pv s t"
proof (induction js arbitrary: s)
  case (Cons j js)
  obtain s1 where s1: "probe_one L M fuel (window j) s = Inr s1" "fold_res (probe_one L M fuel) (map window js) s1 = Inr t"
    using Cons.prems(2) by (auto simp: bind_res_Inr_iff)
  show ?case using calm_trans other_probe_calm [OF con ap _ s1(1)] Cons.IH [OF _ s1(2)] Cons.prems(1) by (meson list.set_intros)
qed (simp add: calm_refl)

lemma probe_windows: "probe L M fuel s = fold_res (probe_one L M fuel) (map window [0..<8]) s"
  by (simp add: probe_def virtio_consts)

lemma probe_attached:
  fixes s t :: "('d, 'z) vio_state_scheme"
  assumes con: "uart_device M UART_BASE uv P" "P < fuel" and p: "virtio_port M i pv" and no: "\<forall>j < 8. j \<noteq> i \<longrightarrow> no_block M j"
    and rm: "room L s" and len: "length (BLOCK_DEVICES s) = 8" and run: "probe L M fuel s = Inr t"
  shows "attached L pv i s t"
proof -
  note calm = others_calm [OF con virtio_port_apart [OF p], of _ L]
  have "i < 8" using p by (simp add: virtio_port_def)
  then have sp: "[0..<8] = [0..<i] @ i # [Suc i..<8]" by (metis upt_add_eq_append upt_conv_Cons le_add_diff_inverse less_imp_le zero_le)
  obtain s1 s2 where s1: "fold_res (probe_one L M fuel) (map window [0..<i]) s = Inr s1"
    "probe_one L M fuel (window i) s1 = Inr s2" "fold_res (probe_one L M fuel) (map window [Suc i..<8]) s2 = Inr t"
    using run [unfolded probe_windows sp map_append list.map(2) fold_res_append] by (auto simp: bind_res_Inr_iff)
  have c: "calm pv s s1" by (rule calm [OF _ s1(1)]) (use no \<open>i < 8\<close> in auto)
  then have "room L s1" "length (BLOCK_DEVICES s1) = 8" using rm len calm_kept(1,3) [OF c, of L] by (simp_all add: room_def calm_def)
  moreover have "calm pv s2 t" by (rule calm [OF _ s1(3)]) (use no in auto)
  ultimately show ?thesis using calm_attached [OF c disk_probe_attached [OF con p _ _ s1(2)]] by blast
qed

section \<open>The rest of machine mode\<close>

lemma low_write_calm:
  assumes ap: "apart_view M A pv" and A: "\<And>a. a \<in> A \<Longrightarrow> UART_BASE \<le> a" and a: "a < UART_BASE"
  shows "calm pv s (write_volatile32 (bus.truncate M) a v s)"
proof -
  obtain ok d where d: "wr32 M a v (hw s) = (ok, d)" by fastforce
  have "a \<notin> A" using A [of a] a by force
  then have "pv (snd (wr32 M a v (hw s))) = pv (hw s)" using ap by (simp add: apart_view_def)
  with d show ?thesis by (simp add: write_volatile32_def access_fault_trap_def bus.truncate_def calm_def)
qed

lemma volatile_read_calm:
  assumes ap: "apart_view M A pv" and r: "read_volatile32 (bus.truncate M) a s = (x, t)"
  shows "calm pv s t"
proof -
  obtain y ok d where d: "rd32 M a (hw s) = (y, ok, d)" by (metis prod_cases3)
  have "pv (snd (snd (rd32 M a (hw s)))) = pv (hw s)" using ap by (simp add: apart_view_def)
  with r d show ?thesis by (auto simp: read_volatile32_def access_fault_trap_def bus.truncate_def calm_def)
qed

lemma route_irq_calm:
  assumes ap: "apart_view M A pv" and A: "\<And>a. a \<in> A \<Longrightarrow> UART_BASE \<le> a" and src: "unat src < 32"
    and run: "route_irq (bus.truncate M) src s = Inr t"
  shows "calm pv s t"
proof -
  obtain prev s1 where r: "read_volatile32 (bus.truncate M) PLIC_ENABLE_HART0_M s = (prev, s1)" by fastforce
  note c = volatile_read_calm [OF ap r] and w = low_write_calm [OF ap A]
  have addr: "PLIC_ENABLE_HART0_M < UART_BASE" "PLIC_PRIORITY + 4 * unat src < UART_BASE"
    using src by (simp_all add: PLIC_ENABLE_HART0_M_def PLIC_PRIORITY_def UART_BASE_def)
  have "t = write_volatile32 (bus.truncate M) (PLIC_PRIORITY + 4 * unat src) 1
      (write_volatile32 (bus.truncate M) PLIC_ENABLE_HART0_M (prev OR push_bit (unat src) 1) s1)"
    using run r src by (simp add: route_irq_def plic_enable_def plic_set_priority_def)
  then show ?thesis using calm_trans [OF c calm_trans [OF w [OF _ addr(1)] w [OF _ addr(2)]]] by simp
qed

lemma route_irqs_calm:
  assumes ap: "apart_view M A pv" and A: "\<And>a. a \<in> A \<Longrightarrow> UART_BASE \<le> a"
  shows "\<forall>src \<in> set xs. unat src < 32 \<Longrightarrow> fold_res (route_irq (bus.truncate M)) xs s = Inr t \<Longrightarrow> calm pv s t"
proof (induction xs arbitrary: s)
  case (Cons x xs)
  obtain s1 where s1: "route_irq (bus.truncate M) x s = Inr s1" "fold_res (route_irq (bus.truncate M)) xs s1 = Inr t"
    using Cons.prems(2) by (auto simp: bind_res_Inr_iff)
  show ?case using calm_trans route_irq_calm [OF ap A _ s1(1)] Cons.IH [OF _ s1(2)] Cons.prems(1) by (meson list.set_intros)
qed (simp add: calm_refl)

lemma setup_devices_calm:
  assumes con: "uart_device M UART_BASE uv P" "P < fuel" and ap: "apart_view M A pv" and A: "\<And>a. a \<in> A \<Longrightarrow> UART_BASE \<le> a"
    and inv: "registry_inv L s" and run: "setup_devices L M fuel s = Inr t"
  obtains s1 s2 where "calm pv s s1" "probe L M fuel s1 = Inr s2" "calm pv s2 t"
proof -
  let ?B = "bus.truncate M"
  let ?s0 = "plic_set_threshold ?B 0 s"
  obtain s1 s2 irqs where r: "route_irq ?B UART0_IRQ ?s0 = Inr s1" "probe L M fuel s1 = Inr s2" "configured_irqs s2 = Inr irqs"
    "fold_res (route_irq ?B) (List.map_filter id irqs) s2 = Inr t"
    using run by (auto simp: setup_devices_def bind_res_Inr_iff)
  have c0: "calm pv s ?s0" unfolding plic_set_threshold_def
    by (rule low_write_calm [OF ap A]) (simp_all add: PLIC_THRESHOLD_HART0_M_def UART_BASE_def)
  have q: "quiet s s1"
  proof (rule quiet_trans)
    show "quiet s ?s0" by (auto simp: plic_set_threshold_def write_volatile32_def access_fault_trap_def quiet_def split: prod.split)
    show "quiet ?s0 s1" using route_irq_quiet [of UART0_IRQ ?B ?s0] r(1) by (simp add: UART0_IRQ_def)
  qed
  have "registry_inv L s2"
    using probe_registers_run [OF uart_console_ok [OF con] registry_quiet [OF inv q]] r(2) by simp
  then have "\<forall>src \<in> set (List.map_filter id irqs). unat src < 32"
    using configured_irqs_small [of L s2] r(3) by (auto simp: List.map_filter_def)
  then have "calm pv s2 t" using route_irqs_calm [OF ap A] r(4) by blast
  moreover have "calm pv ?s0 s1" by (rule route_irq_calm [OF ap A _ r(1)]) (simp_all add: UART0_IRQ_def)
  ultimately show thesis using that calm_trans [OF c0] r(2) by blast
qed

lemma enable_interrupts_calm:
  assumes ap: "apart_view M A pv" and run: "enable_interrupts M s = Inr t"
  shows "calm pv s t"
proof -
  obtain x d where d: "rd64 M CLINT_MTIME (hw s) = (x, d)" by fastforce
  have "pv (snd (rd64 M CLINT_MTIME (hw s))) = pv (hw s)" "\<And>v. pv (wr64 M CLINT_MTIMECMP v d) = pv d"
    using ap by (simp_all add: apart_view_def)
  with d run show ?thesis by (auto simp: enable_interrupts_def rearm_timer_def bind_res_Inr_iff calm_def)
qed

text \<open>The banner.\<close>

lemma banner_view:
  assumes con: "uart_device M UART_BASE uv P" "P < fuel" and ap: "apart_view M A pv"
    and run: "bind_res (println M fuel [] (s\<lparr>hw := uart_init M UART_BASE (hw s)\<rparr>)) (println M fuel txt) = Inr (s\<lparr>hw := d\<rparr>)"
  shows "pv d = pv (hw s)"
proof -
  have wr: "pv (wr8 M a b e) = pv e" if "UART_BASE \<le> a" "a < UART_BASE + 8" for a b e
    using ap that by (simp add: apart_view_def disk_apart_def)
  have "pv (uart_init M UART_BASE (hw s)) = pv (hw s)"
    by (simp add: uart_init_def uart_write_def wr uart_consts)
  moreover obtain s1 where s1: "println M fuel [] (s\<lparr>hw := uart_init M UART_BASE (hw s)\<rparr>) = Inr s1" "println M fuel txt s1 = Inr (s\<lparr>hw := d\<rparr>)"
    using run by (auto simp: bind_res_Inr_iff)
  ultimately show ?thesis
    using print_calm [OF con ap s1(1) [unfolded println_def]] print_calm [OF con ap s1(2) [unfolded println_def]] by (simp add: calm_def)
qed

section \<open>The machine at the entry of skmain\<close>

text \<open>The heap loses the table of descriptors and its rounding: that many pages of the table lie beyond its end.\<close>

lemma low_free_bound:
  assumes "frames_inv L s" "ALLOC_START s < heap_start L + npages L + PAGE_SIZE"
  shows "free_count (descriptors L s) \<le> low_free L s + npages L div 4096 + 2"
proof -
  let ?n = "npages L"
  let ?low = "{j. j < ?n \<and> \<not> is_taken (descriptors L s ! j) \<and> ALLOC_START s + j * PAGE_SIZE < heap_end L}"
  have len: "length (descriptors L s) = ?n" by simp
  have "ALLOC_START s + j * 4096 < heap_end L" if "j < ?n - (?n div 4096 + 2)" for j
  proof -
    have "?n < 4096 * (?n div 4096) + 4096" by (metis mult.commute mult_Suc_right add.commute dividend_less_times_div zero_less_numeral)
    moreover have "4096 * ?n \<le> heap_size L" by simp
    moreover have "j + ?n div 4096 + 3 \<le> ?n" using that by linarith
    ultimately show ?thesis using assms(2) by (simp only: PAGE_SIZE_eq)
  qed
  then have "{j. j < ?n \<and> \<not> is_taken (descriptors L s ! j)} \<subseteq> ?low \<union> {?n - (?n div 4096 + 2)..<?n}"
    by (auto simp: not_less)
  then have "card {j. j < ?n \<and> \<not> is_taken (descriptors L s ! j)} \<le> card (?low \<union> {?n - (?n div 4096 + 2)..<?n})"
    by (intro card_mono) auto
  also have "\<dots> \<le> card ?low + card {?n - (?n div 4096 + 2)..<?n}" by (rule card_Un_le)
  also have "\<dots> \<le> low_free L s + (?n div 4096 + 2)" unfolding low_free_def card_atLeastLessThan by linarith
  finally show ?thesis by (simp add: free_count_card len)
qed

lemma first_block_device_None: "\<forall>bd \<in> set (BLOCK_DEVICES s). dev bd = 0 \<Longrightarrow> first_block_device s = None"
  by (auto simp: first_block_device_def position_None dest: in_set_takeD)

lemma attached_board:
  assumes at: "attached L pv i s t" and inv: "registry_inv L t"
    and statics: "length (BLOCK_DEVICES s) = 8" "\<forall>bd \<in> set (BLOCK_DEVICES s). dev bd = 0"
    and con: "uart_device M UART_BASE uv P" "P < fuel" and ap: "uart_apart M uv"
    and p: "virtio_port M i pv" and blk: "blk_device (bus.truncate M) (window i) (\<lambda>d. p_queue (pv d)) rank N" "N \<le> fuel"
  shows "board L M fuel i (\<lambda>d. p_queue (pv d)) rank N uv P t" "first_block_device t = Some i"
    "disk_of (\<lambda>d. p_queue (pv d)) t = contents (pv (hw s))"
proof -
  have i: "i < 8" using p by (simp add: virtio_port_def)
  obtain b ro where b: "BLOCK_DEVICES t = (BLOCK_DEVICES s)[i := \<lparr>dev = window i, queue = fresh_queue b, ack_used_idx = 0, read_only = ro\<rparr>]"
    "p_queue (pv (hw t)) = Some \<lparr>vq = b, vseen = 0, vdisk = contents (pv (hw s))\<rparr>" "\<And>x. b \<le> x \<Longrightarrow> x < b + 8192 \<Longrightarrow> mem t x = 0"
    using at unfolding attached_def by blast
  have bd: "dev (BLOCK_DEVICES t ! i) = window i" "queue_at t i = b" using b(1) i statics(1) by (simp_all add: queue_at_def fresh_queue_def)
  have slot: "slot_ok L t i" using inv i bd(1) by (simp add: registry_inv_def MMIO_VIRTIO_START_def)
  have "ld16 (mem t) (avail_idx_addr (b + 128)) = 0" by (rule zero_ld16) (simp_all add: avail_idx_addr_def b(3))
  then have "drv_ok L i (\<lambda>d. p_queue (pv d)) t"
    using inv slot i b(2) bd(2) by (simp add: drv_ok_def registry_inv_def slot_ok_def synced_def)
  moreover have "devices_apart (map dev (BLOCK_DEVICES t))"
    using statics set_update_subset_insert [of "BLOCK_DEVICES s" i] unfolding b(1) devices_apart_def by fastforce
  moreover have "disk_apart M (\<lambda>d. p_queue (pv d))" using p by (simp add: virtio_port_def disk_apart_def)
  ultimately show "board L M fuel i (\<lambda>d. p_queue (pv d)) rank N uv P t"
    using con ap blk bd(1) by (simp add: board_def blk_ready_def)
  show "disk_of (\<lambda>d. p_queue (pv d)) t = contents (pv (hw s))" by (simp add: disk_of_def b(2))
  show "first_block_device t = Some i"
    unfolding first_block_device_def position_Some using i bd(1) b(1) statics
    by (auto simp: MAX_VIRTIO_DEVICES_def MMIO_VIRTIO_START_def)
qed

text \<open>
  The hardware of the boot: a serial port, a clock, and a block device in slot \<open>found\<close> or none; the
  statics of the kernel as the image has them.
\<close>

definition boot_hw :: "'d soc \<Rightarrow> nat \<Rightarrow> ('d \<Rightarrow> uview) \<Rightarrow> nat \<Rightarrow> nat option \<Rightarrow> ('d \<Rightarrow> port) \<Rightarrow> ('d \<Rightarrow> nat) \<Rightarrow> nat \<Rightarrow> bool" where
  "boot_hw M fuel uv P found pv rank N \<longleftrightarrow>
     uart_device M UART_BASE uv P \<and> P < fuel \<and> (\<forall>d. clock_ok M d) \<and>
     (\<forall>j < 8. found \<noteq> Some j \<longrightarrow> no_block M j) \<and>
     (\<forall>i. found = Some i \<longrightarrow> virtio_port M i pv \<and> uart_apart M uv \<and>
        blk_device (bus.truncate M) (window i) (\<lambda>d. p_queue (pv d)) rank N \<and> N \<le> fuel)"

definition boot_image :: "('d, 'z) trap_state_scheme \<Rightarrow> bool" where
  "boot_image s \<longleftrightarrow>
     length (BLOCK_DEVICES s) = 8 \<and> (\<forall>bd \<in> set (BLOCK_DEVICES s). dev bd = 0) \<and> length (VIRTIO_DEVICES s) = 8 \<and>
     boot_table s \<and> length (regs (TRAP_FRAME s)) = 32"

lemma devices_ready:
  assumes hw: "boot_hw M fuel uv P found pv rank N" and inv: "registry_inv L s" "registry_inv L u" and rm: "room L s"
    and statics: "length (BLOCK_DEVICES s) = 8" "\<forall>bd \<in> set (BLOCK_DEVICES s). dev bd = 0"
    and run: "setup_devices L M fuel s = Inr t" "enable_interrupts M t = Inr u"
  shows "first_block_device u = found \<and> ALLOC_START u = ALLOC_START s \<and> free_count (descriptors L s) \<le> free_count (descriptors L u) + 2 \<and>
     (\<forall>i. found = Some i \<longrightarrow> board L M fuel i (\<lambda>d. p_queue (pv d)) rank N uv P u \<and>
        disk_of (\<lambda>d. p_queue (pv d)) u = contents (pv (hw s)))"
proof -
  have con: "uart_device M UART_BASE uv P" "P < fuel" using hw by (simp_all add: boot_hw_def)
  show ?thesis
  proof (cases found)
    case None
    have ap: "apart_view M {} (\<lambda>_. ())" by (simp add: apart_view_def disk_apart_def)
    obtain s1 s2 where c: "calm (\<lambda>_. ()) s s1" "probe L M fuel s1 = Inr s2" "calm (\<lambda>_. ()) s2 t"
      by (rule setup_devices_calm [OF con ap _ inv(1) run(1)]) auto
    have "calm (\<lambda>_. ()) s1 s2"
      by (rule others_calm [OF con ap _ c(2) [unfolded probe_windows]]) (use hw None in \<open>simp add: boot_hw_def\<close>)
    then have cu: "calm (\<lambda>_. ()) s u" using calm_trans c(1,3) enable_interrupts_calm [OF ap run(2)] by blast
    then have "BLOCK_DEVICES u = BLOCK_DEVICES s" "ALLOC_START u = ALLOC_START s" by (simp_all add: calm_def)
    then show ?thesis using None statics(2) first_block_device_None [of u] calm_kept(1) [OF cu, of L] by simp
  next
    case (Some i)
    have d: "virtio_port M i pv" "uart_apart M uv" "blk_device (bus.truncate M) (window i) (\<lambda>d. p_queue (pv d)) rank N" "N \<le> fuel"
      using hw Some by (simp_all add: boot_hw_def)
    note ap = virtio_port_apart [OF d(1)]
    obtain s1 s2 where c: "calm pv s s1" "probe L M fuel s1 = Inr s2" "calm pv s2 t"
      by (rule setup_devices_calm [OF con ap _ inv(1) run(1)]) (auto simp: UART_BASE_def MMIO_VIRTIO_START_def)
    have r: "room L s1" "length (BLOCK_DEVICES s1) = 8" using rm statics(1) c(1) calm_kept(1,3) [OF c(1), of L] by (simp_all add: room_def calm_def)
    have "attached L pv i s1 s2" by (rule probe_attached [OF con d(1) _ r c(2)]) (use hw Some in \<open>auto simp: boot_hw_def\<close>)
    then have at: "attached L pv i s u" using calm_attached [OF c(1)] calm_trans [OF c(3) enable_interrupts_calm [OF ap run(2)]] by blast
    show ?thesis using attached_board [OF at inv(2) statics con d(2,1,3,4)] at Some by (simp add: attached_def)
  qed
qed

lemma kinit_ready:
  fixes s :: "('d, 'z) trap_state_scheme"
  assumes lds: "lds_ok L" "0x200000 \<le> heap_size L" and hw: "boot_hw M fuel uv P found pv rank N" and im: "boot_image s"
  obtains h u j where "kinit L M fuel s = Inr (h, u)" "csr_mepc h = At_skmain" "boot_table u" "frames_inv L u"
    "window_free (descriptors L u) j 2" "trap_inv u" "first_block_device u = found" "5 < low_free L u"
    "\<And>i. found = Some i \<Longrightarrow> board L M fuel i (\<lambda>d. p_queue (pv d)) rank N uv P u \<and>
        disk_of (\<lambda>d. p_queue (pv d)) u = contents (pv (hw s))"
proof -
  have con: "uart_device M UART_BASE uv P" "P < fuel" and clk: "\<forall>d. unat (fst (rd64 M CLINT_MTIME d)) + unat TIMER_TICK < 2 ^ 64"
    using hw by (simp_all add: boot_hw_def clock_ok_def)
  have im': "length (BLOCK_DEVICES s) = 8" "\<forall>bd \<in> set (BLOCK_DEVICES s). dev bd = 0" "length (VIRTIO_DEVICES s) = 8"
    "boot_table s" "length (regs (TRAP_FRAME s)) = 32" using im by (simp_all add: boot_image_def)
  obtain root stk s6 s7 u d8 where run: "kinit L M fuel s = Inr (enter_sv39 (make_satp_sv39 (of_nat root)) At_skmain, u)"
    and banner: "bind_res (println M fuel [] (s\<lparr>hw := uart_init M UART_BASE (hw s)\<rparr>)) (println M fuel (bytes ''vesper booted successfully!'')) =
       Inr (s\<lparr>hw := hw s6\<rparr>)"
    and s7: "setup_devices L M fuel s6 = Inr s7" "enable_interrupts M s7 = Inr u" "u = s7\<lparr>hw := d8, mie := MIE_MEIE OR MIE_MTIE\<rparr>"
    and inv: "registry_inv L s6" "registry_inv L u" and same: "proc_view s7 = proc_view s6"
    and s6: "mscratch s6 = StaticFrame" "regs (TRAP_FRAME s6) = regs (TRAP_FRAME s)"
      "BLOCK_DEVICES s6 = BLOCK_DEVICES s" "slots s6 = slots s" "current s6 = current s" "NEXT_PID s6 = NEXT_PID s"
      "ALLOC_START s6 < heap_start L + npages L + PAGE_SIZE" "npages L \<le> free_count (descriptors L s6) + 72"
    by (rule kinit_parts [OF lds con clk im'(1-3)]) (rule that)
  have fr: "frames_inv L s6" "frames_inv L u" using inv by (simp_all add: registry_inv_def)
  have np: "512 \<le> npages L" "npages L < 0x8000" using lds_ok_heap(4) [OF lds(1)] div_le_mono [OF lds(2), of 4096] by simp_all
  have rm: "room L s6"
    unfolding room_def using fr(1) free_window [of "descriptors L s6" 2] s6(7,8) np lds_ok_heap(2,3) [OF lds(1)] by auto
  note dr = devices_ready [OF hw inv rm _ _ s7(1,2), unfolded s6(3), OF im'(1,2)]
  have left: "npages L \<le> free_count (descriptors L u) + 74" using dr s6(8) by linarith
  have "length (descriptors L u) - free_count (descriptors L u) < length (descriptors L u) div 2" using left np by simp
  then obtain j where "window_free (descriptors L u) j 2" using free_window [of "descriptors L u" 2] by auto
  moreover have "5 < low_free L u" using low_free_bound [OF fr(2)] dr s6(7) left np by (simp add: div_less)
  moreover have tab: "boot_table u" using same s6(4-6) im'(4) by (simp add: s7(3) boot_table_def proc_view_def)
  moreover have "trap_inv u" using proc_view_trap [OF same] s6(1,2) im'(5) tab
    by (simp add: s7(3) trap_inv_def procs_ok_def table_ok_def proc_at_def boot_table_def)
  moreover have "pv (hw s6) = pv (hw s)" if "found = Some i" for i
    by (rule banner_view [OF con virtio_port_apart banner, of i]) (use hw that in \<open>simp add: boot_hw_def\<close>)
  moreover have "csr_mepc (enter_sv39 (make_satp_sv39 (of_nat root)) At_skmain) = At_skmain" by (simp add: enter_sv39_def)
  ultimately show thesis using run fr(2) dr by (intro that [of "enter_sv39 (make_satp_sv39 (of_nat root)) At_skmain" u j]) auto
qed

section \<open>Properties\<close>

text \<open>
  C1: From reset to the first process. For every layout the linker script allows that leaves two
  megabytes of heap, on a machine with a serial port, a clock, and a legacy virtio block device in
  one of the eight windows or none, machine mode hands over to \<open>skmain\<close>, which finds exactly that
  device and reaches its idle loop. Between the two the console shows exactly \<open>boot_text\<close> of what
  was on the disk at reset. The only new run in use is the stack of init, the only process, and the
  first timer interrupt starts it at its entry on that stack with every other register zero.
\<close>

theorem boots_to_init:
  fixes s :: "('d, 'z) trap_state_scheme"
  assumes lds: "lds_ok L" "0x200000 \<le> heap_size L" and hw: "boot_hw M fuel uv P found pv rank N" and im: "boot_image s"
    and root: "found = None \<or> sound_root (contents (pv (hw s)))"
  shows "\<exists>h s1 s2 c' s3 stk. kinit L M fuel s = Inr (h, s1) \<and> csr_mepc h = At_skmain \<and> first_block_device s1 = found \<and>
     skmain L M fuel entry s1 = Inr s2 \<and>
     sent (uv (hw s2)) = sent (uv (hw s1)) @ boot_text found (contents (pv (hw s))) \<and>
     held L s2 = insert (stk, 2) (held L s1) \<and> (stk, 2) \<notin> held L s1 \<and>
     (\<forall>k. proc_at s2 k = (if k = 0 then Some (new_process (TRAP_STACK_TOP s1) entry stk 1) else None)) \<and>
     take_trap L M fuel tval 0x8000000000000007 hart status c s2 = Inr (c', s3) \<and> current s3 = Some 0 \<and>
     snd c' = entry \<and> fst c' 2 = of_nat (stk + 2 * PAGE_SIZE) \<and> (\<forall>r. r \<noteq> 2 \<longrightarrow> fst c' r = 0)"
proof -
  obtain h u j where k: "kinit L M fuel s = Inr (h, u)" "csr_mepc h = At_skmain"
    and u: "boot_table u" "frames_inv L u" "window_free (descriptors L u) j 2" "trap_inv u"
    and d: "first_block_device u = found" "5 < low_free L u"
      "\<And>i. found = Some i \<Longrightarrow> board L M fuel i (\<lambda>d. p_queue (pv d)) rank N uv P u \<and>
        disk_of (\<lambda>d. p_queue (pv d)) u = contents (pv (hw s))"
    by (rule kinit_ready [OF lds hw im]) (rule that)
  have con: "uart_device M UART_BASE uv P" "P < fuel" and clk: "\<And>d. clock_ok M d" using hw by (simp_all add: boot_hw_def)
  have disk: "board L M fuel i (\<lambda>d. p_queue (pv d)) rank N uv P u \<and> 5 < low_free L u \<and> sound_root (disk_of (\<lambda>d. p_queue (pv d)) u)"
    if "first_block_device u = Some i" for i using d that root by auto
  have told': "boot_text found (disk_of (\<lambda>d. p_queue (pv d)) u) = boot_text found (contents (pv (hw s)))"
    using d(3) by (cases found) (simp_all add: boot_text_def tests_text_def)
  show ?thesis
    by (rule exI [of _ h], rule exI [of _ u])
      (use skmain_run [OF u con clk disk, of entry tval hart status c] k d(1) told' in simp)
qed

text \<open>A machine at reset with the disk \<open>boot_disk\<close> in the first window.\<close>

definition port_soc :: "(uview \<times> port) soc" where
  "port_soc =
     \<lparr>rd32 = (\<lambda>a d. (if a = window 0 then MMIO_VIRTIO_MAGIC else if a = window 0 + 0x08 then VIRTIO_DEVICE_BLOCK
          else if a = window 0 + 0x34 then 8 else if a = window 0 + 0x70 then p_status (snd d) else 0, True, d)),
      wr32 = (\<lambda>a v (u, p). (True, (u, if window 0 \<le> a \<and> a < window 0 + 0x100 then port_write (a - window 0) v p else p))),
      dma = (\<lambda>m (u, p). case dma instant_bus m (p_queue p) of (m', v) \<Rightarrow> (m', (u, p\<lparr>p_queue := v\<rparr>))),
      rd8 = (\<lambda>a (u, p). case rd8 demo_chip a u of (b, u') \<Rightarrow> (b, (u', p))), wr8 = (\<lambda>a b (u, p). (wr8 demo_chip a b u, p)),
      rd64 = (\<lambda>_ d. (0, d)), wr64 = (\<lambda>_ _ d. d)\<rparr>"

definition reset_machine :: "(uview \<times> port) trap_state" where
  "reset_machine =
     \<lparr>mem = (\<lambda>_. 0), ALLOC_START = 0, slots = replicate 16 None, current = None, NEXT_PID = 1,
      BLOCK_DEVICES = replicate 8 BlockDevice_empty, VIRTIO_DEVICES = replicate 8 None, ACCESS_FAULT_SEEN = False,
      hw = (\<lparr>sent = [], rx = [], busy = 0\<rparr>, \<lparr>p_status = 0, p_page = 0, p_data = boot_disk, p_queue = None\<rparr>),
      TRAP_STACK_TOP = 0, TRAP_FRAME = TrapFrame_empty, ESC_STATE = Idle, mscratch = StaticFrame, mtvec = asm_trap_vector, mie = 0\<rparr>"

lemma port_soc_hw: "boot_hw port_soc 3 (\<lambda>d. (fst d)\<lparr>busy := min (busy (fst d)) 2\<rparr>) 2 (Some 0) snd (\<lambda>_. 0) 1"
proof -
  have "virtio_port port_soc 0 snd"
    by (auto simp: virtio_port_def port_soc_def disk_apart_def demo_chip_def split_beta)
  moreover have "uart_device port_soc UART_BASE (\<lambda>d. (fst d)\<lparr>busy := min (busy (fst d)) 2\<rparr>) 2"
    using demo_chip_uart by (simp add: uart_device_def port_soc_def split_beta)
  moreover have "uart_apart port_soc (\<lambda>d. (fst d)\<lparr>busy := min (busy (fst d)) 2\<rparr>)"
    by (auto simp: uart_apart_def port_soc_def split_beta)
  moreover have "blk_device (bus.truncate port_soc) (window 0) (\<lambda>d. p_queue (snd d)) (\<lambda>_. 0) 1"
    by (auto simp: blk_device_def port_soc_def instant_bus_def bus.truncate_def port_write_def split: option.split)
  moreover have "no_block port_soc j" if "0 < j" "j < 8" for j
    using that by (auto simp: no_block_def port_soc_def virtio_consts)
  ultimately show ?thesis by (auto simp: boot_hw_def clock_ok_def port_soc_def TIMER_TICK_def)
qed

theorem boots_to_init_witness:
  "\<exists>h s1 s2 c' s3. kinit demo_layout port_soc 3 reset_machine = Inr (h, s1) \<and> first_block_device s1 = Some 0 \<and>
     skmain demo_layout port_soc 3 0x80001000 s1 = Inr s2 \<and> sent (fst (hw s2)) = sent (fst (hw s1)) @ boot_text (Some 0) boot_disk \<and>
     take_trap demo_layout port_soc 3 0 0x8000000000000007 0 0 (\<lambda>_. 5, 0x80003000) s2 = Inr (c', s3) \<and>
     snd c' = 0x80001000 \<and> fst c' 10 = 0"
proof -
  have im: "boot_image reset_machine"
    by (simp add: boot_image_def boot_table_def reset_machine_def BlockDevice_empty_def TrapFrame_empty_def)
  have ct: "contents (snd (hw reset_machine)) = boot_disk" by (simp add: contents_def reset_machine_def)
  have heap: "0x200000 \<le> heap_size demo_layout" by (simp add: demo_layout_def)
  have root: "Some (0 :: nat) = None \<or> sound_root (contents (snd (hw reset_machine)))" unfolding ct using boot_disk_root(1) by simp
  from boots_to_init [OF demo_layout_ok heap port_soc_hw im root, of "0x80001000" 0 0 0 "(\<lambda>_. 5, 0x80003000)"]
  show ?thesis unfolding ct by auto
qed

end
