(* ===== verification/Spec2Isabelle.thy ===== *)
theory Spec2Isabelle
  imports Unmap Bootstrap
begin

text \<open>
  \<^bold>\<open>Vesper: a verification library for the kernel\<close>

  Vesper is a kernel for one RISC-V hart of the QEMU \<open>virt\<close> machine. \<open>boot.S\<close> clears the BSS and
  enters \<open>kinit\<close> in machine mode, which sets up the page-frame allocator, an identity mapping in
  Sv39, the trap handler, the interrupt controller and the virtio devices and then drops to
  supervisor mode at \<open>skmain\<close>. There the block driver, the Minix 3 reader and the ELF parser are
  exercised and the first kernel thread is spawned. From then on the kernel is driven by traps:
  the vector in \<open>trap.S\<close> saves the registers and calls \<open>m_trap\<close>, which echoes the console, completes
  block requests, schedules on the timer and serves system calls.

  \<^bold>\<open>Conventions\<close> (\<open>Prelude\<close>)

  A computation that may panic or touch memory it must not returns a \<open>res\<close>, a \<open>fault\<close> or a value;
  \<open>fault\<close> has one constructor per cause: a failed assertion, an index out of bounds, a checked
  overflow, an \<open>unwrap\<close> or \<open>expect\<close> of nothing, an explicit panic with its message, an access outside the object, a
  misaligned reference, and \<open>Diverges\<close> for a wait that does not end or a hart that parks. \<open>usize\<close>
  values are natural numbers with checked operations, as in a debug build; fields and registers
  whose bits matter are machine words. Memory is a function from addresses to bytes; integers in it
  are little-endian. The state is one chain of extensible records: \<open>kmem\<close> (memory and the allocator's
  static), \<open>proc_state\<close> (the process table), \<open>vio_state\<close> (the device tables and the hardware) and
  \<open>trap_state\<close> (the statics and control registers of the trap handler), so that every operation of
  an inner component applies to the state of an outer one. The descriptor table, page tables,
  virtqueues, requests and file buffers live in byte memory; the process table, its trap frames and
  the device tables are fields, so a claim about them does not depend on where the linker puts them.

  \<^bold>\<open>Components\<close>

  \<^item> \<open>Linker\<close>: the symbols of \<open>linker/mod.rs\<close> as a record parameter; \<open>lds_ok\<close> is what \<open>virt.lds\<close>
    promises of them.
  \<^item> \<open>PageFrame\<close>: \<open>mm/alloc/page_frame.rs\<close>. First fit, exact release, zeroed pages, double frees,
    and that in every reachable heap the runs in use are disjoint. The locale \<open>frame_allocator\<close> is
    the contract its clients use, with the interpretation \<open>pf\<close>. The table describes more pages
    than RAM has; \<open>allocate_past_end_of_ram\<close> shows the consequence.
  \<^item> \<open>Sv39\<close>, \<open>Translate\<close>, \<open>Unmap\<close>: \<open>mm/paging/sv39\<close>. \<open>pt_inv\<close> says that the tables form a tree of
    pages that belong to the allocator; \<open>map\<close> at every level changes the translation of one page and of nothing
    else, \<open>id_map_range\<close> makes a range translate to itself, \<open>unmap\<close> returns every table once.
  \<^item> \<open>Process\<close>: \<open>process/table.rs\<close>, \<open>process/process.rs\<close> and the trap frame. Round robin, fresh
    stacks that never overlap, and the stack that \<open>exit_current\<close> leaks.
  \<^item> \<open>Elf\<close>: \<open>exec/elf.rs\<close>. Which images are accepted, a round trip with an encoder, and the read
    past the buffer that small program headers cause.
  \<^item> \<open>Virtio\<close>, \<open>BlockIO\<close>, \<open>Discovery\<close>, \<open>Probe\<close>: \<open>drivers/virtio\<close>. The descriptor allocator against a
    reference, the completion loop across wrap-around, the rings as the device reads them, reads and writes
    through a device, discovery and setup for every answer of the probed registers, interrupt routing.
  \<^item> \<open>Minix\<close>, \<open>MinixRead\<close>, \<open>MinixProps\<close>: \<open>fs/minix3\<close>. The reader is proved on the locale
    \<open>block_source\<close>, a disk that can be read; the interpretation \<open>blk\<close> discharges its laws for
    \<open>block_read\<close>. Mounting, inodes, files through all levels of zones, holes, names.
  \<^item> \<open>Uart\<close>, \<open>Plic\<close>: \<open>drivers/uart\<close>, \<open>console\<close>, \<open>drivers/plic\<close>.
  \<^item> \<open>TrapState\<close>, \<open>Syscall\<close>, \<open>Trap\<close>, \<open>TrapProps\<close>: \<open>arch/riscv64/trap.rs\<close> and \<open>process/syscall.rs\<close>.
    Every cause of \<open>m_trap\<close>; the echo against a reference that reads whole escape sequences; every external interrupt
    is completed.
  \<^item> \<open>TrapVector\<close>: the instructions of \<open>arch/riscv64/asm/trap.S\<close> and the semantics of those
    instructions. The vector refines the saving and loading of a \<open>TrapFrame\<close> around the call.
  \<^item> \<open>Untouched\<close>, \<open>Context\<close>, \<open>SyscallProps\<close>: what the drivers and the reader leave alone (locales
    \<open>mem_blind\<close>, \<open>driver_view\<close> and \<open>quiet_reader\<close>, interpretations \<open>pm\<close>, \<open>pd\<close> and \<open>pr\<close>), whole
    traps and sequences of them, and the read system call from the registers of the caller to the disk.
  \<^item> \<open>Fairness\<close>: how long a ready process waits, over runs with traps of every cause: the relation
    \<open>waits\<close> counts timer interrupts and exits, and bounds the first by the second.
  \<^item> \<open>Panic\<close>: \<open>boot/panic.rs\<close> and \<open>boot/abort.rs\<close>. What a panic prints, and what the interrupts do
    that arrive in the loop of \<open>abort\<close>: the timer still preempts code that panicked in supervisor mode.
  \<^item> \<open>Boot\<close>, \<open>BootMap\<close>: \<open>boot/entry.rs\<close>, \<open>arch/riscv64/paging.rs\<close> and \<open>arch/riscv64/asm/boot.S\<close>. The
    address space that \<open>kinit\<close> ends in.
  \<^item> \<open>Board\<close>, \<open>Listing\<close>, \<open>Startup\<close>: the parts together on a board with a serial port and a disk. The
    relation \<open>told\<close> composes printing with disk reads through scratch pages; with it, what the
    directory listing, the self tests and \<open>skmain\<close> print is a function of the disk, everything
    they borrow is returned, and the first timer interrupt starts init.
  \<^item> \<open>Bootstrap\<close>: the whole boot. From the run of \<open>kinit\<close> and the registers of a virtio block device
    follow the assumptions of \<open>Startup\<close>, so \<open>kinit\<close>, \<open>skmain\<close> and the first timer interrupt compose.

  \<^bold>\<open>Hardware\<close>

  The registers and the devices are parameters: \<open>bus\<close> has the 32-bit accesses, with a flag for an
  access fault, and the memory accesses of the devices; \<open>soc\<close> adds the byte and the 64-bit accesses. Where a
  claim depends on a device it has a contract as hypothesis, taken from the device's
  documentation: \<open>blk_device\<close> (a request for whole sectors is served from the rings after finitely
  many polls; of other lengths nothing is promised),
  \<open>uart_device\<close> (a 16550), \<open>plic_device\<close> (claim and complete), \<open>uart_apart\<close> and
  \<open>disk_apart\<close> (the serial port and the disk do not disturb each other), \<open>clock_ok\<close> (the clock is not
  about to overflow), \<open>virtio_port\<close> (the registers of a legacy virtio block device during its
  setup), \<open>fails_last\<close> (a device that faults on the last write of its setup). Each is satisfied by a concrete device in the witnesses. The claims of
  \<open>Probe\<close> and \<open>BootMap\<close> assume the serial port they print on, and hold for every behaviour of the
  interrupt controller and of the probed devices.

  \<^bold>\<open>Fuel\<close>

  Only waits on hardware and the BSS loop have fuel. \<open>put\<close> polls the line status, \<open>spin\<close> polls the
  used ring: with more fuel than the bound of the device's contract they return, and each property
  assumes no more than that. The loop in \<open>clear_bss\<close> needs one unit for eight bytes of the
  section. Every other loop is a total function: \<open>dealloc_run\<close> and \<open>pending\<close> have a termination proof,
  the rest is structural.

  \<^bold>\<open>Not modelled\<close>

  \<^item> Interleaving within an operation. A trap is taken between operations of the kernel, never
    inside one: a block request is not interrupted by its own completion interrupt, and the device serves a
    request in one step once it starts. The hart is alone, as in the kernel.
  \<^item> The instructions of the Rust code, the translation of the addresses it uses and the TLB; the model
    follows the source. \<open>BootMap\<close> shows that in supervisor mode every address of the kernel translates to itself.
  \<^item> The end of RAM. Memory is a byte at every address; the allocator hands out pages beyond
    \<open>memory_end\<close>, and what the model stores there means nothing. Claims about the contents of fresh
    pages are limited to addresses in RAM.
  \<^item> Privilege. \<open>Mret\<close> in the model of the vector sets the program counter; the effects of \<open>mret\<close> on
    \<open>mstatus\<close> and the privilege mode are not modelled, nor are traps taken while \<open>skmain\<close> runs. Whether
    interrupts are taken in the loop of \<open>abort\<close> is an argument.
  \<^item> A panic inside an operation is its fault value, without the state it leaves; \<open>panic\<close> is the
    handler on a given state and message. Which message belongs to a failed assertion, index or
    \<open>unwrap\<close> is not kept.
  \<^item> \<open>arch/mod.rs\<close>, \<open>main.rs\<close> and the \<open>mod.rs\<close> files only forward, declare and re-export. Output is
    the bytes that \<open>core::fmt\<close> produces; the formatting machinery itself is part of the language.
\<close>

end
